theory Spec2Isabelle
  imports Main "HOL-Library.Word"
begin

unbundle bit_operations_syntax

section \<open>Data model of bitset.c\<close>

text \<open>
  The return codes of the library. A call that does not return (a failed \<^verbatim>\<open>assert\<close>, or
  an access through a pointer that is NULL, not live or out of an array's bounds) is a
  \<open>fault\<close>; every function of the model returns \<open>fault + result\<close>.
\<close>

datatype retcode = OK | ERRINPUT | ERRMEM

datatype fault = AssertFailed | BadAccess

text \<open>
  \<^verbatim>\<open>struct bitset_block\<close>: reference count, cached population count, and the array
  \<^verbatim>\<open>int64_t ints[BLOCKSIZE]\<close>. \<^verbatim>\<open>struct bitset\<close>: \<^verbatim>\<open>bitcount\<close>, \<^verbatim>\<open>block_count\<close> and the
  pointer \<^verbatim>\<open>blocks\<close> to an array of block pointers (\<open>None\<close> is the NULL pointer, at both
  levels). Pointers are natural numbers.
\<close>

record bitset_block =
  ref_count :: int
  set_count :: int
  ints :: "64 word list"

record bitset =
  bitcount :: int
  block_count :: int
  blocks :: "nat option list option"

text \<open>
  The memory the library works on: the live blocks, the live bitsets, the next address
  \<^verbatim>\<open>malloc\<close> hands out, the outcomes of the coming \<^verbatim>\<open>malloc\<close> calls (\<open>False\<close>: the call
  returns NULL; past the end of the list every call succeeds), and the two static
  counters of the file. The counters are C \<^verbatim>\<open>int\<close>s: 32-bit words, read as signed numbers;
  \<^verbatim>\<open>block_mem += sz\<close> adds a \<^verbatim>\<open>size_t\<close> and keeps the low 32 bits of the sum.
\<close>

record state =
  block_heap :: "nat \<rightharpoonup> bitset_block"
  bitset_heap :: "nat \<rightharpoonup> bitset"
  next_ptr :: nat
  malloc_plan :: "bool list"
  block_allocs :: "32 word"
  block_mem :: "32 word"

definition init_state :: "bool list \<Rightarrow> state" where
  "init_state plan =
     \<lparr>block_heap = Map.empty, bitset_heap = Map.empty, next_ptr = 0,
      malloc_plan = plan, block_allocs = 0, block_mem = 0\<rparr>"

subsection \<open>The constants of bitset.h\<close>

text \<open>
  The header is not part of the sources. \<^verbatim>\<open>BLOCKSIZE\<close>, the number of 64-bit words of a
  block, is the parameter \<open>B\<close> of every function below. bitset.c itself uses
  \<^verbatim>\<open>64*BLOCKSIZE\<close> and \<^verbatim>\<open>IDSPERBLOCK\<close> for the same quantity (in \<^verbatim>\<open>bitset_invert\<close>).
\<close>

definition IDSPERBLOCK :: "nat \<Rightarrow> int" where
  "IDSPERBLOCK B = 64 * int B"

text \<open>
  Modelled from the spec: the macro \<^verbatim>\<open>BLOCKCOUNT\<close> of bitset.h is missing; the spec gives
  the length of the slot sequence as \<open>ceil(bit_capacity / block_capacity)\<close>.
\<close>

definition BLOCKCOUNT :: "nat \<Rightarrow> int \<Rightarrow> int" where
  "BLOCKCOUNT B n = - ((- n) div IDSPERBLOCK B)"

text \<open>Object sizes on an LP64 target, as \<^verbatim>\<open>sizeof\<close> gives them.\<close>

definition sizeof_bitset :: int where
  "sizeof_bitset = 16"

definition sizeof_ptr :: int where
  "sizeof_ptr = 8"

definition sizeof_block :: "nat \<Rightarrow> int" where
  "sizeof_block B = 8 + 8 * int B"

subsection \<open>Sequencing and memory access\<close>

definition bnd :: "fault + 'a \<Rightarrow> ('a \<Rightarrow> fault + 'b) \<Rightarrow> fault + 'b" where
  "bnd m f = (case m of Inl e \<Rightarrow> Inl e | Inr x \<Rightarrow> f x)"

definition assert :: "bool \<Rightarrow> fault + unit" where
  "assert c = (if c then Inr () else Inl AssertFailed)"

text \<open>
  \<^verbatim>\<open>malloc(sz)\<close>: the size is a \<^verbatim>\<open>size_t\<close>; a request above \<^verbatim>\<open>PTRDIFF_MAX\<close> fails,
  any other request takes the next outcome of the plan.
\<close>

definition malloc :: "state \<Rightarrow> int \<Rightarrow> nat option \<times> state" where
  "malloc st sz =
     (if 2 ^ 63 \<le> sz mod 2 ^ 64 then (None, st)
      else case malloc_plan st of
        [] \<Rightarrow> (Some (next_ptr st), st\<lparr>next_ptr := Suc (next_ptr st)\<rparr>)
      | ok # plan \<Rightarrow>
          if ok then (Some (next_ptr st), st\<lparr>next_ptr := Suc (next_ptr st), malloc_plan := plan\<rparr>)
          else (None, st\<lparr>malloc_plan := plan\<rparr>))"

definition get_bitset :: "state \<Rightarrow> nat option \<Rightarrow> fault + bitset" where
  "get_bitset st p =
     (case p of None \<Rightarrow> Inl BadAccess
      | Some a \<Rightarrow> (case bitset_heap st a of None \<Rightarrow> Inl BadAccess | Some bs \<Rightarrow> Inr bs))"

definition get_block :: "state \<Rightarrow> nat \<Rightarrow> fault + bitset_block" where
  "get_block st q = (case block_heap st q of None \<Rightarrow> Inl BadAccess | Some blk \<Rightarrow> Inr blk)"

definition put_block :: "state \<Rightarrow> nat \<Rightarrow> bitset_block \<Rightarrow> state" where
  "put_block st q blk = st\<lparr>block_heap := (block_heap st)(q \<mapsto> blk)\<rparr>"

text \<open>\<^verbatim>\<open>bset->blocks[i]\<close>, read and written.\<close>

definition get_slot :: "state \<Rightarrow> nat \<Rightarrow> int \<Rightarrow> fault + nat option" where
  "get_slot st a i =
     (case bitset_heap st a of None \<Rightarrow> Inl BadAccess
      | Some bs \<Rightarrow>
          (case blocks bs of None \<Rightarrow> Inl BadAccess
           | Some xs \<Rightarrow> if 0 \<le> i \<and> nat i < length xs then Inr (xs ! nat i) else Inl BadAccess))"

definition set_slot :: "state \<Rightarrow> nat \<Rightarrow> int \<Rightarrow> nat option \<Rightarrow> fault + state" where
  "set_slot st a i v =
     (case bitset_heap st a of None \<Rightarrow> Inl BadAccess
      | Some bs \<Rightarrow>
          (case blocks bs of None \<Rightarrow> Inl BadAccess
           | Some xs \<Rightarrow>
               if 0 \<le> i \<and> nat i < length xs
               then Inr (st\<lparr>bitset_heap := (bitset_heap st)(a \<mapsto> bs\<lparr>blocks := Some (xs[nat i := v])\<rparr>)\<rparr>)
               else Inl BadAccess))"

section \<open>Block operations\<close>

text \<open>\<^verbatim>\<open>__builtin_popcountll\<close>.\<close>

definition popcountll :: "64 word \<Rightarrow> int" where
  "popcountll w = int (length (filter (bit w) [0..<64]))"

text \<open>
  \<^verbatim>\<open>bitset_block_new\<close>: an uninitialised block. Its three callers write every field
  before reading any, so the model stores zeroes for the uninitialised memory.
\<close>

definition bitset_block_new :: "nat \<Rightarrow> state \<Rightarrow> retcode \<times> nat option \<times> state" where
  "bitset_block_new B st =
     (case malloc st (sizeof_block B) of
        (None, st1) \<Rightarrow> (ERRMEM, None, st1)
      | (Some blk, st1) \<Rightarrow>
          (OK, Some blk,
           st1\<lparr>block_heap := (block_heap st1)(blk \<mapsto> \<lparr>ref_count = 0, set_count = 0, ints = replicate B 0\<rparr>),
               block_allocs := block_allocs st1 + 1,
               block_mem := block_mem st1 + word_of_int (sizeof_block B)\<rparr>))"

definition bitset_block_alloc :: "nat \<Rightarrow> state \<Rightarrow> nat \<Rightarrow> int \<Rightarrow> fault + (retcode \<times> nat option \<times> state)" where
  "bitset_block_alloc B st bset block =
     (case bitset_block_new B st of
        (OK, Some blk, st1) \<Rightarrow>
          (let st2 = put_block st1 blk \<lparr>ref_count = 1, set_count = 0, ints = replicate B 0\<rparr> in
           bnd (get_slot st2 bset block) (\<lambda>old.
           bnd (assert (old = None)) (\<lambda>_.
           bnd (set_slot st2 bset block (Some blk)) (\<lambda>st3.
           Inr (OK, Some blk, st3)))))
      | (ret, _, st1) \<Rightarrow> Inr (ret, None, st1))"

definition bitset_block_incref :: "state \<Rightarrow> nat \<Rightarrow> fault + state" where
  "bitset_block_incref st blk =
     bnd (get_block st blk) (\<lambda>b. Inr (put_block st blk (b\<lparr>ref_count := ref_count b + 1\<rparr>)))"

definition bitset_block_decref :: "state \<Rightarrow> nat \<Rightarrow> fault + state" where
  "bitset_block_decref st blk =
     bnd (get_block st blk) (\<lambda>b.
       if ref_count b - 1 = 0
       then Inr (st\<lparr>block_heap := (block_heap st)(blk := None)\<rparr>)
       else Inr (put_block st blk (b\<lparr>ref_count := ref_count b - 1\<rparr>)))"

definition bitset_block_realloc :: "nat \<Rightarrow> state \<Rightarrow> nat \<Rightarrow> int \<Rightarrow> fault + (retcode \<times> nat option \<times> state)" where
  "bitset_block_realloc B st bset block =
     bnd (get_slot st bset block) (\<lambda>slot.
     case slot of None \<Rightarrow> Inl AssertFailed
     | Some orig \<Rightarrow>
         bnd (get_block st orig) (\<lambda>ob.
         bnd (assert (ref_count ob > 1)) (\<lambda>_.
         bnd (bitset_block_decref st orig) (\<lambda>st1.
         bnd (set_slot st1 bset block None) (\<lambda>st2.
         case bitset_block_new B st2 of
           (OK, Some blk, st3) \<Rightarrow>
             bnd (get_block st3 orig) (\<lambda>ob'.
             bnd (set_slot st3 bset block (Some blk)) (\<lambda>st4.
             Inr (OK, Some blk,
                  put_block st4 blk \<lparr>ref_count = 1, set_count = set_count ob', ints = ints ob'\<rparr>)))
         | (ret, _, st3) \<Rightarrow> Inr (ret, None, st3))))))"

text \<open>
  The functions that work on the words of one block take the block and return it
  updated; the caller stores it back at the pointer. \<^verbatim>\<open>DIVMOD(bit, 64, n, b)\<close> is applied
  to a non-negative bit number, where C's truncating division is \<open>div\<close> and \<open>mod\<close>.
\<close>

definition bitset_block_test_bit :: "bitset_block \<Rightarrow> int \<Rightarrow> fault + int" where
  "bitset_block_test_bit blk bt =
     (let n = nat (bt div 64); b = nat (bt mod 64) in
      if 0 \<le> bt \<and> n < length (ints blk)
      then Inr (if (ints blk ! n) AND push_bit b 1 \<noteq> 0 then 1 else 0)
      else Inl BadAccess)"

definition bitset_block_set_bit :: "bitset_block \<Rightarrow> int \<Rightarrow> fault + bitset_block" where
  "bitset_block_set_bit blk bt =
     (let n = nat (bt div 64); b = nat (bt mod 64) in
      if 0 \<le> bt \<and> n < length (ints blk)
      then Inr (blk\<lparr>ints := (ints blk)[n := (ints blk ! n) OR push_bit b 1],
                    set_count := set_count blk + 1\<rparr>)
      else Inl BadAccess)"

definition bitset_block_clr_bit :: "bitset_block \<Rightarrow> int \<Rightarrow> fault + bitset_block" where
  "bitset_block_clr_bit blk bt =
     (let n = nat (bt div 64); b = nat (bt mod 64) in
      if 0 \<le> bt \<and> n < length (ints blk)
      then Inr (blk\<lparr>ints := (ints blk)[n := (ints blk ! n) AND NOT (push_bit b 1)],
                    set_count := set_count blk - 1\<rparr>)
      else Inl BadAccess)"

definition bitset_block_toggle_bit :: "bitset_block \<Rightarrow> int \<Rightarrow> fault + bitset_block" where
  "bitset_block_toggle_bit blk bt =
     (let n = nat (bt div 64); b = nat (bt mod 64); mask = push_bit b (1 :: 64 word) in
      if 0 \<le> bt \<and> n < length (ints blk)
      then (let w = (ints blk ! n) XOR mask in
            Inr (blk\<lparr>ints := (ints blk)[n := w],
                     set_count := (if w AND mask = 0 then set_count blk - 1 else set_count blk + 1)\<rparr>))
      else Inl BadAccess)"

text \<open>
  The word loops \<^verbatim>\<open>for (i = 0; i < BLOCKSIZE; i++)\<close> of the four whole-block functions:
  word \<open>i\<close> of the result depends on word \<open>i\<close> of the arguments only, so that the loop is
  a map over the \<open>B\<close> words (also when both arguments are the same block).
\<close>

definition word_loop :: "nat \<Rightarrow> (64 word \<Rightarrow> 64 word \<Rightarrow> 64 word) \<Rightarrow> bitset_block \<Rightarrow> bitset_block \<Rightarrow> fault + bitset_block" where
  "word_loop B f a b =
     (if B \<le> length (ints a) \<and> B \<le> length (ints b)
      then (let ws = map (\<lambda>i. f (ints a ! i) (ints b ! i)) [0..<B] in
            Inr (a\<lparr>ints := ws @ drop B (ints a), set_count := sum_list (map popcountll ws)\<rparr>))
      else Inl BadAccess)"

definition bitset_block_or :: "nat \<Rightarrow> bitset_block \<Rightarrow> bitset_block \<Rightarrow> fault + bitset_block" where
  "bitset_block_or B a b =
     bnd (assert (ref_count a = 1)) (\<lambda>_. word_loop B (\<lambda>x y. x OR y) a b)"

definition bitset_block_and :: "nat \<Rightarrow> bitset_block \<Rightarrow> bitset_block \<Rightarrow> fault + bitset_block" where
  "bitset_block_and B a b =
     bnd (assert (ref_count a = 1)) (\<lambda>_. word_loop B (\<lambda>x y. x AND y) a b)"

definition bitset_block_subtract :: "nat \<Rightarrow> bitset_block \<Rightarrow> bitset_block \<Rightarrow> fault + bitset_block" where
  "bitset_block_subtract B a b =
     bnd (assert (ref_count a = 1)) (\<lambda>_. word_loop B (\<lambda>x y. x AND NOT y) a b)"

definition bitset_block_invert :: "nat \<Rightarrow> bitset_block \<Rightarrow> fault + bitset_block" where
  "bitset_block_invert B b =
     bnd (assert (ref_count b = 1)) (\<lambda>_.
       if B \<le> length (ints b)
       then Inr (b\<lparr>ints := map (\<lambda>i. NOT (ints b ! i)) [0..<B] @ drop B (ints b),
                   set_count := IDSPERBLOCK B - set_count b\<rparr>)
       else Inl BadAccess)"

section \<open>Allocation and destruction\<close>

definition zero_bitset :: bitset where
  "zero_bitset = \<lparr>bitcount = 0, block_count = 0, blocks = None\<rparr>"

text \<open>
  \<^verbatim>\<open>bitset_init\<close>. The array of block pointers is part of the bitset record; the address
  \<^verbatim>\<open>malloc\<close> returns for it is not kept, since no other pointer ever refers to the array.
\<close>

definition bitset_init :: "nat \<Rightarrow> state \<Rightarrow> nat \<Rightarrow> int \<Rightarrow> fault + (retcode \<times> state)" where
  "bitset_init B st bset bc =
     bnd (get_bitset st (Some bset)) (\<lambda>_.
       let bs = \<lparr>bitcount = bc, block_count = BLOCKCOUNT B bc, blocks = None\<rparr>;
           sz = sizeof_ptr * block_count bs
       in case malloc st sz of
            (None, st1) \<Rightarrow> Inr (ERRMEM, st1\<lparr>bitset_heap := (bitset_heap st1)(bset \<mapsto> bs)\<rparr>)
          | (Some _, st1) \<Rightarrow>
              Inr (OK, st1\<lparr>bitset_heap :=
                             (bitset_heap st1)(bset \<mapsto> bs\<lparr>blocks := Some (replicate (nat (block_count bs)) None)\<rparr>),
                           block_allocs := block_allocs st1 + 1,
                           block_mem := block_mem st1 + word_of_int (sz mod 2 ^ 64)\<rparr>))"

fun free_loop :: "state \<Rightarrow> nat \<Rightarrow> nat list \<Rightarrow> fault + state" where
  "free_loop st a [] = Inr st"
| "free_loop st a (i # is) =
     (case get_slot st a (int i) of
        Inl e \<Rightarrow> Inl e
      | Inr None \<Rightarrow> free_loop st a is
      | Inr (Some blk) \<Rightarrow>
          (case bitset_block_decref st blk of Inl e \<Rightarrow> Inl e | Inr st1 \<Rightarrow> free_loop st1 a is))"

definition bitset_free :: "state \<Rightarrow> nat option \<Rightarrow> fault + state" where
  "bitset_free st bset =
     (case bset of
        None \<Rightarrow> Inr st
      | Some a \<Rightarrow>
          bnd (get_bitset st bset) (\<lambda>bs.
          bnd (case blocks bs of
                 None \<Rightarrow> Inr st
               | Some _ \<Rightarrow> free_loop st a [0..<nat (block_count bs)]) (\<lambda>st1.
          Inr (st1\<lparr>bitset_heap := (bitset_heap st1)(a := None)\<rparr>))))"

text \<open>
  An output parameter \<^verbatim>\<open>struct bitset **\<close> is \<open>None\<close> when the pointer is NULL and
  \<open>Some v\<close> when it points to a variable holding \<open>v\<close>; a function returns the parameter as
  it is after the call.
\<close>

definition bitset_alloc :: "nat \<Rightarrow> state \<Rightarrow> int \<Rightarrow> nat option option \<Rightarrow> fault + (retcode \<times> nat option option \<times> state)" where
  "bitset_alloc B st bc bset_out =
     (if bset_out \<noteq> Some None then Inr (ERRINPUT, bset_out, st)
      else case malloc st sizeof_bitset of
        (None, st1) \<Rightarrow> Inr (ERRMEM, bset_out, st1)
      | (Some bset, st1) \<Rightarrow>
          (let st2 = st1\<lparr>bitset_heap := (bitset_heap st1)(bset \<mapsto> zero_bitset),
                          block_allocs := block_allocs st1 + 1,
                          block_mem := block_mem st1 + word_of_int sizeof_bitset\<rparr>
           in bnd (bitset_init B st2 bset bc) (\<lambda>(ret, st3).
                if ret \<noteq> OK
                then bnd (bitset_free st3 (Some bset)) (\<lambda>st4. Inr (ret, bset_out, st4))
                else Inr (ret, Some (Some bset), st3))))"

fun incref_loop :: "state \<Rightarrow> nat \<Rightarrow> nat list \<Rightarrow> fault + state" where
  "incref_loop st a [] = Inr st"
| "incref_loop st a (i # is) =
     (case get_slot st a (int i) of
        Inl e \<Rightarrow> Inl e
      | Inr None \<Rightarrow> incref_loop st a is
      | Inr (Some blk) \<Rightarrow>
          (case bitset_block_incref st blk of Inl e \<Rightarrow> Inl e | Inr st1 \<Rightarrow> incref_loop st1 a is))"

text \<open>\<^verbatim>\<open>memcpy(bset->blocks, s->blocks, sz)\<close> reads \<^verbatim>\<open>block_count\<close> pointers of the source.\<close>

definition memcpy_blocks :: "bitset \<Rightarrow> fault + nat option list" where
  "memcpy_blocks src =
     (case blocks src of
        None \<Rightarrow> Inl BadAccess
      | Some xs \<Rightarrow>
          if nat (block_count src) \<le> length xs then Inr (take (nat (block_count src)) xs)
          else Inl BadAccess)"

definition bitset_dup :: "state \<Rightarrow> nat option \<Rightarrow> nat option option \<Rightarrow> fault + (retcode \<times> nat option option \<times> state)" where
  "bitset_dup st s r =
     (if s = None then Inr (ERRINPUT, r, st)
      else if r \<noteq> Some None then Inr (ERRINPUT, r, st)
      else case malloc st sizeof_bitset of
        (None, st1) \<Rightarrow> Inr (ERRMEM, r, st1)
      | (Some bset, st1) \<Rightarrow>
          (let st2 = st1\<lparr>bitset_heap := (bitset_heap st1)(bset \<mapsto> zero_bitset),
                          block_allocs := block_allocs st1 + 1,
                          block_mem := block_mem st1 + word_of_int sizeof_bitset\<rparr>
           in bnd (get_bitset st2 s) (\<lambda>src.
              let bs = \<lparr>bitcount = bitcount src, block_count = block_count src, blocks = None\<rparr>;
                  sz = sizeof_ptr * block_count bs
              in case malloc (st2\<lparr>bitset_heap := (bitset_heap st2)(bset \<mapsto> bs)\<rparr>) sz of
                   (None, st3) \<Rightarrow> bnd (bitset_free st3 (Some bset)) (\<lambda>st4. Inr (ERRMEM, r, st4))
                 | (Some _, st3) \<Rightarrow>
                     bnd (memcpy_blocks src) (\<lambda>xs.
                     bnd (incref_loop
                            (st3\<lparr>bitset_heap := (bitset_heap st3)(bset \<mapsto> bs\<lparr>blocks := Some xs\<rparr>),
                                 block_allocs := block_allocs st3 + 1,
                                 block_mem := block_mem st3 + word_of_int (sz mod 2 ^ 64)\<rparr>)
                            bset [0..<nat (block_count bs)]) (\<lambda>st4.
                     Inr (OK, Some (Some bset), st4))))))"

section \<open>Object information\<close>

text \<open>
  \<^verbatim>\<open>bitset_bitcount\<close> and \<^verbatim>\<open>bitset_set_count\<close> return \<^verbatim>\<open>ERRINPUT\<close> or the count in one
  \<^verbatim>\<open>int\<close>; the model keeps the two apart.
\<close>

definition bitset_bitcount :: "state \<Rightarrow> nat option \<Rightarrow> fault + (retcode + int)" where
  "bitset_bitcount st a =
     (if a = None then Inr (Inl ERRINPUT)
      else bnd (get_bitset st a) (\<lambda>bs. Inr (Inr (bitcount bs))))"

fun set_count_loop :: "state \<Rightarrow> nat \<Rightarrow> int \<Rightarrow> nat list \<Rightarrow> fault + int" where
  "set_count_loop st a n [] = Inr n"
| "set_count_loop st a n (i # is) =
     (case get_slot st a (int i) of
        Inl e \<Rightarrow> Inl e
      | Inr None \<Rightarrow> set_count_loop st a n is
      | Inr (Some blk) \<Rightarrow>
          (case get_block st blk of
             Inl e \<Rightarrow> Inl e
           | Inr b \<Rightarrow> set_count_loop st a (n + set_count b) is))"

definition bitset_set_count :: "state \<Rightarrow> nat option \<Rightarrow> fault + (retcode + int)" where
  "bitset_set_count st a =
     (case a of
        None \<Rightarrow> Inr (Inl ERRINPUT)
      | Some ap \<Rightarrow>
          bnd (get_bitset st a) (\<lambda>bs.
          bnd (set_count_loop st ap 0 [0..<nat (block_count bs)]) (\<lambda>n. Inr (Inr n))))"

section \<open>Bit operations\<close>

text \<open>
  \<^verbatim>\<open>DIVMOD(bit, IDSPERBLOCK, block, block_bit)\<close> runs after the range check, on a
  non-negative \<^verbatim>\<open>bit\<close>. None of the four functions checks \<^verbatim>\<open>bset\<close> for NULL.
\<close>

definition bitset_set :: "nat \<Rightarrow> state \<Rightarrow> nat option \<Rightarrow> int \<Rightarrow> fault + (retcode \<times> state)" where
  "bitset_set B st bset bt =
     bnd (get_bitset st bset) (\<lambda>bs.
       if bt < 0 \<or> bt \<ge> bitcount bs then Inr (ERRINPUT, st)
       else
         let block = bt div IDSPERBLOCK B; block_bit = bt mod IDSPERBLOCK B; a = the bset in
         bnd (assert (block < block_count bs)) (\<lambda>_.
         bnd (get_slot st a block) (\<lambda>slot.
         case slot of
           None \<Rightarrow>
             bnd (bitset_block_alloc B st a block) (\<lambda>(ret, blk, st1).
               if ret \<noteq> OK then Inr (ret, st1)
               else case blk of None \<Rightarrow> Inl BadAccess
                    | Some q \<Rightarrow>
                        bnd (get_block st1 q) (\<lambda>b.
                        bnd (bitset_block_set_bit b block_bit) (\<lambda>b'.
                        Inr (OK, put_block st1 q b'))))
         | Some p \<Rightarrow>
             bnd (get_block st p) (\<lambda>pb.
             bnd (bitset_block_test_bit pb block_bit) (\<lambda>t.
               if t \<noteq> 0 then Inr (OK, st)
               else
                 bnd (if ref_count pb > 1 then bitset_block_realloc B st a block
                      else Inr (OK, Some p, st)) (\<lambda>(ret, blk, st1).
                   if ret \<noteq> OK then Inr (ret, st1)
                   else case blk of None \<Rightarrow> Inl BadAccess
                        | Some q \<Rightarrow>
                            bnd (get_block st1 q) (\<lambda>b.
                            bnd (bitset_block_set_bit b block_bit) (\<lambda>b'.
                            Inr (OK, put_block st1 q b')))))))))"

definition bitset_clr :: "nat \<Rightarrow> state \<Rightarrow> nat option \<Rightarrow> int \<Rightarrow> fault + (retcode \<times> state)" where
  "bitset_clr B st bset bt =
     bnd (get_bitset st bset) (\<lambda>bs.
       if bt < 0 \<or> bt \<ge> bitcount bs then Inr (ERRINPUT, st)
       else
         let block = bt div IDSPERBLOCK B; block_bit = bt mod IDSPERBLOCK B; a = the bset in
         bnd (assert (block < block_count bs)) (\<lambda>_.
         bnd (get_slot st a block) (\<lambda>slot.
         case slot of
           None \<Rightarrow> Inr (OK, st)
         | Some p \<Rightarrow>
             bnd (get_block st p) (\<lambda>pb.
             bnd (bitset_block_test_bit pb block_bit) (\<lambda>t.
               if t = 0 then Inr (OK, st)
               else
                 bnd (if ref_count pb > 1 then bitset_block_realloc B st a block
                      else Inr (OK, Some p, st)) (\<lambda>(ret, blk, st1).
                   if ret \<noteq> OK then Inr (ret, st1)
                   else case blk of None \<Rightarrow> Inl BadAccess
                        | Some q \<Rightarrow>
                            bnd (get_block st1 q) (\<lambda>b.
                            bnd (bitset_block_clr_bit b block_bit) (\<lambda>b'.
                            Inr (OK, put_block st1 q b')))))))))"

definition bitset_toggle_bit :: "nat \<Rightarrow> state \<Rightarrow> nat option \<Rightarrow> int \<Rightarrow> fault + (retcode \<times> state)" where
  "bitset_toggle_bit B st bset bt =
     bnd (get_bitset st bset) (\<lambda>bs.
       if bt < 0 \<or> bt \<ge> bitcount bs then Inr (ERRINPUT, st)
       else
         let block = bt div IDSPERBLOCK B; block_bit = bt mod IDSPERBLOCK B; a = the bset in
         bnd (assert (block < block_count bs)) (\<lambda>_.
         bnd (get_slot st a block) (\<lambda>slot.
         bnd (case slot of
                None \<Rightarrow> bitset_block_alloc B st a block
              | Some p \<Rightarrow>
                  bnd (get_block st p) (\<lambda>pb.
                    if ref_count pb > 1 then bitset_block_realloc B st a block
                    else Inr (OK, Some p, st))) (\<lambda>(ret, blk, st1).
           if ret \<noteq> OK then Inr (ret, st1)
           else case blk of None \<Rightarrow> Inl AssertFailed
                | Some q \<Rightarrow>
                    bnd (get_block st1 q) (\<lambda>b.
                    bnd (bitset_block_toggle_bit b block_bit) (\<lambda>b'.
                    Inr (OK, put_block st1 q b')))))))"

text \<open>
  \<^verbatim>\<open>bitset_test_bit\<close>: the output parameter \<^verbatim>\<open>int *out\<close> is \<open>None\<close> for NULL and
  \<open>Some v\<close> for a variable holding \<open>v\<close>.
\<close>

definition bitset_test_bit :: "nat \<Rightarrow> state \<Rightarrow> nat option \<Rightarrow> int \<Rightarrow> int option \<Rightarrow> fault + (retcode \<times> int option)" where
  "bitset_test_bit B st a bt out =
     bnd (get_bitset st a) (\<lambda>bs.
       if bt < 0 \<or> bt \<ge> bitcount bs then Inr (ERRINPUT, out)
       else if out = None then Inr (ERRINPUT, out)
       else
         let block = bt div IDSPERBLOCK B; block_bit = bt mod IDSPERBLOCK B in
         bnd (assert (block < block_count bs)) (\<lambda>_.
         bnd (get_slot st (the a) block) (\<lambda>slot.
         case slot of
           None \<Rightarrow> Inr (OK, Some 0)
         | Some p \<Rightarrow>
             bnd (get_block st p) (\<lambda>pb.
             bnd (bitset_block_test_bit pb block_bit) (\<lambda>t. Inr (OK, Some t))))))"

section \<open>Set operations\<close>

text \<open>
  The loop \<^verbatim>\<open>for (i = 0; i < a->block_count; i++)\<close> of \<^verbatim>\<open>bitset_invert\<close> and of the
  in-place binary operations, left at the first error.
\<close>

fun slot_loop :: "(state \<Rightarrow> nat \<Rightarrow> fault + (retcode \<times> state)) \<Rightarrow> state \<Rightarrow> nat list \<Rightarrow> fault + (retcode \<times> state)" where
  "slot_loop body st [] = Inr (OK, st)"
| "slot_loop body st (i # is) =
     (case body st i of
        Inl e \<Rightarrow> Inl e
      | Inr (ret, st1) \<Rightarrow> if ret = OK then slot_loop body st1 is else Inr (ret, st1))"

text \<open>The body of the loop of \<^verbatim>\<open>bitset_invert\<close> at slot \<open>i\<close>.\<close>

definition invert_slot :: "nat \<Rightarrow> state \<Rightarrow> nat \<Rightarrow> nat \<Rightarrow> fault + (retcode \<times> state)" where
  "invert_slot B st a i =
     bnd (get_slot st a (int i)) (\<lambda>slot.
     case slot of
       None \<Rightarrow>
         (case bitset_block_new B st of
            (OK, Some blk, st1) \<Rightarrow>
              bnd (set_slot
                     (put_block st1 blk \<lparr>ref_count = 1, set_count = IDSPERBLOCK B, ints = replicate B (- 1)\<rparr>)
                     a (int i) (Some blk)) (\<lambda>st2.
              Inr (OK, st2))
          | (ret, _, st1) \<Rightarrow> Inr (ret, st1))
     | Some p \<Rightarrow>
         bnd (get_block st p) (\<lambda>pb.
           if set_count pb = 64 * int B
           then bnd (bitset_block_decref st p) (\<lambda>st1.
                bnd (set_slot st1 a (int i) None) (\<lambda>st2.
                Inr (OK, st2)))
           else bnd (bitset_block_invert B pb) (\<lambda>pb'. Inr (OK, put_block st p pb'))))"

definition bitset_invert :: "nat \<Rightarrow> state \<Rightarrow> nat option \<Rightarrow> fault + (retcode \<times> state)" where
  "bitset_invert B st a =
     (case a of
        None \<Rightarrow> Inr (ERRINPUT, st)
      | Some ap \<Rightarrow>
          bnd (get_bitset st a) (\<lambda>bs.
          slot_loop (\<lambda>s. invert_slot B s ap) st [0..<nat (block_count bs)]))"

definition bitset_inverse :: "nat \<Rightarrow> state \<Rightarrow> nat option \<Rightarrow> nat option option \<Rightarrow> fault + (retcode \<times> nat option option \<times> state)" where
  "bitset_inverse B st a result_out =
     (if result_out \<noteq> Some None then Inr (ERRINPUT, result_out, st)
      else
        bnd (bitset_dup st a (Some None)) (\<lambda>(ret, r, st1).
          if ret \<noteq> OK then Inr (ret, result_out, st1)
          else
            bnd (bitset_invert B st1 (the r)) (\<lambda>(ret, st2).
              if ret \<noteq> OK
              then bnd (bitset_free st2 (the r)) (\<lambda>st3. Inr (ret, result_out, st3))
              else Inr (OK, r, st2))))"

text \<open>
  The bodies of the loops of \<^verbatim>\<open>bitset_or\<close>, \<^verbatim>\<open>bitset_and\<close> and \<^verbatim>\<open>bitset_subtract\<close> at
  slot \<open>i\<close>. All three pass NULL for \<^verbatim>\<open>blk_out\<close> to \<^verbatim>\<open>bitset_block_realloc\<close> and read
  \<^verbatim>\<open>a->blocks[i]\<close> and \<^verbatim>\<open>b->blocks[i]\<close> again for the block function.
\<close>

definition cow_then :: "nat \<Rightarrow> (nat \<Rightarrow> bitset_block \<Rightarrow> bitset_block \<Rightarrow> fault + bitset_block) \<Rightarrow> state \<Rightarrow> nat \<Rightarrow> nat \<Rightarrow> nat \<Rightarrow> nat \<Rightarrow> fault + (retcode \<times> state)" where
  "cow_then B f st a b i p =
     bnd (get_block st p) (\<lambda>pb.
     bnd (if ref_count pb > 1
          then bnd (bitset_block_realloc B st a (int i)) (\<lambda>(ret, _, st1). Inr (ret, st1))
          else Inr (OK, st)) (\<lambda>(ret, st1).
       if ret \<noteq> OK then Inr (ret, st1)
       else
         bnd (get_slot st1 a (int i)) (\<lambda>sa.
         bnd (get_slot st1 b (int i)) (\<lambda>sb.
         case (sa, sb) of
           (Some x, Some y) \<Rightarrow>
             bnd (get_block st1 x) (\<lambda>xb.
             bnd (get_block st1 y) (\<lambda>yb.
             bnd (f B xb yb) (\<lambda>xb'. Inr (OK, put_block st1 x xb'))))
         | _ \<Rightarrow> Inl BadAccess))))"

definition or_slot :: "nat \<Rightarrow> state \<Rightarrow> nat \<Rightarrow> nat \<Rightarrow> nat \<Rightarrow> fault + (retcode \<times> state)" where
  "or_slot B st a b i =
     bnd (get_slot st a (int i)) (\<lambda>sa.
     bnd (get_slot st b (int i)) (\<lambda>sb.
     case (sa, sb) of
       (None, Some q) \<Rightarrow>
         bnd (set_slot st a (int i) (Some q)) (\<lambda>st1.
         bnd (bitset_block_incref st1 q) (\<lambda>st2.
         Inr (OK, st2)))
     | (Some p, Some _) \<Rightarrow> cow_then B bitset_block_or st a b i p
     | _ \<Rightarrow> Inr (OK, st)))"

definition and_slot :: "nat \<Rightarrow> state \<Rightarrow> nat \<Rightarrow> nat \<Rightarrow> nat \<Rightarrow> fault + (retcode \<times> state)" where
  "and_slot B st a b i =
     bnd (get_slot st a (int i)) (\<lambda>sa.
     bnd (get_slot st b (int i)) (\<lambda>sb.
     case (sa, sb) of
       (Some p, None) \<Rightarrow>
         bnd (bitset_block_decref st p) (\<lambda>st1.
         bnd (set_slot st1 a (int i) None) (\<lambda>st2.
         Inr (OK, st2)))
     | (Some p, Some _) \<Rightarrow> cow_then B bitset_block_and st a b i p
     | _ \<Rightarrow> Inr (OK, st)))"

definition subtract_slot :: "nat \<Rightarrow> state \<Rightarrow> nat \<Rightarrow> nat \<Rightarrow> nat \<Rightarrow> fault + (retcode \<times> state)" where
  "subtract_slot B st a b i =
     bnd (get_slot st a (int i)) (\<lambda>sa.
     bnd (get_slot st b (int i)) (\<lambda>sb.
     case (sa, sb) of
       (Some p, Some _) \<Rightarrow> cow_then B bitset_block_subtract st a b i p
     | _ \<Rightarrow> Inr (OK, st)))"

text \<open>The common head of the three in-place operations, then the loop.\<close>

definition binary_op :: "(state \<Rightarrow> nat \<Rightarrow> nat \<Rightarrow> nat \<Rightarrow> fault + (retcode \<times> state)) \<Rightarrow> state \<Rightarrow> nat option \<Rightarrow> nat option \<Rightarrow> fault + (retcode \<times> state)" where
  "binary_op body st a b =
     (case (a, b) of
        (Some ap, Some bp) \<Rightarrow>
          bnd (get_bitset st a) (\<lambda>sa.
          bnd (get_bitset st b) (\<lambda>sb.
            if bitcount sa \<noteq> bitcount sb then Inr (ERRINPUT, st)
            else
              bnd (assert (block_count sa = block_count sb)) (\<lambda>_.
              slot_loop (\<lambda>s. body s ap bp) st [0..<nat (block_count sa)])))
      | _ \<Rightarrow> Inr (ERRINPUT, st))"

definition bitset_or :: "nat \<Rightarrow> state \<Rightarrow> nat option \<Rightarrow> nat option \<Rightarrow> fault + (retcode \<times> state)" where
  "bitset_or B = binary_op (or_slot B)"

definition bitset_and :: "nat \<Rightarrow> state \<Rightarrow> nat option \<Rightarrow> nat option \<Rightarrow> fault + (retcode \<times> state)" where
  "bitset_and B = binary_op (and_slot B)"

definition bitset_subtract :: "nat \<Rightarrow> state \<Rightarrow> nat option \<Rightarrow> nat option \<Rightarrow> fault + (retcode \<times> state)" where
  "bitset_subtract B = binary_op (subtract_slot B)"

text \<open>
  \<^verbatim>\<open>bitset_union\<close>, \<^verbatim>\<open>bitset_intersect\<close> and \<^verbatim>\<open>bitset_difference\<close>: duplicate \<open>a\<close>, apply
  the in-place operation to the duplicate, free the duplicate when that fails.
\<close>

definition dup_then :: "(state \<Rightarrow> nat option \<Rightarrow> nat option \<Rightarrow> fault + (retcode \<times> state)) \<Rightarrow> state \<Rightarrow> nat option \<Rightarrow> nat option \<Rightarrow> nat option option \<Rightarrow> fault + (retcode \<times> nat option option \<times> state)" where
  "dup_then inplace st a b result_out =
     (if result_out \<noteq> Some None then Inr (ERRINPUT, result_out, st)
      else
        bnd (bitset_dup st a (Some None)) (\<lambda>(ret, r, st1).
          if ret \<noteq> OK then Inr (ret, result_out, st1)
          else
            bnd (inplace st1 (the r) b) (\<lambda>(ret, st2).
              if ret \<noteq> OK
              then bnd (bitset_free st2 (the r)) (\<lambda>st3. Inr (ret, result_out, st3))
              else Inr (OK, r, st2))))"

definition bitset_union :: "nat \<Rightarrow> state \<Rightarrow> nat option \<Rightarrow> nat option \<Rightarrow> nat option option \<Rightarrow> fault + (retcode \<times> nat option option \<times> state)" where
  "bitset_union B = dup_then (bitset_or B)"

definition bitset_intersect :: "nat \<Rightarrow> state \<Rightarrow> nat option \<Rightarrow> nat option \<Rightarrow> nat option option \<Rightarrow> fault + (retcode \<times> nat option option \<times> state)" where
  "bitset_intersect B = dup_then (bitset_and B)"

definition bitset_difference :: "nat \<Rightarrow> state \<Rightarrow> nat option \<Rightarrow> nat option \<Rightarrow> nat option option \<Rightarrow> fault + (retcode \<times> nat option option \<times> state)" where
  "bitset_difference B = dup_then (bitset_subtract B)"

section \<open>Diagnostics and sequences of calls\<close>

definition bitset_get_alloc_stats :: "state \<Rightarrow> int \<times> int" where
  "bitset_get_alloc_stats st = (sint (block_allocs st), sint (block_mem st))"

text \<open>
  A call of one public function, with its arguments. \<open>exec\<close> runs the call and keeps
  the memory it leaves; \<open>run\<close> runs a sequence of calls and stops at the first fault.
\<close>

datatype call =
    CAlloc int "nat option option"
  | CFree "nat option"
  | CDup "nat option" "nat option option"
  | CBitcount "nat option"
  | CSetCount "nat option"
  | CSet "nat option" int
  | CClr "nat option" int
  | CToggle "nat option" int
  | CTest "nat option" int "int option"
  | CInvert "nat option"
  | CInverse "nat option" "nat option option"
  | COr "nat option" "nat option"
  | CAnd "nat option" "nat option"
  | CSubtract "nat option" "nat option"
  | CUnion "nat option" "nat option" "nat option option"
  | CIntersect "nat option" "nat option" "nat option option"
  | CDifference "nat option" "nat option" "nat option option"
  | CAllocStats

fun exec :: "nat \<Rightarrow> state \<Rightarrow> call \<Rightarrow> fault + state" where
  "exec B st (CAlloc bc out) = bnd (bitset_alloc B st bc out) (\<lambda>(_, _, st'). Inr st')"
| "exec B st (CFree a) = bitset_free st a"
| "exec B st (CDup a out) = bnd (bitset_dup st a out) (\<lambda>(_, _, st'). Inr st')"
| "exec B st (CBitcount a) = bnd (bitset_bitcount st a) (\<lambda>_. Inr st)"
| "exec B st (CSetCount a) = bnd (bitset_set_count st a) (\<lambda>_. Inr st)"
| "exec B st (CSet a bt) = bnd (bitset_set B st a bt) (\<lambda>(_, st'). Inr st')"
| "exec B st (CClr a bt) = bnd (bitset_clr B st a bt) (\<lambda>(_, st'). Inr st')"
| "exec B st (CToggle a bt) = bnd (bitset_toggle_bit B st a bt) (\<lambda>(_, st'). Inr st')"
| "exec B st (CTest a bt out) = bnd (bitset_test_bit B st a bt out) (\<lambda>_. Inr st)"
| "exec B st (CInvert a) = bnd (bitset_invert B st a) (\<lambda>(_, st'). Inr st')"
| "exec B st (CInverse a out) = bnd (bitset_inverse B st a out) (\<lambda>(_, _, st'). Inr st')"
| "exec B st (COr a b) = bnd (bitset_or B st a b) (\<lambda>(_, st'). Inr st')"
| "exec B st (CAnd a b) = bnd (bitset_and B st a b) (\<lambda>(_, st'). Inr st')"
| "exec B st (CSubtract a b) = bnd (bitset_subtract B st a b) (\<lambda>(_, st'). Inr st')"
| "exec B st (CUnion a b out) = bnd (bitset_union B st a b out) (\<lambda>(_, _, st'). Inr st')"
| "exec B st (CIntersect a b out) = bnd (bitset_intersect B st a b out) (\<lambda>(_, _, st'). Inr st')"
| "exec B st (CDifference a b out) = bnd (bitset_difference B st a b out) (\<lambda>(_, _, st'). Inr st')"
| "exec B st CAllocStats = Inr st"

fun run :: "nat \<Rightarrow> state \<Rightarrow> call list \<Rightarrow> fault + state" where
  "run B st [] = Inr st"
| "run B st (c # cs) = (case exec B st c of Inl e \<Rightarrow> Inl e | Inr st' \<Rightarrow> run B st' cs)"

text \<open>The memory a sequence of calls leaves, from the empty memory where every \<^verbatim>\<open>malloc\<close> succeeds.\<close>

definition after :: "nat \<Rightarrow> call list \<Rightarrow> state" where
  "after B cs = (case run B (init_state []) cs of Inr st \<Rightarrow> st | Inl _ \<Rightarrow> init_state [])"

text \<open>The return code of a call, without the memory.\<close>

definition ret_of :: "fault + (retcode \<times> 'a) \<Rightarrow> fault + retcode" where
  "ret_of r = (case r of Inl e \<Rightarrow> Inl e | Inr (ret, _) \<Rightarrow> Inr ret)"

section \<open>Reference counts and slots\<close>

text \<open>
  \<open>holds sb q\<close> is the number of slots of one bitset that hold the block pointer \<open>q\<close>;
  \<open>refs st q\<close> is the number of slots that hold \<open>q\<close> over all live bitsets (every live
  object has an address below \<open>next_ptr\<close>); \<open>rc st q\<close> is the reference count stored in
  the block at \<open>q\<close>, 0 when no block lives there.
\<close>

definition holds :: "bitset option \<Rightarrow> nat \<Rightarrow> nat" where
  "holds sb q =
     (case sb of None \<Rightarrow> 0
      | Some bs \<Rightarrow> (case blocks bs of None \<Rightarrow> 0 | Some xs \<Rightarrow> count_list xs (Some q)))"

definition refs :: "state \<Rightarrow> nat \<Rightarrow> nat" where
  "refs st q = (\<Sum>p<next_ptr st. holds (bitset_heap st p) q)"

definition rc :: "state \<Rightarrow> nat \<Rightarrow> int" where
  "rc st q = (case block_heap st q of None \<Rightarrow> 0 | Some blk \<Rightarrow> ref_count blk)"

text \<open>
  The invariant of the memory between calls: nothing lives at or above \<open>next_ptr\<close>; the
  array of a bitset has \<^verbatim>\<open>block_count\<close> slots; and the stored reference count of every
  block is the number of slots that hold it.
\<close>

definition bounded :: "state \<Rightarrow> bool" where
  "bounded st \<longleftrightarrow> (\<forall>p. next_ptr st \<le> p \<longrightarrow> block_heap st p = None \<and> bitset_heap st p = None)"

definition shaped :: "state \<Rightarrow> bool" where
  "shaped st \<longleftrightarrow>
     (\<forall>p bs xs. bitset_heap st p = Some bs \<longrightarrow> blocks bs = Some xs \<longrightarrow> length xs = nat (block_count bs))"

definition counted :: "state \<Rightarrow> bool" where
  "counted st \<longleftrightarrow> (\<forall>q. rc st q = int (refs st q))"

definition heap_inv :: "state \<Rightarrow> bool" where
  "heap_inv st \<longleftrightarrow> bounded st \<and> shaped st \<and> counted st"

text \<open>
  The property of claim C7, in its words: the block of every present slot is live and
  its \<^verbatim>\<open>ref_count\<close> is the number of slots, over all live bitsets, that hold it.
\<close>

definition ref_counts_exact :: "state \<Rightarrow> bool" where
  "ref_counts_exact st \<longleftrightarrow>
     (\<forall>a i q. get_slot st a i = Inr (Some q) \<longrightarrow>
        (\<exists>blk. block_heap st q = Some blk \<and> ref_count blk = int (refs st q)))"

section \<open>Sizes\<close>

text \<open>
  The second invariant of the memory between calls: every block has \<open>B\<close> words; every
  bitset has its array of block pointers, and \<^verbatim>\<open>block_count\<close> blocks cover \<^verbatim>\<open>bitcount\<close> bits.
\<close>

definition sized :: "nat \<Rightarrow> state \<Rightarrow> bool" where
  "sized B st \<longleftrightarrow> (\<forall>q blk. block_heap st q = Some blk \<longrightarrow> length (ints blk) = B)"

definition dims :: "nat \<Rightarrow> state \<Rightarrow> bool" where
  "dims B st \<longleftrightarrow>
     (\<forall>p bs. bitset_heap st p = Some bs \<longrightarrow>
        blocks bs \<noteq> None \<and> bitcount bs \<le> block_count bs * IDSPERBLOCK B)
   \<and> sized B st"

section \<open>A slot that loses its block\<close>




text \<open>The memory a call leaves.\<close>

definition state_of :: "fault + (retcode \<times> state) \<Rightarrow> state" where
  "state_of r = (case r of Inl _ \<Rightarrow> init_state [] | Inr (_, st) \<Rightarrow> st)"

section \<open>Absent slots and all-zero blocks\<close>

text \<open>
  A block is all-zero when every word of it is 0. \<open>canonical st\<close> is the property of claim
  C3, in its words: no slot holds an all-zero block, that is, the block of every present slot
  is live and has a word that is not 0.
\<close>

definition all_zero :: "bitset_block \<Rightarrow> bool" where
  "all_zero blk \<longleftrightarrow> (\<forall>w\<in>set (ints blk). w = 0)"

definition canonical :: "state \<Rightarrow> bool" where
  "canonical st \<longleftrightarrow>
     (\<forall>a i q. get_slot st a i = Inr (Some q) \<longrightarrow>
        (\<exists>blk. block_heap st q = Some blk \<and> \<not> all_zero blk))"

text \<open>
  The invariant that gives \<open>canonical\<close>: every live block has \<open>B\<close> words, its cached
  \<^verbatim>\<open>set_count\<close> is the number of bits set in its words, and one word is not 0.
\<close>

definition tidy_block :: "nat \<Rightarrow> bitset_block \<Rightarrow> bool" where
  "tidy_block B blk \<longleftrightarrow>
     length (ints blk) = B \<and> set_count blk = sum_list (map popcountll (ints blk)) \<and> \<not> all_zero blk"

definition tidy :: "nat \<Rightarrow> state \<Rightarrow> bool" where
  "tidy B st \<longleftrightarrow> (\<forall>q blk. block_heap st q = Some blk \<longrightarrow> tidy_block B blk)"

text \<open>
  The calls after which no slot holds an all-zero block. \<^verbatim>\<open>bitset_clr\<close>,
  \<^verbatim>\<open>bitset_toggle_bit\<close>, \<^verbatim>\<open>bitset_and\<close>, \<^verbatim>\<open>bitset_subtract\<close>, \<^verbatim>\<open>bitset_intersect\<close> and
  \<^verbatim>\<open>bitset_difference\<close> are not among them: they write the words of a block and never look
  whether a word that is not 0 is left.
\<close>

fun leaves_no_zero_block :: "call \<Rightarrow> bool" where
  "leaves_no_zero_block (CClr a bt) = False"
| "leaves_no_zero_block (CToggle a bt) = False"
| "leaves_no_zero_block (CAnd a b) = False"
| "leaves_no_zero_block (CSubtract a b) = False"
| "leaves_no_zero_block (CIntersect a b out) = False"
| "leaves_no_zero_block (CDifference a b out) = False"
| "leaves_no_zero_block c = True"

section \<open>Example call sequences\<close>

text \<open>
  With two words per block: a bitset of 200 bits (at address 0) with bits 5 and 150 set,
  its duplicate (at address 4), and bit 6 set in the duplicate. The two bitsets still
  share the block of bit 150 (at address 3).
\<close>

definition shared_calls :: "call list" where
  "shared_calls =
     [CAlloc 200 (Some None), CSet (Some 0) 5, CSet (Some 0) 150,
      CDup (Some 0) (Some None), CSet (Some 4) 6]"

text \<open>
  With one word per block: a bitset \<open>b\<close> of 64 bits (at address 0) with bit 3 set, in the
  block at address 2, and an empty bitset \<open>a\<close> of 64 bits (at address 3).
\<close>

definition union_calls :: "call list" where
  "union_calls = [CAlloc 64 (Some None), CSet (Some 0) 3, CAlloc 64 (Some None)]"

text \<open>
  With two words per block: a bitset of 128 bits whose only set bit is cleared again; and
  a bitset with bit 5 set beside an empty one that is inverted twice.
\<close>

definition clear_calls :: "call list" where
  "clear_calls = [CAlloc 128 (Some None), CSet (Some 0) 5, CClr (Some 0) 5]"

definition invert_calls :: "call list" where
  "invert_calls = [CAlloc 128 (Some None), CSet (Some 0) 5, CAlloc 128 (Some None),
                   CInvert (Some 3), CInvert (Some 3)]"




text \<open>
  A postcondition for a call that returns: \<open>post m Q\<close> holds when \<open>m\<close> is a fault or
  returns a result that satisfies \<open>Q\<close>.
\<close>

definition post :: "fault + 'a \<Rightarrow> ('a \<Rightarrow> bool) \<Rightarrow> bool" where
  "post m Q = (case m of Inl _ \<Rightarrow> True | Inr x \<Rightarrow> Q x)"

section \<open>Evaluation\<close>

lemma bnd_simps:
  "bnd (Inl e) f = Inl e"
  "bnd (Inr x) f = f x"
  by (simp_all add: bnd_def)

lemma bnd_Inr_iff: "bnd m f = Inr y \<longleftrightarrow> (\<exists>x. m = Inr x \<and> f x = Inr y)"
  by (cases m) (simp_all add: bnd_def)

lemma assert_Inr_iff: "assert c = Inr u \<longleftrightarrow> c"
  by (simp add: assert_def)

lemmas model_defs =
  init_state_def IDSPERBLOCK_def BLOCKCOUNT_def sizeof_bitset_def sizeof_ptr_def sizeof_block_def
  assert_def malloc_def get_bitset_def get_block_def put_block_def get_slot_def set_slot_def
  popcountll_def bitset_block_new_def bitset_block_alloc_def bitset_block_incref_def
  bitset_block_decref_def bitset_block_realloc_def bitset_block_test_bit_def
  bitset_block_set_bit_def bitset_block_clr_bit_def bitset_block_toggle_bit_def word_loop_def
  bitset_block_or_def bitset_block_and_def bitset_block_subtract_def bitset_block_invert_def
  zero_bitset_def bitset_init_def bitset_free_def bitset_alloc_def memcpy_blocks_def
  bitset_dup_def bitset_bitcount_def bitset_set_count_def bitset_set_def bitset_clr_def
  bitset_toggle_bit_def bitset_test_bit_def invert_slot_def bitset_invert_def bitset_inverse_def
  cow_then_def or_slot_def and_slot_def subtract_slot_def binary_op_def bitset_or_def
  bitset_and_def bitset_subtract_def dup_then_def bitset_union_def bitset_intersect_def
  bitset_difference_def after_def ret_of_def state_of_def bnd_simps Let_def

lemma upt_2: "[0..<2] = [0, 1]"
  by (simp add: upt_rec)

section \<open>Claims settled by evaluation\<close>

text \<open>
  C1. The claim: \<^verbatim>\<open>population_count\<close> equals the number of indices below the capacity whose
  \<^verbatim>\<open>test\<close> is true; for capacity 200 with bits 5 and 150 set, \<^verbatim>\<open>invert\<close> gives a
  population count of 198. The code, with two words per block (block capacity 128, two
  slots): \<^verbatim>\<open>bitset_invert\<close> complements the 56 padding bits of the last block as well and
  \<^verbatim>\<open>bitset_set_count\<close> reports 254, more than the 200 bits of the bitset; bit 5 tests 0 and
  bit 6 tests 1, as the claim says.
\<close>

theorem invert_counts_padding_bits:
  "bitset_set_count (after 2 [CAlloc 200 (Some None), CSet (Some 0) 5, CSet (Some 0) 150]) (Some 0)
     = Inr (Inr 2)
   \<and> bitset_set_count
       (after 2 [CAlloc 200 (Some None), CSet (Some 0) 5, CSet (Some 0) 150, CInvert (Some 0)]) (Some 0)
     = Inr (Inr 254)
   \<and> bitset_test_bit 2
       (after 2 [CAlloc 200 (Some None), CSet (Some 0) 5, CSet (Some 0) 150, CInvert (Some 0)]) (Some 0) 5 (Some 0)
     = Inr (OK, Some 0)
   \<and> bitset_test_bit 2
       (after 2 [CAlloc 200 (Some None), CSet (Some 0) 5, CSet (Some 0) 150, CInvert (Some 0)]) (Some 0) 6 (Some 0)
     = Inr (OK, Some 1)"
  by (simp add: model_defs upt_2)

text \<open>
  C2. The claim: \<^verbatim>\<open>invert\<close> on a present, partial, shared block clones the block before
  it complements the words. The code: \<^verbatim>\<open>bitset_invert\<close> passes the shared block to
  \<^verbatim>\<open>bitset_block_invert\<close> as it is, whose \<^verbatim>\<open>assert(b->ref_count == 1)\<close> fails. Here bitset
  0 has bit 5 set, bitset 3 is its duplicate, and the call inverts the duplicate.
\<close>

theorem invert_shared_block_not_cloned:
  "bitset_invert 2 (after 2 [CAlloc 128 (Some None), CSet (Some 0) 5, CDup (Some 0) (Some None)]) (Some 3)
     = Inl AssertFailed"
  by (simp add: model_defs)

text \<open>
  C4. The claim: \<^verbatim>\<open>complement(complement(a))\<close> is \<open>a\<close>. The code: \<^verbatim>\<open>bitset_inverse\<close>
  duplicates \<open>a\<close> and inverts the duplicate, whose partial blocks are shared with \<open>a\<close>, so
  that the first \<^verbatim>\<open>complement\<close> already stops at the assertion of
  \<^verbatim>\<open>bitset_block_invert\<close>.
\<close>

theorem inverse_of_partial_block_aborts:
  "bitset_inverse 2 (after 2 [CAlloc 128 (Some None), CSet (Some 0) 5]) (Some 0) (Some None)
     = Inl AssertFailed"
  by (simp add: model_defs)

section \<open>Argument checks\<close>

text \<open>
  C5. When the two operands have different \<^verbatim>\<open>bitcount\<close>, each of \<^verbatim>\<open>bitset_or\<close>,
  \<^verbatim>\<open>bitset_and\<close> and \<^verbatim>\<open>bitset_subtract\<close> returns \<^verbatim>\<open>ERRINPUT\<close> and leaves the whole memory,
  so both operands, as it was.
\<close>

theorem capacity_mismatch_rejected:
  assumes "get_bitset st a = Inr sa" and "get_bitset st b = Inr sb"
    and "bitcount sa \<noteq> bitcount sb"
  shows "bitset_or B st a b = Inr (ERRINPUT, st)
       \<and> bitset_and B st a b = Inr (ERRINPUT, st)
       \<and> bitset_subtract B st a b = Inr (ERRINPUT, st)"
proof -
  from assms(1) obtain ap where a: "a = Some ap"
    by (cases a) (simp_all add: get_bitset_def)
  from assms(2) obtain bp where b: "b = Some bp"
    by (cases b) (simp_all add: get_bitset_def)
  have "binary_op body st a b = Inr (ERRINPUT, st)" for body
    using assms by (simp add: binary_op_def a b bnd_simps)
  then show ?thesis
    by (simp add: bitset_or_def bitset_and_def bitset_subtract_def)
qed

theorem capacity_mismatch_rejected_witness:
  "bitset_or 1 (after 1 [CAlloc 64 (Some None), CAlloc 128 (Some None)]) (Some 0) (Some 2)
     = Inr (ERRINPUT, after 1 [CAlloc 64 (Some None), CAlloc 128 (Some None)])
   \<and> bitset_and 1 (after 1 [CAlloc 64 (Some None), CAlloc 128 (Some None)]) (Some 0) (Some 2)
     = Inr (ERRINPUT, after 1 [CAlloc 64 (Some None), CAlloc 128 (Some None)])
   \<and> bitset_subtract 1 (after 1 [CAlloc 64 (Some None), CAlloc 128 (Some None)]) (Some 0) (Some 2)
     = Inr (ERRINPUT, after 1 [CAlloc 64 (Some None), CAlloc 128 (Some None)])"
proof -
  let ?st = "after 1 [CAlloc 64 (Some None), CAlloc 128 (Some None)]"
  have a: "get_bitset ?st (Some 0) = Inr \<lparr>bitcount = 64, block_count = 1, blocks = Some [None]\<rparr>"
    by (simp add: model_defs)
  have b: "get_bitset ?st (Some 2) = Inr \<lparr>bitcount = 128, block_count = 2, blocks = Some [None, None]\<rparr>"
    by (simp add: model_defs eval_nat_numeral)
  show ?thesis
    using capacity_mismatch_rejected [OF a b, of 1] by simp
qed

text \<open>
  C6. The claim: \<^verbatim>\<open>bitset_alloc\<close> returns \<^verbatim>\<open>ERRINPUT\<close> for a negative bit count. The
  code checks the output parameter only: for the bit count \<open>-1\<close> it builds a bitset with
  no slot and returns \<^verbatim>\<open>OK\<close>.
\<close>

theorem bitset_alloc_accepts_negative:
  "ret_of (bitset_alloc 2 (init_state []) (- 1) (Some None)) = Inr OK"
  by (simp add: model_defs)

text \<open>
  C6, as the code has it: \<^verbatim>\<open>bitset_alloc\<close> returns \<^verbatim>\<open>ERRINPUT\<close>, and changes nothing, when
  the output parameter is NULL or already holds a pointer; with a valid output parameter
  it returns \<^verbatim>\<open>OK\<close> or \<^verbatim>\<open>ERRMEM\<close>, whatever the bit count.
\<close>

theorem bitset_alloc_errinput:
  "(bset_out \<noteq> Some None \<longrightarrow> bitset_alloc B st bc bset_out = Inr (ERRINPUT, bset_out, st))
   \<and> (bset_out = Some None \<longrightarrow>
        ret_of (bitset_alloc B st bc bset_out) = Inr OK
        \<or> ret_of (bitset_alloc B st bc bset_out) = Inr ERRMEM)"
proof (intro conjI impI)
  assume "bset_out \<noteq> Some None"
  then show "bitset_alloc B st bc bset_out = Inr (ERRINPUT, bset_out, st)"
    by (simp add: bitset_alloc_def)
next
  assume out: "bset_out = Some None"
  show "ret_of (bitset_alloc B st bc bset_out) = Inr OK
        \<or> ret_of (bitset_alloc B st bc bset_out) = Inr ERRMEM"
  proof (cases "malloc st sizeof_bitset")
    case (Pair r st1)
    show ?thesis
    proof (cases r)
      case None
      with Pair out show ?thesis
        by (simp add: bitset_alloc_def ret_of_def)
    next
      case (Some bset)
      with Pair out show ?thesis
        by (simp add: bitset_alloc_def ret_of_def bitset_init_def get_bitset_def bitset_free_def
            bnd_simps Let_def split: prod.splits option.splits)
    qed
  qed
qed

theorem bitset_alloc_errinput_witness:
  "bitset_alloc 2 (init_state []) (- 1) None = Inr (ERRINPUT, None, init_state [])
   \<and> (ret_of (bitset_alloc 2 (init_state []) (- 1) (Some None)) = Inr OK
      \<or> ret_of (bitset_alloc 2 (init_state []) (- 1) (Some None)) = Inr ERRMEM)"
  using bitset_alloc_errinput [of None 2 "init_state []" "- 1"]
    bitset_alloc_errinput [of "Some None" 2 "init_state []" "- 1"]
  by simp

section \<open>The reference-count invariant\<close>

lemma count_list_update:
  "i < length xs \<Longrightarrow>
   int (count_list (xs[i := v]) x)
     = int (count_list xs x) - (if xs ! i = x then 1 else 0) + (if v = x then 1 else 0)"
proof (induction xs arbitrary: i)
  case Nil
  then show ?case by simp
next
  case (Cons y ys)
  show ?case
  proof (cases i)
    case 0
    then show ?thesis by simp
  next
    case (Suc j)
    with Cons.prems have "j < length ys" by simp
    from Cons.IH [OF this] Suc show ?thesis by (auto split: if_splits)
  qed
qed

lemma refs_extend:
  assumes "\<forall>p. next_ptr st \<le> p \<longrightarrow> bitset_heap st p = None" and "next_ptr st \<le> N"
  shows "refs st q = (\<Sum>p<N. holds (bitset_heap st p) q)"
proof -
  have "(\<Sum>p<N. holds (bitset_heap st p) q) = (\<Sum>p\<in>{..<next_ptr st}. holds (bitset_heap st p) q)"
    using assms by (intro sum.mono_neutral_right) (auto simp: holds_def)
  then show ?thesis by (simp add: refs_def)
qed

lemma refs_update:
  assumes b: "bounded st" and n: "next_ptr st \<le> next_ptr st'"
    and h: "bitset_heap st' = (bitset_heap st)(a := v)" and a: "a < next_ptr st'"
  shows "int (refs st' q) = int (refs st q) - int (holds (bitset_heap st a) q) + int (holds v q)"
proof -
  let ?N = "next_ptr st'"
  let ?f = "\<lambda>p. holds (bitset_heap st p) q"
  let ?g = "\<lambda>p. holds (bitset_heap st' p) q"
  have old: "refs st q = sum ?f {..<?N}"
    using b n by (intro refs_extend) (auto simp: bounded_def)
  have new: "refs st' q = sum ?g {..<?N}"
    by (simp add: refs_def)
  have f: "sum ?f {..<?N} = ?f a + sum ?f ({..<?N} - {a})"
    using a by (intro sum.remove) auto
  have g: "sum ?g {..<?N} = ?g a + sum ?g ({..<?N} - {a})"
    using a by (intro sum.remove) auto
  have rest: "sum ?g ({..<?N} - {a}) = sum ?f ({..<?N} - {a})"
    by (intro sum.cong) (auto simp: h)
  have ga: "?g a = holds v q"
    by (simp add: h)
  show ?thesis
    unfolding old new f g rest ga by simp
qed

lemma refs_same:
  assumes b: "bounded st" and n: "next_ptr st \<le> next_ptr st'"
    and h: "bitset_heap st' = bitset_heap st"
  shows "refs st' q = refs st q"
proof -
  have "refs st q = (\<Sum>p<next_ptr st'. holds (bitset_heap st p) q)"
    using b n by (intro refs_extend) (auto simp: bounded_def)
  then show ?thesis by (simp add: refs_def h)
qed

lemma holds_update:
  assumes "blocks bs = Some xs" and "i < length xs"
  shows "int (holds (Some (bs\<lparr>blocks := Some (xs[i := v])\<rparr>)) q)
       = int (holds (Some bs) q) - (if xs ! i = Some q then 1 else 0) + (if v = Some q then 1 else 0)"
  using assms by (simp add: holds_def count_list_update)

lemma holds_pos:
  assumes "blocks bs = Some xs" and "i < length xs" and "xs ! i = Some q"
  shows "0 < holds (Some bs) q"
proof -
  from assms have "Some q \<in> set xs" by (metis nth_mem)
  then have "count_list xs (Some q) \<noteq> 0" by (simp add: count_list_0_iff)
  then show ?thesis using assms by (simp add: holds_def)
qed

lemma refs_pos:
  assumes "bitset_heap st a = Some bs" and "a < next_ptr st" and "0 < holds (Some bs) q"
  shows "0 < refs st q"
proof -
  have "holds (bitset_heap st a) q \<le> refs st q"
    unfolding refs_def using assms(2) by (intro member_le_sum) auto
  with assms show ?thesis by simp
qed

subsection \<open>What the memory primitives do\<close>

lemma malloc_cases:
  assumes "malloc st sz = (r, st')"
  shows "block_heap st' = block_heap st \<and> bitset_heap st' = bitset_heap st
       \<and> block_allocs st' = block_allocs st \<and> block_mem st' = block_mem st
       \<and> (case r of None \<Rightarrow> next_ptr st' = next_ptr st
           | Some p \<Rightarrow> p = next_ptr st \<and> next_ptr st' = Suc p)"
  using assms by (auto simp: malloc_def split: if_splits list.splits)

lemma block_new_cases:
  assumes "bitset_block_new B st = (ret, r, st')"
  shows "bitset_heap st' = bitset_heap st
       \<and> (ret = ERRMEM \<and> r = None \<and> block_heap st' = block_heap st \<and> next_ptr st' = next_ptr st
            \<and> block_allocs st' = block_allocs st
          \<or> ret = OK \<and> r = Some (next_ptr st) \<and> next_ptr st' = Suc (next_ptr st)
            \<and> block_heap st' = (block_heap st)(next_ptr st \<mapsto> \<lparr>ref_count = 0, set_count = 0, ints = replicate B 0\<rparr>))"
proof (cases "malloc st (sizeof_block B)")
  case (Pair m st1)
  from malloc_cases [OF Pair] Pair assms show ?thesis
    by (cases m) (auto simp: bitset_block_new_def)
qed

lemma set_slot_cases:
  assumes "set_slot st a i v = Inr st'"
  shows "\<exists>bs xs. bitset_heap st a = Some bs \<and> blocks bs = Some xs \<and> 0 \<le> i \<and> nat i < length xs
       \<and> bitset_heap st' = (bitset_heap st)(a \<mapsto> bs\<lparr>blocks := Some (xs[nat i := v])\<rparr>)
       \<and> block_heap st' = block_heap st \<and> next_ptr st' = next_ptr st
       \<and> malloc_plan st' = malloc_plan st \<and> block_allocs st' = block_allocs st"
  using assms by (auto simp: set_slot_def split: option.splits if_splits)

lemma get_slot_cases:
  assumes "get_slot st a i = Inr v"
  shows "\<exists>bs xs. bitset_heap st a = Some bs \<and> blocks bs = Some xs \<and> 0 \<le> i \<and> nat i < length xs
       \<and> v = xs ! nat i"
  using assms by (auto simp: get_slot_def split: option.splits if_splits)

lemma get_block_cases: "get_block st q = Inr b \<longleftrightarrow> block_heap st q = Some b"
  by (simp add: get_block_def split: option.splits)

lemma get_bitset_cases: "get_bitset st a = Inr bs \<longleftrightarrow> (\<exists>p. a = Some p \<and> bitset_heap st p = Some bs)"
  by (auto simp: get_bitset_def split: option.splits)

lemma incref_cases:
  assumes "bitset_block_incref st q = Inr st'"
  shows "\<exists>b. block_heap st q = Some b \<and> bitset_heap st' = bitset_heap st \<and> next_ptr st' = next_ptr st
       \<and> malloc_plan st' = malloc_plan st \<and> block_allocs st' = block_allocs st
       \<and> block_heap st' = (block_heap st)(q \<mapsto> b\<lparr>ref_count := ref_count b + 1\<rparr>)"
  using assms by (auto simp: bitset_block_incref_def bnd_Inr_iff get_block_cases put_block_def)

lemma decref_cases:
  assumes "bitset_block_decref st q = Inr st'"
  shows "\<exists>b. block_heap st q = Some b \<and> bitset_heap st' = bitset_heap st \<and> next_ptr st' = next_ptr st
       \<and> malloc_plan st' = malloc_plan st \<and> block_allocs st' = block_allocs st
       \<and> block_heap st' = (block_heap st)(q := if ref_count b = 1 then None
                                                 else Some (b\<lparr>ref_count := ref_count b - 1\<rparr>))"
proof (cases "block_heap st q")
  case None
  with assms show ?thesis
    by (simp add: bitset_block_decref_def get_block_def bnd_simps)
next
  case (Some b)
  show ?thesis
  proof (cases "ref_count b = 1")
    case True
    with assms Some have "st' = st\<lparr>block_heap := (block_heap st)(q := None)\<rparr>"
      by (simp add: bitset_block_decref_def get_block_def bnd_simps)
    with Some True show ?thesis by simp
  next
    case False
    with assms Some have "st' = put_block st q (b\<lparr>ref_count := ref_count b - 1\<rparr>)"
      by (simp add: bitset_block_decref_def get_block_def bnd_simps)
    with Some False show ?thesis by (simp add: put_block_def)
  qed
qed

lemma block_alloc_cases:
  assumes "bitset_block_alloc B st a i = Inr (ret, r, st')"
  shows "ret = ERRMEM \<and> r = None \<and> block_heap st' = block_heap st \<and> bitset_heap st' = bitset_heap st
           \<and> next_ptr st' = next_ptr st
       \<or> ret = OK \<and> r = Some (next_ptr st) \<and> next_ptr st' = Suc (next_ptr st)
           \<and> block_heap st' = (block_heap st)(next_ptr st \<mapsto> \<lparr>ref_count = 1, set_count = 0, ints = replicate B 0\<rparr>)
           \<and> (\<exists>bs xs. bitset_heap st a = Some bs \<and> blocks bs = Some xs \<and> 0 \<le> i \<and> nat i < length xs
                \<and> xs ! nat i = None
                \<and> bitset_heap st' = (bitset_heap st)(a \<mapsto> bs\<lparr>blocks := Some (xs[nat i := Some (next_ptr st)])\<rparr>))"
proof (cases "bitset_block_new B st")
  case (fields ret0 r0 st1)
  note n = block_new_cases [OF fields]
  show ?thesis
  proof (cases "ret0 = OK")
    case False
    with n fields assms show ?thesis
      by (cases ret0) (auto simp: bitset_block_alloc_def)
  next
    case True
    let ?q = "next_ptr st"
    let ?st2 = "put_block st1 ?q \<lparr>ref_count = 1, set_count = 0, ints = replicate B 0\<rparr>"
    from n True have r0: "r0 = Some ?q" by auto
    from assms have "bnd (get_slot ?st2 a i) (\<lambda>old.
           bnd (assert (old = None)) (\<lambda>_.
           bnd (set_slot ?st2 a i (Some ?q)) (\<lambda>st3.
           Inr (OK, Some ?q, st3)))) = Inr (ret, r, st')"
      by (simp add: bitset_block_alloc_def fields True r0 Let_def)
    then have g: "get_slot ?st2 a i = Inr None"
      and s: "set_slot ?st2 a i (Some ?q) = Inr st'"
      and r: "ret = OK" "r = Some ?q"
      by (auto simp: bnd_Inr_iff assert_Inr_iff)
    from get_slot_cases [OF g] set_slot_cases [OF s] n True r show ?thesis
      by (auto simp: put_block_def)
  qed
qed


lemma block_realloc_cases:
  assumes "bitset_block_realloc B st a i = Inr (ret, r, st')" and "bounded st"
  shows "\<exists>bs xs orig ob.
           bitset_heap st a = Some bs \<and> blocks bs = Some xs \<and> 0 \<le> i \<and> nat i < length xs
         \<and> xs ! nat i = Some orig \<and> block_heap st orig = Some ob \<and> 1 < ref_count ob
         \<and> (ret = ERRMEM \<and> r = None \<and> next_ptr st' = next_ptr st
              \<and> block_heap st' = (block_heap st)(orig \<mapsto> ob\<lparr>ref_count := ref_count ob - 1\<rparr>)
              \<and> bitset_heap st' = (bitset_heap st)(a \<mapsto> bs\<lparr>blocks := Some (xs[nat i := None])\<rparr>)
            \<or> ret = OK \<and> r = Some (next_ptr st) \<and> next_ptr st' = Suc (next_ptr st)
              \<and> block_heap st' = (block_heap st)
                   (orig \<mapsto> ob\<lparr>ref_count := ref_count ob - 1\<rparr>,
                    next_ptr st \<mapsto> \<lparr>ref_count = 1, set_count = set_count ob, ints = ints ob\<rparr>)
              \<and> bitset_heap st' = (bitset_heap st)(a \<mapsto> bs\<lparr>blocks := Some (xs[nat i := Some (next_ptr st)])\<rparr>))"
proof -
  from assms(1) obtain slot where g: "get_slot st a i = Inr slot"
    by (auto simp: bitset_block_realloc_def bnd_Inr_iff)
  with assms(1) obtain orig where slot: "slot = Some orig"
    by (cases slot) (auto simp: bitset_block_realloc_def bnd_simps)
  from get_slot_cases [OF g] slot obtain bs xs where
    bs: "bitset_heap st a = Some bs" "blocks bs = Some xs" "0 \<le> i" "nat i < length xs"
       "xs ! nat i = Some orig"
    by auto
  from assms(1) g slot have
    "\<exists>ob st1 st2. block_heap st orig = Some ob \<and> 1 < ref_count ob
       \<and> bitset_block_decref st orig = Inr st1 \<and> set_slot st1 a i None = Inr st2
       \<and> (case bitset_block_new B st2 of
            (OK, Some blk, st3) \<Rightarrow>
              bnd (get_block st3 orig) (\<lambda>ob'.
              bnd (set_slot st3 a i (Some blk)) (\<lambda>st4.
              Inr (OK, Some blk,
                   put_block st4 blk \<lparr>ref_count = 1, set_count = set_count ob', ints = ints ob'\<rparr>)))
          | (ret, _, st3) \<Rightarrow> Inr (ret, None, st3)) = Inr (ret, r, st')"
    by (simp add: bitset_block_realloc_def bnd_simps bnd_Inr_iff assert_Inr_iff get_block_cases)
  then obtain ob st1 st2 where ob: "block_heap st orig = Some ob" "1 < ref_count ob"
    and d: "bitset_block_decref st orig = Inr st1" and s: "set_slot st1 a i None = Inr st2"
    and rest: "(case bitset_block_new B st2 of
            (OK, Some blk, st3) \<Rightarrow>
              bnd (get_block st3 orig) (\<lambda>ob'.
              bnd (set_slot st3 a i (Some blk)) (\<lambda>st4.
              Inr (OK, Some blk,
                   put_block st4 blk \<lparr>ref_count = 1, set_count = set_count ob', ints = ints ob'\<rparr>)))
          | (ret, _, st3) \<Rightarrow> Inr (ret, None, st3)) = Inr (ret, r, st')"
    by blast
  from decref_cases [OF d] ob have st1:
    "bitset_heap st1 = bitset_heap st" "next_ptr st1 = next_ptr st"
    "block_heap st1 = (block_heap st)(orig \<mapsto> ob\<lparr>ref_count := ref_count ob - 1\<rparr>)"
    by auto
  from set_slot_cases [OF s] st1 bs have st2:
    "bitset_heap st2 = (bitset_heap st)(a \<mapsto> bs\<lparr>blocks := Some (xs[nat i := None])\<rparr>)"
    "next_ptr st2 = next_ptr st"
    "block_heap st2 = (block_heap st)(orig \<mapsto> ob\<lparr>ref_count := ref_count ob - 1\<rparr>)"
    by auto
  from assms(2) ob have fresh: "orig \<noteq> next_ptr st"
    by (auto simp: bounded_def)
  obtain ret0 r0 st3 where new: "bitset_block_new B st2 = (ret0, r0, st3)"
    by (cases "bitset_block_new B st2") auto
  note n = block_new_cases [OF new]
  show ?thesis
  proof (cases "ret0 = OK")
    case False
    with n new rest have "ret = ERRMEM" "r = None" "st' = st3"
      by (cases ret0; auto)+
    with n False st2 bs ob show ?thesis by auto
  next
    case True
    with n st2 have r0: "r0 = Some (next_ptr st)" by auto
    from True n st2 fresh have ob': "get_block st3 orig = Inr (ob\<lparr>ref_count := ref_count ob - 1\<rparr>)"
      by (auto simp: get_block_cases)
    from rest new True r0 ob' obtain st4 where
      s4: "set_slot st3 a i (Some (next_ptr st)) = Inr st4"
      and res: "ret = OK" "r = Some (next_ptr st)"
        "st' = put_block st4 (next_ptr st) \<lparr>ref_count = 1, set_count = set_count ob, ints = ints ob\<rparr>"
      by (auto simp: bnd_simps bnd_Inr_iff)
    from set_slot_cases [OF s4] n True st2 res bs ob show ?thesis
      by (auto simp: put_block_def)
  qed
qed

subsection \<open>Steps that keep the invariant\<close>

lemma heap_inv_step:
  assumes inv: "heap_inv st" and n: "next_ptr st \<le> next_ptr st'"
    and h: "bitset_heap st' = (bitset_heap st)(a := v)" and a: "a < next_ptr st'"
    and shape: "\<And>bs xs. v = Some bs \<Longrightarrow> blocks bs = Some xs \<Longrightarrow> length xs = nat (block_count bs)"
    and top: "\<And>q. next_ptr st' \<le> q \<Longrightarrow> block_heap st' q = None"
    and bal: "\<And>q. rc st' q = rc st q - int (holds (bitset_heap st a) q) + int (holds v q)"
  shows "heap_inv st'"
proof -
  from inv have b: "bounded st" and s: "shaped st" and c: "counted st"
    by (simp_all add: heap_inv_def)
  have "bounded st'"
    using b n a top by (auto simp: bounded_def h)
  moreover have "shaped st'"
    using s shape by (auto simp: shaped_def h)
  moreover have "counted st'"
    unfolding counted_def
  proof
    fix q
    from c have "rc st q = int (refs st q)" by (simp add: counted_def)
    with bal [of q] refs_update [OF b n h a, of q] show "rc st' q = int (refs st' q)" by simp
  qed
  ultimately show ?thesis by (simp add: heap_inv_def)
qed

lemma heap_inv_step_same:
  assumes inv: "heap_inv st" and n: "next_ptr st \<le> next_ptr st'"
    and h: "bitset_heap st' = bitset_heap st"
    and top: "\<And>q. next_ptr st' \<le> q \<Longrightarrow> block_heap st' q = None"
    and bal: "\<And>q. rc st' q = rc st q"
  shows "heap_inv st'"
proof -
  from inv have b: "bounded st" and s: "shaped st" and c: "counted st"
    by (simp_all add: heap_inv_def)
  have "bounded st'"
    using b n top by (auto simp: bounded_def h)
  moreover have "shaped st'"
    using s by (auto simp: shaped_def h)
  moreover have "counted st'"
    using c bal refs_same [OF b n h] by (simp add: counted_def)
  ultimately show ?thesis by (simp add: heap_inv_def)
qed

lemma heap_inv_boundedD: "heap_inv st \<Longrightarrow> bounded st"
  by (simp add: heap_inv_def)

lemma bounded_bitset: "bounded st \<Longrightarrow> bitset_heap st a = Some bs \<Longrightarrow> a < next_ptr st"
  by (metis bounded_def not_le_imp_less option.distinct(1))

lemma bounded_block: "bounded st \<Longrightarrow> block_heap st q = Some b \<Longrightarrow> q < next_ptr st"
  by (metis bounded_def not_le_imp_less option.distinct(1))

lemma shapedD: "heap_inv st \<Longrightarrow> bitset_heap st a = Some bs \<Longrightarrow> blocks bs = Some xs \<Longrightarrow> length xs = nat (block_count bs)"
  by (auto simp: heap_inv_def shaped_def)

lemma rc_fresh: "bounded st \<Longrightarrow> rc st (next_ptr st) = 0"
  by (simp add: rc_def bounded_def)

text \<open>A slot that holds \<open>q\<close> makes \<open>q\<close> a live block with a positive count.\<close>

lemma held_block_live:
  assumes inv: "heap_inv st" and bs: "bitset_heap st a = Some bs" "blocks bs = Some xs"
    and i: "i < length xs" "xs ! i = Some q"
  shows "\<exists>b. block_heap st q = Some b \<and> ref_count b = int (refs st q) \<and> 0 < ref_count b"
proof -
  from inv have b: "bounded st" and c: "counted st" by (simp_all add: heap_inv_def)
  from refs_pos [OF bs(1) bounded_bitset [OF b bs(1)] holds_pos [OF bs(2) i]]
  have pos: "0 < refs st q" .
  from c have "rc st q = int (refs st q)" by (simp add: counted_def)
  with pos show ?thesis by (cases "block_heap st q") (simp_all add: rc_def)
qed

lemma slot_change_inv:
  assumes inv: "heap_inv st" and n: "next_ptr st \<le> next_ptr st'"
    and bs: "bitset_heap st a = Some bs" "blocks bs = Some xs" "i < length xs"
    and h: "bitset_heap st' = (bitset_heap st)(a \<mapsto> bs\<lparr>blocks := Some (xs[i := v])\<rparr>)"
    and top: "\<And>q. next_ptr st' \<le> q \<Longrightarrow> block_heap st' q = None"
    and bal: "\<And>q. rc st' q = rc st q - (if xs ! i = Some q then 1 else 0) + (if v = Some q then 1 else 0)"
  shows "heap_inv st'"
proof (rule heap_inv_step [OF inv n h])
  show "a < next_ptr st'"
    using bounded_bitset [OF heap_inv_boundedD [OF inv] bs(1)] n by simp
  show "length ys = nat (block_count bs')"
    if "Some (bs\<lparr>blocks := Some (xs[i := v])\<rparr>) = Some bs'" "blocks bs' = Some ys" for bs' ys
    using that shapedD [OF inv bs(1,2)] by auto
  show "block_heap st' q = None" if "next_ptr st' \<le> q" for q
    using that by (rule top)
  show "rc st' q = rc st q - int (holds (bitset_heap st a) q)
          + int (holds (Some (bs\<lparr>blocks := Some (xs[i := v])\<rparr>)) q)" for q
    using bal [of q] bs by (simp add: holds_update)
qed

lemma block_alloc_inv:
  assumes inv: "heap_inv st" and r: "bitset_block_alloc B st a i = Inr (ret, r, st')"
  shows "heap_inv st'"
proof -
  note b = heap_inv_boundedD [OF inv]
  from block_alloc_cases [OF r] show ?thesis
  proof (elim disjE conjE exE)
    assume "block_heap st' = block_heap st" "bitset_heap st' = bitset_heap st"
      "next_ptr st' = next_ptr st"
    with inv b show ?thesis
      by (intro heap_inv_step_same [OF inv]) (auto simp: rc_def bounded_def)
  next
    fix bs xs
    assume n: "next_ptr st' = Suc (next_ptr st)"
      and bh: "block_heap st' = (block_heap st)(next_ptr st \<mapsto> \<lparr>ref_count = 1, set_count = 0, ints = replicate B 0\<rparr>)"
      and bs: "bitset_heap st a = Some bs" "blocks bs = Some xs" "nat i < length xs" "xs ! nat i = None"
      and h: "bitset_heap st' = (bitset_heap st)(a \<mapsto> bs\<lparr>blocks := Some (xs[nat i := Some (next_ptr st)])\<rparr>)"
    show ?thesis
    proof (rule slot_change_inv [OF inv _ bs(1,2,3) h])
      show "next_ptr st \<le> next_ptr st'" using n by simp
      show "block_heap st' q = None" if "next_ptr st' \<le> q" for q
        using that b n by (auto simp: bh bounded_def)
      show "rc st' q = rc st q - (if xs ! nat i = Some q then 1 else 0)
              + (if Some (next_ptr st) = Some q then 1 else 0)" for q
        using rc_fresh [OF b] bs by (auto simp: rc_def bh)
    qed
  qed
qed

lemma block_realloc_inv:
  assumes inv: "heap_inv st" and r: "bitset_block_realloc B st a i = Inr (ret, r, st')"
  shows "heap_inv st'"
proof -
  note b = heap_inv_boundedD [OF inv]
  from block_realloc_cases [OF r b] obtain bs xs orig ob where
    bs: "bitset_heap st a = Some bs" "blocks bs = Some xs" "nat i < length xs"
      "xs ! nat i = Some orig" "block_heap st orig = Some ob"
    and alt: "ret = ERRMEM \<and> r = None \<and> next_ptr st' = next_ptr st
              \<and> block_heap st' = (block_heap st)(orig \<mapsto> ob\<lparr>ref_count := ref_count ob - 1\<rparr>)
              \<and> bitset_heap st' = (bitset_heap st)(a \<mapsto> bs\<lparr>blocks := Some (xs[nat i := None])\<rparr>)
            \<or> ret = OK \<and> r = Some (next_ptr st) \<and> next_ptr st' = Suc (next_ptr st)
              \<and> block_heap st' = (block_heap st)
                   (orig \<mapsto> ob\<lparr>ref_count := ref_count ob - 1\<rparr>,
                    next_ptr st \<mapsto> \<lparr>ref_count = 1, set_count = set_count ob, ints = ints ob\<rparr>)
              \<and> bitset_heap st' = (bitset_heap st)(a \<mapsto> bs\<lparr>blocks := Some (xs[nat i := Some (next_ptr st)])\<rparr>)"
    by blast
  from bounded_block [OF b bs(5)] have fresh: "orig \<noteq> next_ptr st" by simp
  from alt show ?thesis
  proof (elim disjE conjE)
    assume n: "next_ptr st' = next_ptr st"
      and bh: "block_heap st' = (block_heap st)(orig \<mapsto> ob\<lparr>ref_count := ref_count ob - 1\<rparr>)"
      and h: "bitset_heap st' = (bitset_heap st)(a \<mapsto> bs\<lparr>blocks := Some (xs[nat i := None])\<rparr>)"
    show ?thesis
    proof (rule slot_change_inv [OF inv _ bs(1,2,3) h])
      show "next_ptr st \<le> next_ptr st'" using n by simp
      show "block_heap st' q = None" if "next_ptr st' \<le> q" for q
        using that b n bounded_block [OF b bs(5)] by (auto simp: bh bounded_def)
      show "rc st' q = rc st q - (if xs ! nat i = Some q then 1 else 0)
              + (if None = Some q then 1 else 0)" for q
        using bs by (auto simp: rc_def bh)
    qed
  next
    assume n: "next_ptr st' = Suc (next_ptr st)"
      and bh: "block_heap st' = (block_heap st)
                   (orig \<mapsto> ob\<lparr>ref_count := ref_count ob - 1\<rparr>,
                    next_ptr st \<mapsto> \<lparr>ref_count = 1, set_count = set_count ob, ints = ints ob\<rparr>)"
      and h: "bitset_heap st' = (bitset_heap st)(a \<mapsto> bs\<lparr>blocks := Some (xs[nat i := Some (next_ptr st)])\<rparr>)"
    show ?thesis
    proof (rule slot_change_inv [OF inv _ bs(1,2,3) h])
      show "next_ptr st \<le> next_ptr st'" using n by simp
      show "block_heap st' q = None" if "next_ptr st' \<le> q" for q
        using that b n bounded_block [OF b bs(5)] by (auto simp: bh bounded_def)
      show "rc st' q = rc st q - (if xs ! nat i = Some q then 1 else 0)
              + (if Some (next_ptr st) = Some q then 1 else 0)" for q
        using rc_fresh [OF b] bs fresh by (auto simp: rc_def bh)
    qed
  qed
qed

lemma put_block_inv:
  assumes inv: "heap_inv st" and q: "block_heap st q = Some b" and r: "ref_count b' = ref_count b"
  shows "heap_inv (put_block st q b')"
proof (rule heap_inv_step_same [OF inv])
  show "block_heap (put_block st q b') p = None" if "next_ptr (put_block st q b') \<le> p" for p
    using that bounded_block [OF heap_inv_boundedD [OF inv] q] heap_inv_boundedD [OF inv]
    by (auto simp: put_block_def bounded_def)
  show "rc (put_block st q b') p = rc st p" for p
    using q r by (simp add: rc_def put_block_def)
qed (simp_all add: put_block_def)

text \<open>Releasing the block of a slot and clearing the slot (\<^verbatim>\<open>bitset_and\<close>, \<^verbatim>\<open>bitset_invert\<close>).\<close>

lemma drop_slot_inv:
  assumes inv: "heap_inv st" and g: "get_slot st a i = Inr (Some p)"
    and d: "bitset_block_decref st p = Inr st1" and s: "set_slot st1 a i None = Inr st2"
  shows "heap_inv st2"
proof -
  note b = heap_inv_boundedD [OF inv]
  from get_slot_cases [OF g] obtain bs xs where
    bs: "bitset_heap st a = Some bs" "blocks bs = Some xs" "nat i < length xs" "xs ! nat i = Some p"
    by auto
  from decref_cases [OF d] obtain pb where pb: "block_heap st p = Some pb"
    and st1: "bitset_heap st1 = bitset_heap st" "next_ptr st1 = next_ptr st"
      "block_heap st1 = (block_heap st)(p := if ref_count pb = 1 then None
                                               else Some (pb\<lparr>ref_count := ref_count pb - 1\<rparr>))"
    by blast
  from set_slot_cases [OF s] st1 bs have st2:
    "bitset_heap st2 = (bitset_heap st)(a \<mapsto> bs\<lparr>blocks := Some (xs[nat i := None])\<rparr>)"
    "next_ptr st2 = next_ptr st" "block_heap st2 = block_heap st1"
    by auto
  show ?thesis
  proof (rule slot_change_inv [OF inv _ bs(1,2,3) st2(1)])
    show "next_ptr st \<le> next_ptr st2" using st2 by simp
    show "block_heap st2 q = None" if "next_ptr st2 \<le> q" for q
      using that b bounded_block [OF b pb] by (auto simp: st2 st1 bounded_def)
    show "rc st2 q = rc st q - (if xs ! nat i = Some q then 1 else 0)
            + (if None = Some q then 1 else 0)" for q
      using bs pb by (auto simp: rc_def st2 st1)
  qed
qed

text \<open>Sharing the block of \<open>b\<close> into an empty slot of \<open>a\<close> (\<^verbatim>\<open>bitset_or\<close>).\<close>

lemma share_slot_inv:
  assumes inv: "heap_inv st" and g: "get_slot st a i = Inr None"
    and s: "set_slot st a i (Some q) = Inr st1" and d: "bitset_block_incref st1 q = Inr st2"
  shows "heap_inv st2"
proof -
  note b = heap_inv_boundedD [OF inv]
  from get_slot_cases [OF g] obtain bs xs where
    bs: "bitset_heap st a = Some bs" "blocks bs = Some xs" "nat i < length xs" "xs ! nat i = None"
    by auto
  from set_slot_cases [OF s] bs have st1:
    "bitset_heap st1 = (bitset_heap st)(a \<mapsto> bs\<lparr>blocks := Some (xs[nat i := Some q])\<rparr>)"
    "next_ptr st1 = next_ptr st" "block_heap st1 = block_heap st"
    by auto
  from incref_cases [OF d] st1 obtain qb where qb: "block_heap st q = Some qb"
    and st2: "bitset_heap st2 = bitset_heap st1" "next_ptr st2 = next_ptr st"
      "block_heap st2 = (block_heap st)(q \<mapsto> qb\<lparr>ref_count := ref_count qb + 1\<rparr>)"
    by auto
  show ?thesis
  proof (rule slot_change_inv [OF inv _ bs(1,2,3)])
    show "bitset_heap st2 = (bitset_heap st)(a \<mapsto> bs\<lparr>blocks := Some (xs[nat i := Some q])\<rparr>)"
      using st1 st2 by simp
    show "next_ptr st \<le> next_ptr st2" using st2 by simp
    show "block_heap st2 p = None" if "next_ptr st2 \<le> p" for p
      using that b bounded_block [OF b qb] by (auto simp: st2 bounded_def)
    show "rc st2 p = rc st p - (if xs ! nat i = Some p then 1 else 0)
            + (if Some q = Some p then 1 else 0)" for p
      using bs qb by (auto simp: rc_def st2)
  qed
qed

lemma postD: "post m Q \<Longrightarrow> m = Inr x \<Longrightarrow> Q x"
  by (simp add: post_def)

lemma post_bndI: "(\<And>x. m = Inr x \<Longrightarrow> post (f x) Q) \<Longrightarrow> post (bnd m f) Q"
  by (cases m) (simp_all add: post_def bnd_def)

lemma post_InrI: "Q x \<Longrightarrow> post (Inr x) Q"
  by (simp add: post_def)

lemma post_InlI: "post (Inl e) Q"
  by (simp add: post_def)

lemma post_ifI: "(c \<Longrightarrow> post m Q) \<Longrightarrow> (\<not> c \<Longrightarrow> post n Q) \<Longrightarrow> post (if c then m else n) Q"
  by simp

lemma post_optionI:
  "(x = None \<Longrightarrow> post m Q) \<Longrightarrow> (\<And>y. x = Some y \<Longrightarrow> post (f y) Q)
   \<Longrightarrow> post (case x of None \<Rightarrow> m | Some y \<Rightarrow> f y) Q"
  by (cases x) simp_all

lemma post_prodI: "(\<And>a b. x = (a, b) \<Longrightarrow> post (f a b) Q) \<Longrightarrow> post (case x of (a, b) \<Rightarrow> f a b) Q"
  by (cases x) simp

lemmas post_intros = post_bndI post_InrI post_InlI post_ifI post_optionI post_prodI

lemma set_bit_rc: "bitset_block_set_bit b x = Inr b' \<Longrightarrow> ref_count b' = ref_count b"
  by (auto simp: bitset_block_set_bit_def Let_def split: if_splits)

lemma clr_bit_rc: "bitset_block_clr_bit b x = Inr b' \<Longrightarrow> ref_count b' = ref_count b"
  by (auto simp: bitset_block_clr_bit_def Let_def split: if_splits)

lemma toggle_bit_rc: "bitset_block_toggle_bit b x = Inr b' \<Longrightarrow> ref_count b' = ref_count b"
  by (auto simp: bitset_block_toggle_bit_def Let_def split: if_splits)

lemma word_loop_rc: "word_loop B f x y = Inr x' \<Longrightarrow> ref_count x' = ref_count x"
  by (auto simp: word_loop_def Let_def split: if_splits)

lemma block_or_rc: "bitset_block_or B x y = Inr x' \<Longrightarrow> ref_count x' = ref_count x"
  by (auto simp: bitset_block_or_def bnd_Inr_iff dest: word_loop_rc)

lemma block_and_rc: "bitset_block_and B x y = Inr x' \<Longrightarrow> ref_count x' = ref_count x"
  by (auto simp: bitset_block_and_def bnd_Inr_iff dest: word_loop_rc)

lemma block_subtract_rc: "bitset_block_subtract B x y = Inr x' \<Longrightarrow> ref_count x' = ref_count x"
  by (auto simp: bitset_block_subtract_def bnd_Inr_iff dest: word_loop_rc)

lemma block_invert_rc: "bitset_block_invert B x = Inr x' \<Longrightarrow> ref_count x' = ref_count x"
  by (auto simp: bitset_block_invert_def bnd_Inr_iff split: if_splits)

lemma put_block_inv':
  "heap_inv st \<Longrightarrow> get_block st q = Inr b \<Longrightarrow> ref_count b' = ref_count b \<Longrightarrow> heap_inv (put_block st q b')"
  by (simp add: get_block_cases put_block_inv)

lemma cow_choice_inv:
  assumes "heap_inv st"
    and "(if c then bitset_block_realloc B st a i else Inr (OK, Some p, st)) = Inr (ret, r, st1)"
  shows "heap_inv st1"
  using assms by (auto split: if_splits intro: block_realloc_inv)

lemma bitset_set_post:
  assumes inv: "heap_inv st"
  shows "post (bitset_set B st a bt) (\<lambda>(ret, st'). heap_inv st')"
  unfolding bitset_set_def Let_def
  apply (intro post_intros)
  apply (auto intro: inv put_block_inv' [OF block_alloc_inv [OF inv] _ set_bit_rc]
      block_alloc_inv [OF inv] put_block_inv' [OF cow_choice_inv [OF inv] _ set_bit_rc] cow_choice_inv [OF inv])
  done

lemma bitset_clr_post:
  assumes inv: "heap_inv st"
  shows "post (bitset_clr B st a bt) (\<lambda>(ret, st'). heap_inv st')"
  unfolding bitset_clr_def Let_def
  apply (intro post_intros)
  apply (auto intro: inv put_block_inv' [OF cow_choice_inv [OF inv] _ clr_bit_rc] cow_choice_inv [OF inv])
  done

lemma toggle_choice_inv:
  assumes "heap_inv st"
    and "(case slot of
            None \<Rightarrow> bitset_block_alloc B st a i
          | Some p \<Rightarrow>
              bnd (get_block st p) (\<lambda>pb.
                if ref_count pb > 1 then bitset_block_realloc B st a i
                else Inr (OK, Some p, st))) = Inr (ret, r, st1)"
  shows "heap_inv st1"
  using assms
  by (auto simp: bnd_Inr_iff split: option.splits if_splits intro: block_realloc_inv block_alloc_inv)

lemma bitset_toggle_bit_post:
  assumes inv: "heap_inv st"
  shows "post (bitset_toggle_bit B st a bt) (\<lambda>(ret, st'). heap_inv st')"
  unfolding bitset_toggle_bit_def Let_def
  apply (intro post_intros)
  apply (auto intro: inv put_block_inv' [OF toggle_choice_inv [OF inv] _ toggle_bit_rc] toggle_choice_inv [OF inv])
  done

lemma block_new_inv:
  assumes inv: "heap_inv st" and r: "bitset_block_new B st = (ret, r, st1)"
  shows "heap_inv st1"
proof -
  note b = heap_inv_boundedD [OF inv]
  from block_new_cases [OF r] show ?thesis
    using b by (intro heap_inv_step_same [OF inv]) (auto simp: rc_def bounded_def)
qed

text \<open>A new block with reference count 1 is stored in an empty slot.\<close>

lemma install_inv:
  assumes inv: "heap_inv st" and g: "get_slot st a i = Inr None"
    and new: "bitset_block_new B st = (OK, Some blk, st1)"
    and s: "set_slot (put_block st1 blk nb) a i (Some blk) = Inr st2"
    and nb: "ref_count nb = 1"
  shows "heap_inv st2"
proof -
  note b = heap_inv_boundedD [OF inv]
  from get_slot_cases [OF g] obtain bs xs where
    bs: "bitset_heap st a = Some bs" "blocks bs = Some xs" "nat i < length xs" "xs ! nat i = None"
    by auto
  from block_new_cases [OF new] have st1: "bitset_heap st1 = bitset_heap st"
    "blk = next_ptr st" "next_ptr st1 = Suc (next_ptr st)"
    "block_heap st1 = (block_heap st)(next_ptr st \<mapsto> \<lparr>ref_count = 0, set_count = 0, ints = replicate B 0\<rparr>)"
    by auto
  from set_slot_cases [OF s] st1 bs have st2:
    "bitset_heap st2 = (bitset_heap st)(a \<mapsto> bs\<lparr>blocks := Some (xs[nat i := Some blk])\<rparr>)"
    "next_ptr st2 = Suc (next_ptr st)" "block_heap st2 = (block_heap st)(blk \<mapsto> nb)"
    by (auto simp: put_block_def)
  show ?thesis
  proof (rule slot_change_inv [OF inv _ bs(1,2,3) st2(1)])
    show "next_ptr st \<le> next_ptr st2" using st2 by simp
    show "block_heap st2 q = None" if "next_ptr st2 \<le> q" for q
      using that b by (auto simp: st2 st1 bounded_def)
    show "rc st2 q = rc st q - (if xs ! nat i = Some q then 1 else 0)
            + (if Some blk = Some q then 1 else 0)" for q
      using rc_fresh [OF b] bs nb by (auto simp: rc_def st2 st1)
  qed
qed

lemma invert_slot_post:
  assumes inv: "heap_inv st"
  shows "post (invert_slot B st a i) (\<lambda>(ret, st'). heap_inv st')"
  unfolding invert_slot_def
  apply (intro post_intros)
     apply (auto split: prod.splits retcode.splits option.splits
      intro: inv block_new_inv [OF inv] install_inv [OF inv] drop_slot_inv [OF inv]
        put_block_inv' [OF inv _ block_invert_rc] intro!: post_intros)
  done

lemma cow_then_post:
  assumes inv: "heap_inv st" and F: "\<And>x y x'. f B x y = Inr x' \<Longrightarrow> ref_count x' = ref_count x"
  shows "post (cow_then B f st a b i p) (\<lambda>(ret, st'). heap_inv st')"
proof -
  have 1: "heap_inv st1"
    if "(if c then bnd (bitset_block_realloc B st a (int i)) (\<lambda>(ret, _, st1). Inr (ret, st1))
         else Inr (OK, st)) = Inr (ret, st1)" for c ret st1
    using that inv by (auto simp: bnd_Inr_iff split: if_splits intro: block_realloc_inv)
  show ?thesis
    unfolding cow_then_def
    apply (intro post_intros)
     apply (auto intro: 1 put_block_inv' [OF 1 _ F])
    done
qed

lemma or_slot_post:
  assumes inv: "heap_inv st"
  shows "post (or_slot B st a b i) (\<lambda>(ret, st'). heap_inv st')"
  unfolding or_slot_def
  apply (intro post_intros)
       apply (auto intro: inv share_slot_inv [OF inv] cow_then_post [OF inv block_or_rc])
  done

lemma and_slot_post:
  assumes inv: "heap_inv st"
  shows "post (and_slot B st a b i) (\<lambda>(ret, st'). heap_inv st')"
  unfolding and_slot_def
  apply (intro post_intros)
       apply (auto intro: inv drop_slot_inv [OF inv] cow_then_post [OF inv block_and_rc])
  done

lemma subtract_slot_post:
  assumes inv: "heap_inv st"
  shows "post (subtract_slot B st a b i) (\<lambda>(ret, st'). heap_inv st')"
  unfolding subtract_slot_def
  apply (intro post_intros)
       apply (auto intro: inv cow_then_post [OF inv block_subtract_rc])
  done

lemma slot_loop_post:
  assumes body: "\<And>st i. P st \<Longrightarrow> post (body st i) (\<lambda>(ret, st'). P st')"
  shows "P st \<Longrightarrow> post (slot_loop body st is) (\<lambda>(ret, st'). P st')"
proof (induction "is" arbitrary: st)
  case Nil
  then show ?case by (simp add: post_def)
next
  case (Cons i "is")
  from body [OF Cons.prems, of i] show ?case
    by (cases "body st i") (auto simp: post_def intro: Cons.IH [unfolded post_def])
qed

lemma binary_op_post:
  assumes inv: "heap_inv st"
    and body: "\<And>s a b i. heap_inv s \<Longrightarrow> post (body s a b i) (\<lambda>(ret, st'). heap_inv st')"
  shows "post (binary_op body st a b) (\<lambda>(ret, st'). heap_inv st')"
proof -
  have loop: "post (slot_loop (\<lambda>s. body s ap bp) st is) (\<lambda>(ret, st'). heap_inv st')" for ap bp "is"
    by (rule slot_loop_post [where P = heap_inv]) (simp_all add: body inv)
  show ?thesis
    unfolding binary_op_def
    apply (intro post_intros)
      apply (auto intro: inv loop)
    done
qed

lemma bitset_invert_post:
  assumes inv: "heap_inv st"
  shows "post (bitset_invert B st a) (\<lambda>(ret, st'). heap_inv st')"
  unfolding bitset_invert_def
  apply (intro post_intros)
    apply (auto intro: inv slot_loop_post [where P = heap_inv, OF invert_slot_post])
  done

lemma map_nth_upt: "map ((!) xs) [0..<length xs] = xs"
  by (rule map_nth)

lemma free_loop_spec:
  assumes "free_loop s a is = Inr s'" and "bitset_heap s a = Some bs" and "blocks bs = Some xs"
    and "\<forall>i\<in>set is. i < length xs"
  shows "bitset_heap s' = bitset_heap s \<and> next_ptr s' = next_ptr s
       \<and> (\<forall>q. rc s' q = rc s q - int (count_list (map ((!) xs) is) (Some q)))
       \<and> (\<forall>q. block_heap s q = None \<longrightarrow> block_heap s' q = None)"
  using assms
proof (induction "is" arbitrary: s)
  case Nil
  then show ?case by simp
next
  case (Cons i "is")
  from Cons.prems have g: "get_slot s a (int i) = Inr (xs ! i)"
    by (simp add: get_slot_def)
  show ?case
  proof (cases "xs ! i")
    case None
    with Cons.prems g have "free_loop s a is = Inr s'" by simp
    from Cons.IH [OF this] Cons.prems None show ?thesis by simp
  next
    case (Some p)
    with Cons.prems g obtain s1 where d: "bitset_block_decref s p = Inr s1"
      and l: "free_loop s1 a is = Inr s'"
      by (cases "bitset_block_decref s p") auto
    from decref_cases [OF d] obtain pb where pb: "block_heap s p = Some pb"
      and s1: "bitset_heap s1 = bitset_heap s" "next_ptr s1 = next_ptr s"
        "block_heap s1 = (block_heap s)(p := if ref_count pb = 1 then None
                                               else Some (pb\<lparr>ref_count := ref_count pb - 1\<rparr>))"
      by blast
    from Cons.IH [OF l] Cons.prems s1 have
      ih: "bitset_heap s' = bitset_heap s1" "next_ptr s' = next_ptr s1"
        "\<And>q. rc s' q = rc s1 q - int (count_list (map ((!) xs) is) (Some q))"
        "\<And>q. block_heap s1 q = None \<Longrightarrow> block_heap s' q = None"
      by auto
    have rc1: "rc s1 q = rc s q - (if q = p then 1 else 0)" for q
      using pb by (auto simp: rc_def s1)
    show ?thesis
    proof (intro conjI allI impI)
      show "bitset_heap s' = bitset_heap s" using ih s1 by simp
      show "next_ptr s' = next_ptr s" using ih s1 by simp
      show "rc s' q = rc s q - int (count_list (map ((!) xs) (i # is)) (Some q))" for q
        using ih(3) [of q] rc1 [of q] Some by simp
      show "block_heap s' q = None" if "block_heap s q = None" for q
      proof (rule ih(4))
        from that pb show "block_heap s1 q = None" by (auto simp: s1)
      qed
    qed
  qed
qed

lemma incref_loop_spec:
  assumes "incref_loop s a is = Inr s'" and "bitset_heap s a = Some bs" and "blocks bs = Some xs"
    and "\<forall>i\<in>set is. i < length xs"
  shows "bitset_heap s' = bitset_heap s \<and> next_ptr s' = next_ptr s
       \<and> (\<forall>q. rc s' q = rc s q + int (count_list (map ((!) xs) is) (Some q)))
       \<and> (\<forall>q. block_heap s q = None \<longrightarrow> block_heap s' q = None)"
  using assms
proof (induction "is" arbitrary: s)
  case Nil
  then show ?case by simp
next
  case (Cons i "is")
  from Cons.prems have g: "get_slot s a (int i) = Inr (xs ! i)"
    by (simp add: get_slot_def)
  show ?case
  proof (cases "xs ! i")
    case None
    with Cons.prems g have "incref_loop s a is = Inr s'" by simp
    from Cons.IH [OF this] Cons.prems None show ?thesis by simp
  next
    case (Some p)
    with Cons.prems g obtain s1 where d: "bitset_block_incref s p = Inr s1"
      and l: "incref_loop s1 a is = Inr s'"
      by (cases "bitset_block_incref s p") auto
    from incref_cases [OF d] obtain pb where pb: "block_heap s p = Some pb"
      and s1: "bitset_heap s1 = bitset_heap s" "next_ptr s1 = next_ptr s"
        "block_heap s1 = (block_heap s)(p \<mapsto> pb\<lparr>ref_count := ref_count pb + 1\<rparr>)"
      by blast
    from Cons.IH [OF l] Cons.prems s1 have
      ih: "bitset_heap s' = bitset_heap s1" "next_ptr s' = next_ptr s1"
        "\<And>q. rc s' q = rc s1 q + int (count_list (map ((!) xs) is) (Some q))"
        "\<And>q. block_heap s1 q = None \<Longrightarrow> block_heap s' q = None"
      by auto
    have rc1: "rc s1 q = rc s q + (if q = p then 1 else 0)" for q
      using pb by (auto simp: rc_def s1)
    show ?thesis
    proof (intro conjI allI impI)
      show "bitset_heap s' = bitset_heap s" using ih s1 by simp
      show "next_ptr s' = next_ptr s" using ih s1 by simp
      show "rc s' q = rc s q + int (count_list (map ((!) xs) (i # is)) (Some q))" for q
        using ih(3) [of q] rc1 [of q] Some by simp
      show "block_heap s' q = None" if "block_heap s q = None" for q
      proof (rule ih(4))
        from that pb show "block_heap s1 q = None" by (auto simp: s1)
      qed
    qed
  qed
qed

lemma bitset_free_inv:
  assumes inv: "heap_inv st" and r: "bitset_free st a = Inr st'"
  shows "heap_inv st'"
proof (cases a)
  case None
  with r inv show ?thesis by (simp add: bitset_free_def)
next
  case (Some ap)
  note b = heap_inv_boundedD [OF inv]
  from r Some obtain bs where bs: "bitset_heap st ap = Some bs"
    by (cases "bitset_heap st ap") (auto simp: bitset_free_def get_bitset_def bnd_simps)
  with r Some obtain st1 where
    l: "(case blocks bs of None \<Rightarrow> Inr st
         | Some _ \<Rightarrow> free_loop st ap [0..<nat (block_count bs)]) = Inr st1"
    and st': "st' = st1\<lparr>bitset_heap := (bitset_heap st1)(ap := None)\<rparr>"
    by (auto simp: bitset_free_def get_bitset_def bnd_simps bnd_Inr_iff)
  have st1: "bitset_heap st1 = bitset_heap st \<and> next_ptr st1 = next_ptr st
       \<and> (\<forall>q. rc st1 q = rc st q - int (holds (Some bs) q))
       \<and> (\<forall>q. block_heap st q = None \<longrightarrow> block_heap st1 q = None)"
  proof (cases "blocks bs")
    case None
    with l show ?thesis by (simp add: holds_def)
  next
    case (Some xs)
    from shapedD [OF inv bs Some] have len: "length xs = nat (block_count bs)" .
    from l Some len have "free_loop st ap [0..<length xs] = Inr st1" by simp
    from free_loop_spec [OF this bs Some] Some show ?thesis
      by (simp add: holds_def map_nth)
  qed
  show ?thesis
  proof (rule heap_inv_step [OF inv, where a = ap and v = None])
    show "next_ptr st \<le> next_ptr st'" using st1 st' by simp
    show "bitset_heap st' = (bitset_heap st)(ap := None)" using st1 st' by simp
    show "ap < next_ptr st'" using bounded_bitset [OF b bs] st1 st' by simp
    show "block_heap st' q = None" if "next_ptr st' \<le> q" for q
      using that st1 st' b by (auto simp: bounded_def)
    show "rc st' q = rc st q - int (holds (bitset_heap st ap) q) + int (holds None q)" for q
      using st1 st' bs by (simp add: rc_def holds_def)
  qed simp
qed

lemma malloc_inv:
  assumes inv: "heap_inv st" and m: "malloc st sz = (r, st1)"
  shows "heap_inv st1"
proof (rule heap_inv_step_same [OF inv])
  from malloc_cases [OF m] show "next_ptr st \<le> next_ptr st1"
    by (cases r) auto
  from malloc_cases [OF m] show "bitset_heap st1 = bitset_heap st" by simp
  from malloc_cases [OF m] heap_inv_boundedD [OF inv]
  show "block_heap st1 q = None" if "next_ptr st1 \<le> q" for q
    using that by (cases r) (auto simp: bounded_def)
  from malloc_cases [OF m] show "rc st1 q = rc st q" for q by (simp add: rc_def)
qed

text \<open>Writing a bitset record that holds no block over one that holds none.\<close>

lemma bitset_write_inv:
  assumes inv: "heap_inv st" and n: "next_ptr st \<le> next_ptr st'"
    and bh: "block_heap st' = block_heap st"
    and h: "bitset_heap st' = (bitset_heap st)(a := v)" and a: "a < next_ptr st'"
    and old: "\<And>q. holds (bitset_heap st a) q = 0" and new: "\<And>q. holds v q = 0"
    and shape: "\<And>bs xs. v = Some bs \<Longrightarrow> blocks bs = Some xs \<Longrightarrow> length xs = nat (block_count bs)"
  shows "heap_inv st'"
proof (rule heap_inv_step [OF inv n h a shape])
  show "block_heap st' q = None" if "next_ptr st' \<le> q" for q
    using that n heap_inv_boundedD [OF inv] by (auto simp: bh bounded_def)
  show "rc st' q = rc st q - int (holds (bitset_heap st a) q) + int (holds v q)" for q
    by (simp add: old new rc_def bh)
qed

lemma holds_replicate: "holds (Some \<lparr>bitcount = x, block_count = y, blocks = Some (replicate n None)\<rparr>) q = 0"
  by (simp add: holds_def)

lemma holds_no_blocks: "blocks bs = None \<Longrightarrow> holds (Some bs) q = 0"
  by (simp add: holds_def)

lemma bitset_init_inv:
  assumes inv: "heap_inv st" and z: "\<And>q. holds (bitset_heap st bset) q = 0"
    and r: "bitset_init B st bset bc = Inr (ret, st')"
  shows "heap_inv st'"
proof -
  from r obtain b0 where b0: "bitset_heap st bset = Some b0"
    by (cases "bitset_heap st bset") (auto simp: bitset_init_def get_bitset_def bnd_simps)
  note lt = bounded_bitset [OF heap_inv_boundedD [OF inv] b0]
  let ?bs = "\<lparr>bitcount = bc, block_count = BLOCKCOUNT B bc, blocks = None\<rparr>"
  obtain m st1 where m: "malloc st (sizeof_ptr * BLOCKCOUNT B bc) = (m, st1)"
    by (cases "malloc st (sizeof_ptr * BLOCKCOUNT B bc)") auto
  note mc = malloc_cases [OF m]
  from mc have n: "next_ptr st \<le> next_ptr st1" by (cases m) auto
  show ?thesis
  proof (cases m)
    case None
    with r b0 m have st': "st' = st1\<lparr>bitset_heap := (bitset_heap st1)(bset \<mapsto> ?bs)\<rparr>"
      by (simp add: bitset_init_def get_bitset_def bnd_simps Let_def)
    show ?thesis
      by (rule bitset_write_inv [OF inv, where a = bset and v = "Some ?bs"])
        (use mc n lt z in \<open>auto simp: st' holds_def\<close>)
  next
    case (Some arr)
    with r b0 m have st': "st' = st1\<lparr>bitset_heap :=
           (bitset_heap st1)(bset \<mapsto> ?bs\<lparr>blocks := Some (replicate (nat (BLOCKCOUNT B bc)) None)\<rparr>),
         block_allocs := block_allocs st1 + 1,
         block_mem := block_mem st1 + word_of_int ((sizeof_ptr * BLOCKCOUNT B bc) mod 2 ^ 64)\<rparr>"
      by (simp add: bitset_init_def get_bitset_def bnd_simps Let_def)
    show ?thesis
      by (rule bitset_write_inv [OF inv, where a = bset
            and v = "Some (?bs\<lparr>blocks := Some (replicate (nat (BLOCKCOUNT B bc)) None)\<rparr>)"])
        (use mc n lt z in \<open>auto simp: st' holds_def\<close>)
  qed
qed

lemma fresh_bitset_inv:
  assumes inv: "heap_inv st" and m: "malloc st sz = (Some bset, st1)"
    and st2: "bitset_heap st2 = (bitset_heap st1)(bset \<mapsto> bs)" "block_heap st2 = block_heap st1"
      "next_ptr st2 = next_ptr st1"
    and bs: "blocks bs = None"
  shows "heap_inv st2"
proof -
  note mc = malloc_cases [OF m]
  note b = heap_inv_boundedD [OF inv]
  from mc b have none: "bitset_heap st bset = None" by (auto simp: bounded_def)
  show ?thesis
    by (rule bitset_write_inv [OF inv, where a = bset and v = "Some bs"])
      (use mc st2 bs none in \<open>auto simp: holds_def\<close>)
qed

lemma bitset_alloc_inv:
  assumes inv: "heap_inv st" and r: "bitset_alloc B st bc out = Inr (ret, out', st')"
  shows "heap_inv st'"
proof (cases "out = Some None")
  case False
  with r inv show ?thesis by (simp add: bitset_alloc_def)
next
  case True
  obtain m st1 where m: "malloc st sizeof_bitset = (m, st1)"
    by (cases "malloc st sizeof_bitset") auto
  show ?thesis
  proof (cases m)
    case None
    with r True m have "st' = st1" by (simp add: bitset_alloc_def)
    with malloc_inv [OF inv m] show ?thesis by simp
  next
    case (Some bset)
    let ?st2 = "st1\<lparr>bitset_heap := (bitset_heap st1)(bset \<mapsto> zero_bitset),
                          block_allocs := block_allocs st1 + 1,
                          block_mem := block_mem st1 + word_of_int sizeof_bitset\<rparr>"
    have inv2: "heap_inv ?st2"
      by (rule fresh_bitset_inv [OF inv m [unfolded Some], where bs = zero_bitset])
        (simp_all add: zero_bitset_def)
    from r True m Some obtain ret3 st3 where
      i: "bitset_init B ?st2 bset bc = Inr (ret3, st3)"
      and rest: "(if ret3 \<noteq> OK
                then bnd (bitset_free st3 (Some bset)) (\<lambda>st4. Inr (ret3, out, st4))
                else Inr (ret3, Some (Some bset), st3)) = Inr (ret, out', st')"
      by (cases "bitset_init B ?st2 bset bc") (auto simp: bitset_alloc_def Let_def bnd_simps)
    have inv3: "heap_inv st3"
      by (rule bitset_init_inv [OF inv2 _ i]) (simp add: holds_def zero_bitset_def)
    from rest inv3 show ?thesis
      by (auto simp: bnd_Inr_iff split: if_splits intro: bitset_free_inv)
  qed
qed

lemma memcpy_blocks_length:
  "memcpy_blocks src = Inr xs \<Longrightarrow> length xs = nat (block_count src)"
  by (auto simp: memcpy_blocks_def split: option.splits if_splits)

lemma bitset_dup_inv:
  assumes inv: "heap_inv st" and r: "bitset_dup st s out = Inr (ret, out', st')"
  shows "heap_inv st'"
proof (cases "s = None \<or> out \<noteq> Some None")
  case True
  with r inv show ?thesis by (auto simp: bitset_dup_def split: if_splits)
next
  case False
  then have s: "s \<noteq> None" and out: "out = Some None" by simp_all
  obtain m st1 where m: "malloc st sizeof_bitset = (m, st1)"
    by (cases "malloc st sizeof_bitset") auto
  show ?thesis
  proof (cases m)
    case None
    with r s out m have "st' = st1" by (simp add: bitset_dup_def)
    with malloc_inv [OF inv m] show ?thesis by simp
  next
    case (Some bset)
    note mc = malloc_cases [OF m [unfolded Some]]
    let ?st2 = "st1\<lparr>bitset_heap := (bitset_heap st1)(bset \<mapsto> zero_bitset),
                          block_allocs := block_allocs st1 + 1,
                          block_mem := block_mem st1 + word_of_int sizeof_bitset\<rparr>"
    have inv2: "heap_inv ?st2"
      by (rule fresh_bitset_inv [OF inv m [unfolded Some], where bs = zero_bitset])
        (simp_all add: zero_bitset_def)
    from r s out m Some obtain src where src: "get_bitset ?st2 s = Inr src"
      by (cases "get_bitset ?st2 s") (auto simp: bitset_dup_def Let_def bnd_simps)
    let ?bs = "\<lparr>bitcount = bitcount src, block_count = block_count src, blocks = None\<rparr>"
    let ?st2b = "?st2\<lparr>bitset_heap := (bitset_heap ?st2)(bset \<mapsto> ?bs)\<rparr>"
    let ?sz = "sizeof_ptr * block_count src"
    have inv2b: "heap_inv ?st2b"
      by (rule bitset_write_inv [OF inv2, where a = bset and v = "Some ?bs"])
        (use mc in \<open>auto simp: holds_def zero_bitset_def\<close>)
    obtain m3 st3 where m3: "malloc ?st2b ?sz = (m3, st3)"
      by (cases "malloc ?st2b ?sz") auto
    note inv3 = malloc_inv [OF inv2b m3]
    note mc3 = malloc_cases [OF m3]
    show ?thesis
    proof (cases m3)
      case None
      with r s out m Some src m3 have
        "bnd (bitset_free st3 (Some bset)) (\<lambda>st4. Inr (ERRMEM, out, st4)) = Inr (ret, out', st')"
        by (simp add: bitset_dup_def Let_def bnd_simps)
      with inv3 show ?thesis
        by (auto simp: bnd_Inr_iff intro: bitset_free_inv)
    next
      case (Some arr)
      with r s out m \<open>m = Some bset\<close> src m3 have
        "bnd (memcpy_blocks src) (\<lambda>xs.
            bnd (incref_loop
                   (st3\<lparr>bitset_heap := (bitset_heap st3)(bset \<mapsto> ?bs\<lparr>blocks := Some xs\<rparr>),
                        block_allocs := block_allocs st3 + 1,
                        block_mem := block_mem st3 + word_of_int (?sz mod 2 ^ 64)\<rparr>)
                   bset [0..<nat (block_count src)]) (\<lambda>st4.
            Inr (OK, Some (Some bset), st4))) = Inr (ret, out', st')"
        by (simp add: bitset_dup_def Let_def bnd_simps)
      then obtain xs where xs: "memcpy_blocks src = Inr xs"
        and l: "incref_loop
                   (st3\<lparr>bitset_heap := (bitset_heap st3)(bset \<mapsto> ?bs\<lparr>blocks := Some xs\<rparr>),
                        block_allocs := block_allocs st3 + 1,
                        block_mem := block_mem st3 + word_of_int (?sz mod 2 ^ 64)\<rparr>)
                   bset [0..<nat (block_count src)] = Inr st'"
        by (auto simp: bnd_Inr_iff)
      let ?st3' = "st3\<lparr>bitset_heap := (bitset_heap st3)(bset \<mapsto> ?bs\<lparr>blocks := Some xs\<rparr>),
                        block_allocs := block_allocs st3 + 1,
                        block_mem := block_mem st3 + word_of_int (?sz mod 2 ^ 64)\<rparr>"
      note len = memcpy_blocks_length [OF xs]
      from l len have l': "incref_loop ?st3' bset [0..<length xs] = Inr st'" by simp
      have spec: "bitset_heap st' = bitset_heap ?st3' \<and> next_ptr st' = next_ptr ?st3'
           \<and> (\<forall>q. rc st' q = rc ?st3' q + int (count_list (map ((!) xs) [0..<length xs]) (Some q)))
           \<and> (\<forall>q. block_heap ?st3' q = None \<longrightarrow> block_heap st' q = None)"
        by (rule incref_loop_spec [OF l', where bs = "?bs\<lparr>blocks := Some xs\<rparr>"]) simp_all
      have at3: "bitset_heap st3 bset = Some ?bs"
        using mc3 by simp
      from mc mc3 Some have lt: "bset < next_ptr st3" by simp
      show ?thesis
      proof (rule heap_inv_step [OF inv3, where a = bset and v = "Some (?bs\<lparr>blocks := Some xs\<rparr>)"])
        show "next_ptr st3 \<le> next_ptr st'" using spec by simp
        show "bitset_heap st' = (bitset_heap st3)(bset \<mapsto> ?bs\<lparr>blocks := Some xs\<rparr>)"
          using spec by simp
        show "bset < next_ptr st'" using spec lt by simp
        show "length ys = nat (block_count bs')"
          if "Some (?bs\<lparr>blocks := Some xs\<rparr>) = Some bs'" "blocks bs' = Some ys" for bs' ys
          using that len by auto
        show "block_heap st' q = None" if "next_ptr st' \<le> q" for q
          using that spec heap_inv_boundedD [OF inv3] by (auto simp: bounded_def)
        show "rc st' q = rc st3 q - int (holds (bitset_heap st3 bset) q)
                + int (holds (Some (?bs\<lparr>blocks := Some xs\<rparr>)) q)" for q
          using spec by (simp add: at3 holds_def map_nth rc_def)
      qed
    qed
  qed
qed

lemma post_invD:
  "post m (\<lambda>(ret, st'). P st') \<Longrightarrow> m = Inr (ret, st') \<Longrightarrow> P st'"
  by (simp add: post_def)

lemmas bitset_set_inv = post_invD [OF bitset_set_post]
lemmas bitset_clr_inv = post_invD [OF bitset_clr_post]
lemmas bitset_toggle_bit_inv = post_invD [OF bitset_toggle_bit_post]
lemmas bitset_invert_inv = post_invD [OF bitset_invert_post]
lemmas or_slot_inv = post_invD [OF or_slot_post]

lemma bitset_or_inv: "heap_inv st \<Longrightarrow> bitset_or B st a b = Inr (ret, st') \<Longrightarrow> heap_inv st'"
  unfolding bitset_or_def by (erule post_invD [OF binary_op_post]) (simp_all add: or_slot_post)

lemma bitset_and_inv: "heap_inv st \<Longrightarrow> bitset_and B st a b = Inr (ret, st') \<Longrightarrow> heap_inv st'"
  unfolding bitset_and_def by (erule post_invD [OF binary_op_post]) (simp_all add: and_slot_post)

lemma bitset_subtract_inv: "heap_inv st \<Longrightarrow> bitset_subtract B st a b = Inr (ret, st') \<Longrightarrow> heap_inv st'"
  unfolding bitset_subtract_def by (erule post_invD [OF binary_op_post]) (simp_all add: subtract_slot_post)

lemma dup_then_inv:
  assumes inv: "heap_inv st"
    and f: "\<And>s a b ret s'. heap_inv s \<Longrightarrow> inplace s a b = Inr (ret, s') \<Longrightarrow> heap_inv s'"
    and r: "dup_then inplace st a b out = Inr (ret, out', st')"
  shows "heap_inv st'"
proof (cases "out = Some None")
  case False
  with r inv show ?thesis by (simp add: dup_then_def)
next
  case True
  from r True obtain ret1 r1 st1 where d: "bitset_dup st a (Some None) = Inr (ret1, r1, st1)"
    and rest: "(if ret1 \<noteq> OK then Inr (ret1, out, st1)
                else bnd (inplace st1 (the r1) b) (\<lambda>(ret, st2).
                       if ret \<noteq> OK
                       then bnd (bitset_free st2 (the r1)) (\<lambda>st3. Inr (ret, out, st3))
                       else Inr (OK, r1, st2))) = Inr (ret, out', st')"
    by (cases "bitset_dup st a (Some None)") (auto simp: dup_then_def bnd_simps)
  note inv1 = bitset_dup_inv [OF inv d]
  show ?thesis
  proof (cases "ret1 = OK")
    case False
    with rest inv1 show ?thesis by simp
  next
    case True
    with rest obtain ret2 st2 where i: "inplace st1 (the r1) b = Inr (ret2, st2)"
      and rest2: "(if ret2 \<noteq> OK
                   then bnd (bitset_free st2 (the r1)) (\<lambda>st3. Inr (ret2, out, st3))
                   else Inr (OK, r1, st2)) = Inr (ret, out', st')"
      by (cases "inplace st1 (the r1) b") (auto simp: bnd_simps)
    note inv2 = f [OF inv1 i]
    from rest2 inv2 show ?thesis
      by (auto simp: bnd_Inr_iff split: if_splits intro: bitset_free_inv)
  qed
qed

lemma bitset_inverse_dup_then:
  "bitset_inverse B st a out = dup_then (\<lambda>s r _. bitset_invert B s r) st a b out"
  by (simp add: bitset_inverse_def dup_then_def)

lemma bitset_inverse_inv:
  assumes inv: "heap_inv st" and r: "bitset_inverse B st a out = Inr (ret, out', st')"
  shows "heap_inv st'"
  by (rule dup_then_inv [OF inv _ r [unfolded bitset_inverse_dup_then [where b = None]]])
    (rule bitset_invert_inv)

lemma exec_inv:
  assumes inv: "heap_inv st" and r: "exec B st c = Inr st'"
  shows "heap_inv st'"
proof (cases c)
  case (CAlloc bc out)
  with r inv show ?thesis by (auto simp: bnd_Inr_iff intro: bitset_alloc_inv)
next
  case (CFree a)
  with r inv show ?thesis by (auto intro: bitset_free_inv)
next
  case (CDup a out)
  with r inv show ?thesis by (auto simp: bnd_Inr_iff intro: bitset_dup_inv)
next
  case (CSet a bt)
  with r inv show ?thesis by (auto simp: bnd_Inr_iff intro: bitset_set_inv)
next
  case (CClr a bt)
  with r inv show ?thesis by (auto simp: bnd_Inr_iff intro: bitset_clr_inv)
next
  case (CToggle a bt)
  with r inv show ?thesis by (auto simp: bnd_Inr_iff intro: bitset_toggle_bit_inv)
next
  case (CInvert a)
  with r inv show ?thesis by (auto simp: bnd_Inr_iff intro: bitset_invert_inv)
next
  case (CInverse a out)
  with r inv show ?thesis by (auto simp: bnd_Inr_iff intro: bitset_inverse_inv)
next
  case (COr a b)
  with r inv show ?thesis by (auto simp: bnd_Inr_iff intro: bitset_or_inv)
next
  case (CAnd a b)
  with r inv show ?thesis by (auto simp: bnd_Inr_iff intro: bitset_and_inv)
next
  case (CSubtract a b)
  with r inv show ?thesis by (auto simp: bnd_Inr_iff intro: bitset_subtract_inv)
next
  case (CUnion a b out)
  with r inv show ?thesis
    by (auto simp: bnd_Inr_iff bitset_union_def intro: dup_then_inv [OF _ bitset_or_inv])
next
  case (CIntersect a b out)
  with r inv show ?thesis
    by (auto simp: bnd_Inr_iff bitset_intersect_def intro: dup_then_inv [OF _ bitset_and_inv])
next
  case (CDifference a b out)
  with r inv show ?thesis
    by (auto simp: bnd_Inr_iff bitset_difference_def intro: dup_then_inv [OF _ bitset_subtract_inv])
qed (use r inv in \<open>auto simp: bnd_Inr_iff\<close>)

lemma run_inv: "heap_inv st \<Longrightarrow> run B st cs = Inr st' \<Longrightarrow> heap_inv st'"
proof (induction cs arbitrary: st)
  case Nil
  then show ?case by simp
next
  case (Cons c cs)
  then show ?case by (cases "exec B st c") (auto intro: exec_inv)
qed

lemma heap_inv_init: "heap_inv (init_state plan)"
  by (simp add: heap_inv_def bounded_def shaped_def counted_def rc_def refs_def init_state_def holds_def)

lemma heap_inv_exact: "heap_inv st \<Longrightarrow> ref_counts_exact st"
  unfolding ref_counts_exact_def
proof (intro allI impI)
  fix a i q
  assume inv: "heap_inv st" and g: "get_slot st a i = Inr (Some q)"
  from get_slot_cases [OF g] obtain bs xs where
    "bitset_heap st a = Some bs" "blocks bs = Some xs" "nat i < length xs" "xs ! nat i = Some q"
    by auto
  from held_block_live [OF inv this]
  show "\<exists>blk. block_heap st q = Some blk \<and> ref_count blk = int (refs st q)" by blast
qed

text \<open>
  C7. Between calls, the block of every present slot is live and its \<^verbatim>\<open>ref_count\<close> is
  exactly the number of slots, over all live bitsets, that hold it: this is true of the
  memory that any sequence of calls of the public functions leaves, from the empty
  memory, whatever the calls return and whichever \<^verbatim>\<open>malloc\<close> calls fail.
\<close>

theorem ref_counts_exact_between_calls:
  assumes "run B (init_state plan) cs = Inr st"
  shows "ref_counts_exact st"
  using heap_inv_exact [OF run_inv [OF heap_inv_init assms]] .

lemma lessThan_7: "{..<7::nat} = {0, 1, 2, 3, 4, 5, 6}"
  by auto

theorem ref_counts_exact_between_calls_witness:
  "get_slot (after 2 shared_calls) 0 1 = Inr (Some 3)
   \<and> get_slot (after 2 shared_calls) 4 1 = Inr (Some 3)
   \<and> map_option ref_count (block_heap (after 2 shared_calls) 3) = Some 2
   \<and> refs (after 2 shared_calls) 3 = 2"
proof -
  have run: "run 2 (init_state []) shared_calls = Inr (after 2 shared_calls)"
    by (simp add: model_defs shared_calls_def upt_2)
  have g: "get_slot (after 2 shared_calls) 0 1 = Inr (Some 3)"
    "get_slot (after 2 shared_calls) 4 1 = Inr (Some 3)"
    by (simp_all add: model_defs shared_calls_def upt_2)
  from ref_counts_exact_between_calls [OF run] g(1)
  have "\<exists>blk. block_heap (after 2 shared_calls) 3 = Some blk
          \<and> ref_count blk = int (refs (after 2 shared_calls) 3)"
    unfolding ref_counts_exact_def by blast
  moreover have "refs (after 2 shared_calls) 3 = 2"
    by (simp add: model_defs shared_calls_def upt_2 refs_def holds_def lessThan_7 eval_nat_numeral)
  ultimately show ?thesis using g by auto
qed

lemma heap_inv_after: "heap_inv (after B cs)"
proof (cases "run B (init_state []) cs")
  case (Inl e)
  then show ?thesis by (simp add: after_def heap_inv_init)
next
  case (Inr st)
  with run_inv [OF heap_inv_init Inr] show ?thesis by (simp add: after_def)
qed

section \<open>Bit operations\<close>

subsection \<open>One bit of a block\<close>

lemma nat_mod_64: "0 \<le> x \<Longrightarrow> nat (x mod 64) < 64"
  by (simp add: nat_less_iff)

lemma mask_set: "b < 64 \<Longrightarrow> (w OR push_bit b 1) AND push_bit b 1 \<noteq> (0 :: 64 word)"
  by simp

lemma mask_clr: "(w AND NOT (push_bit b 1)) AND push_bit b 1 = (0 :: 64 word)"
  by (simp add: and.assoc)

lemma mask_toggle: "(w XOR m) XOR m = (w :: 64 word)"
  by (simp add: xor.assoc)

lemma test_after_set:
  assumes "bitset_block_set_bit b x = Inr b'"
  shows "bitset_block_test_bit b' x = Inr 1"
proof -
  let ?n = "nat (x div 64)" and ?m = "push_bit (nat (x mod 64)) (1 :: 64 word)"
  from assms have ok: "0 \<le> x" "?n < length (ints b)"
    and b': "b' = b\<lparr>ints := (ints b)[?n := (ints b ! ?n) OR ?m], set_count := set_count b + 1\<rparr>"
    by (auto simp only: bitset_block_set_bit_def Let_def split: if_splits)
  from mask_set [OF nat_mod_64 [OF ok(1)]] ok show ?thesis
    by (simp only: bitset_block_test_bit_def Let_def b') simp
qed

lemma test_after_clr:
  assumes "bitset_block_clr_bit b x = Inr b'"
  shows "bitset_block_test_bit b' x = Inr 0"
proof -
  let ?n = "nat (x div 64)" and ?m = "push_bit (nat (x mod 64)) (1 :: 64 word)"
  from assms have ok: "0 \<le> x" "?n < length (ints b)"
    and b': "b' = b\<lparr>ints := (ints b)[?n := (ints b ! ?n) AND NOT ?m], set_count := set_count b - 1\<rparr>"
    by (auto simp only: bitset_block_clr_bit_def Let_def split: if_splits)
  from mask_clr [of "ints b ! ?n" "nat (x mod 64)"] ok show ?thesis
    by (simp only: bitset_block_test_bit_def Let_def b') simp
qed

lemma toggle_twice:
  assumes "bitset_block_toggle_bit b x = Inr b'"
  shows "\<exists>b''. bitset_block_toggle_bit b' x = Inr b'' \<and> ref_count b'' = ref_count b
          \<and> bitset_block_test_bit b'' x = bitset_block_test_bit b x"
proof -
  let ?n = "nat (x div 64)" and ?m = "push_bit (nat (x mod 64)) (1 :: 64 word)"
  from assms have ok: "0 \<le> x" "?n < length (ints b)"
    and b': "ints b' = (ints b)[?n := (ints b ! ?n) XOR ?m]" "ref_count b' = ref_count b"
    by (auto simp only: bitset_block_toggle_bit_def Let_def split: if_splits) simp_all
  let ?w = "((ints b ! ?n) XOR ?m) XOR ?m"
  let ?b'' = "b'\<lparr>ints := (ints b')[?n := ?w],
                   set_count := (if ?w AND ?m = 0 then set_count b' - 1 else set_count b' + 1)\<rparr>"
  have 1: "bitset_block_toggle_bit b' x = Inr ?b''"
    using ok by (simp only: bitset_block_toggle_bit_def Let_def b') simp
  have 2: "bitset_block_test_bit ?b'' x = bitset_block_test_bit b x"
    using ok by (simp only: bitset_block_test_bit_def Let_def) (simp add: b' mask_toggle del: push_bit_of_1)
  from 1 2 b' show ?thesis by simp
qed

subsection \<open>The slot after the block has been made private\<close>

lemma alloc_stage:
  assumes bs: "bitset_heap st ap = Some bs" and r: "bitset_block_alloc B st ap i = Inr (OK, r, st1)"
  shows "\<exists>q bs1. r = Some q \<and> bitset_heap st1 ap = Some bs1 \<and> bitcount bs1 = bitcount bs
          \<and> block_count bs1 = block_count bs \<and> get_slot st1 ap i = Inr (Some q)
          \<and> block_heap st1 q = Some \<lparr>ref_count = 1, set_count = 0, ints = replicate B 0\<rparr>"
  using block_alloc_cases [OF r] bs by (auto simp: get_slot_def)

lemma realloc_stage:
  assumes b: "bounded st" and bs: "bitset_heap st ap = Some bs"
    and r: "bitset_block_realloc B st ap i = Inr (OK, r, st1)"
  shows "\<exists>q bs1 ob. r = Some q \<and> bitset_heap st1 ap = Some bs1 \<and> bitcount bs1 = bitcount bs
          \<and> block_count bs1 = block_count bs \<and> get_slot st1 ap i = Inr (Some q)
          \<and> get_slot st ap i = Inr (Some ob) \<and> (\<exists>old. block_heap st ob = Some old
          \<and> block_heap st1 q = Some \<lparr>ref_count = 1, set_count = set_count old, ints = ints old\<rparr>)"
  using block_realloc_cases [OF r b] bs by (auto simp: get_slot_def)

lemma test_reads_block:
  assumes "bitset_heap st ap = Some bs" and "0 \<le> bt" and "bt < bitcount bs"
    and "bt div IDSPERBLOCK B < block_count bs"
    and "get_slot st ap (bt div IDSPERBLOCK B) = Inr (Some q)" and "block_heap st q = Some b"
  shows "bitset_test_bit B st (Some ap) bt (Some v)
       = bnd (bitset_block_test_bit b (bt mod IDSPERBLOCK B)) (\<lambda>t. Inr (OK, Some t))"
  using assms by (simp add: bitset_test_bit_def get_bitset_def get_block_def bnd_simps assert_def Let_def)

lemma test_reads_block_put:
  assumes "bitset_heap st ap = Some bs" and "0 \<le> bt" and "bt < bitcount bs"
    and "bt div IDSPERBLOCK B < block_count bs"
    and "get_slot st ap (bt div IDSPERBLOCK B) = Inr (Some q)"
  shows "bitset_test_bit B (put_block st q b) (Some ap) bt (Some v)
       = bnd (bitset_block_test_bit b (bt mod IDSPERBLOCK B)) (\<lambda>t. Inr (OK, Some t))"
  by (rule test_reads_block [where bs = bs and q = q])
    (use assms in \<open>simp_all add: put_block_def get_slot_def\<close>)

lemma test_bit_range: "bitset_block_test_bit b x = Inr t \<Longrightarrow> t = 0 \<or> t = 1"
  by (auto simp: bitset_block_test_bit_def Let_def split: if_splits)

text \<open>The three bit operations after their argument checks, at a slot that has been read.\<close>

lemma bitset_set_unfold:
  assumes "bitset_heap st ap = Some bs" and "0 \<le> bt" and "bt < bitcount bs"
    and "bt div IDSPERBLOCK B < block_count bs"
    and "get_slot st ap (bt div IDSPERBLOCK B) = Inr slot"
  shows "bitset_set B st (Some ap) bt =
     (case slot of
        None \<Rightarrow>
          bnd (bitset_block_alloc B st ap (bt div IDSPERBLOCK B)) (\<lambda>(ret, blk, st1).
            if ret \<noteq> OK then Inr (ret, st1)
            else case blk of None \<Rightarrow> Inl BadAccess
                 | Some q \<Rightarrow>
                     bnd (get_block st1 q) (\<lambda>b.
                     bnd (bitset_block_set_bit b (bt mod IDSPERBLOCK B)) (\<lambda>b'.
                     Inr (OK, put_block st1 q b'))))
      | Some p \<Rightarrow>
          bnd (get_block st p) (\<lambda>pb.
          bnd (bitset_block_test_bit pb (bt mod IDSPERBLOCK B)) (\<lambda>t.
            if t \<noteq> 0 then Inr (OK, st)
            else
              bnd (if ref_count pb > 1 then bitset_block_realloc B st ap (bt div IDSPERBLOCK B)
                   else Inr (OK, Some p, st)) (\<lambda>(ret, blk, st1).
                if ret \<noteq> OK then Inr (ret, st1)
                else case blk of None \<Rightarrow> Inl BadAccess
                     | Some q \<Rightarrow>
                         bnd (get_block st1 q) (\<lambda>b.
                         bnd (bitset_block_set_bit b (bt mod IDSPERBLOCK B)) (\<lambda>b'.
                         Inr (OK, put_block st1 q b')))))))"
  using assms by (simp add: bitset_set_def get_bitset_def bnd_simps assert_def Let_def)

lemma bitset_clr_unfold:
  assumes "bitset_heap st ap = Some bs" and "0 \<le> bt" and "bt < bitcount bs"
    and "bt div IDSPERBLOCK B < block_count bs"
    and "get_slot st ap (bt div IDSPERBLOCK B) = Inr slot"
  shows "bitset_clr B st (Some ap) bt =
     (case slot of
        None \<Rightarrow> Inr (OK, st)
      | Some p \<Rightarrow>
          bnd (get_block st p) (\<lambda>pb.
          bnd (bitset_block_test_bit pb (bt mod IDSPERBLOCK B)) (\<lambda>t.
            if t = 0 then Inr (OK, st)
            else
              bnd (if ref_count pb > 1 then bitset_block_realloc B st ap (bt div IDSPERBLOCK B)
                   else Inr (OK, Some p, st)) (\<lambda>(ret, blk, st1).
                if ret \<noteq> OK then Inr (ret, st1)
                else case blk of None \<Rightarrow> Inl BadAccess
                     | Some q \<Rightarrow>
                         bnd (get_block st1 q) (\<lambda>b.
                         bnd (bitset_block_clr_bit b (bt mod IDSPERBLOCK B)) (\<lambda>b'.
                         Inr (OK, put_block st1 q b')))))))"
  using assms by (simp add: bitset_clr_def get_bitset_def bnd_simps assert_def Let_def)

lemma bitset_toggle_bit_unfold:
  assumes "bitset_heap st ap = Some bs" and "0 \<le> bt" and "bt < bitcount bs"
    and "bt div IDSPERBLOCK B < block_count bs"
    and "get_slot st ap (bt div IDSPERBLOCK B) = Inr slot"
  shows "bitset_toggle_bit B st (Some ap) bt =
     bnd (case slot of
            None \<Rightarrow> bitset_block_alloc B st ap (bt div IDSPERBLOCK B)
          | Some p \<Rightarrow>
              bnd (get_block st p) (\<lambda>pb.
                if ref_count pb > 1 then bitset_block_realloc B st ap (bt div IDSPERBLOCK B)
                else Inr (OK, Some p, st))) (\<lambda>(ret, blk, st1).
       if ret \<noteq> OK then Inr (ret, st1)
       else case blk of None \<Rightarrow> Inl AssertFailed
            | Some q \<Rightarrow>
                bnd (get_block st1 q) (\<lambda>b.
                bnd (bitset_block_toggle_bit b (bt mod IDSPERBLOCK B)) (\<lambda>b'.
                Inr (OK, put_block st1 q b'))))"
  using assms by (simp add: bitset_toggle_bit_def get_bitset_def bnd_simps assert_def Let_def)

text \<open>A bit operation that does not return \<^verbatim>\<open>ERRINPUT\<close> has passed its argument checks.\<close>

lemma set_checks:
  assumes "bitset_set B st a bt = Inr (ret, st')" and "ret \<noteq> ERRINPUT"
  shows "\<exists>ap bs slot. a = Some ap \<and> bitset_heap st ap = Some bs \<and> 0 \<le> bt \<and> bt < bitcount bs
          \<and> bt div IDSPERBLOCK B < block_count bs
          \<and> get_slot st ap (bt div IDSPERBLOCK B) = Inr slot"
  using assms
  by (auto simp: bitset_set_def get_bitset_cases bnd_Inr_iff assert_Inr_iff Let_def split: if_splits)

lemma clr_checks:
  assumes "bitset_clr B st a bt = Inr (ret, st')" and "ret \<noteq> ERRINPUT"
  shows "\<exists>ap bs slot. a = Some ap \<and> bitset_heap st ap = Some bs \<and> 0 \<le> bt \<and> bt < bitcount bs
          \<and> bt div IDSPERBLOCK B < block_count bs
          \<and> get_slot st ap (bt div IDSPERBLOCK B) = Inr slot"
  using assms
  by (auto simp: bitset_clr_def get_bitset_cases bnd_Inr_iff assert_Inr_iff Let_def split: if_splits)

lemma toggle_checks:
  assumes "bitset_toggle_bit B st a bt = Inr (ret, st')" and "ret \<noteq> ERRINPUT"
  shows "\<exists>ap bs slot. a = Some ap \<and> bitset_heap st ap = Some bs \<and> 0 \<le> bt \<and> bt < bitcount bs
          \<and> bt div IDSPERBLOCK B < block_count bs
          \<and> get_slot st ap (bt div IDSPERBLOCK B) = Inr slot"
  using assms
  by (auto simp: bitset_toggle_bit_def get_bitset_cases bnd_Inr_iff assert_Inr_iff Let_def split: if_splits)

lemma set_then_test:
  assumes inv: "heap_inv st" and r: "bitset_set B st a bt = Inr (OK, st')"
  shows "bitset_test_bit B st' a bt (Some v) = Inr (OK, Some 1)"
proof -
  let ?i = "bt div IDSPERBLOCK B" and ?x = "bt mod IDSPERBLOCK B"
  note b = heap_inv_boundedD [OF inv]
  from set_checks [OF r] obtain ap bs slot where a: "a = Some ap"
    and bs: "bitset_heap st ap = Some bs" and rng: "0 \<le> bt" "bt < bitcount bs"
    and cnt: "?i < block_count bs" and g: "get_slot st ap ?i = Inr slot"
    by auto
  note r' = r [unfolded a bitset_set_unfold [OF bs rng cnt g]]
  show ?thesis
  proof (cases slot)
    case None
    with r' obtain blk st1 q b b' where
      al: "bitset_block_alloc B st ap ?i = Inr (OK, blk, st1)"
      and q: "blk = Some q" "block_heap st1 q = Some b" "bitset_block_set_bit b ?x = Inr b'"
        "st' = put_block st1 q b'"
      by (auto simp: bnd_Inr_iff get_block_cases split: if_splits option.splits)
    from alloc_stage [OF bs al] q obtain bs1 where
      "bitset_heap st1 ap = Some bs1" "bitcount bs1 = bitcount bs"
      "block_count bs1 = block_count bs" "get_slot st1 ap ?i = Inr (Some q)"
      by auto
    with rng cnt q test_after_set [OF q(3)] show ?thesis
      by (simp add: a test_reads_block_put [where bs = bs1] bnd_simps)
  next
    case (Some p)
    with r' obtain pb t where pb: "block_heap st p = Some pb"
      and t: "bitset_block_test_bit pb ?x = Inr t"
      by (auto simp: bnd_Inr_iff get_block_cases)
    show ?thesis
    proof (cases "t = 0")
      case False
      with r' Some pb t have "st' = st" by (simp add: get_block_def bnd_simps)
      with test_bit_range [OF t] False rng cnt bs g Some pb t show ?thesis
        by (simp add: a test_reads_block [where bs = bs and q = p] bnd_simps)
    next
      case True
      with r' Some pb t obtain blk st1 q b b' where
        cow: "(if 1 < ref_count pb then bitset_block_realloc B st ap ?i else Inr (OK, Some p, st))
               = Inr (OK, blk, st1)"
        and q: "blk = Some q" "block_heap st1 q = Some b" "bitset_block_set_bit b ?x = Inr b'"
          "st' = put_block st1 q b'"
        by (auto simp: get_block_def bnd_simps bnd_Inr_iff get_block_cases
            split: if_splits option.splits)
      have "\<exists>bs1. bitset_heap st1 ap = Some bs1 \<and> bitcount bs1 = bitcount bs
            \<and> block_count bs1 = block_count bs \<and> get_slot st1 ap ?i = Inr (Some q)"
      proof (cases "1 < ref_count pb")
        case True
        with cow realloc_stage [OF b bs, of B ?i blk st1] q show ?thesis by auto
      next
        case False
        with cow q bs g Some show ?thesis by auto
      qed
      then obtain bs1 where
        "bitset_heap st1 ap = Some bs1" "bitcount bs1 = bitcount bs"
        "block_count bs1 = block_count bs" "get_slot st1 ap ?i = Inr (Some q)"
        by auto
      with rng cnt q test_after_set [OF q(3)] show ?thesis
        by (simp add: a test_reads_block_put [where bs = bs1] bnd_simps)
    qed
  qed
qed

lemma test_reads_none:
  assumes "bitset_heap st ap = Some bs" and "0 \<le> bt" and "bt < bitcount bs"
    and "bt div IDSPERBLOCK B < block_count bs"
    and "get_slot st ap (bt div IDSPERBLOCK B) = Inr None"
  shows "bitset_test_bit B st (Some ap) bt (Some v) = Inr (OK, Some 0)"
  using assms by (simp add: bitset_test_bit_def get_bitset_def bnd_simps assert_def Let_def)

lemma clr_then_test:
  assumes inv: "heap_inv st" and r: "bitset_clr B st a bt = Inr (OK, st')"
  shows "bitset_test_bit B st' a bt (Some v) = Inr (OK, Some 0)"
proof -
  let ?i = "bt div IDSPERBLOCK B" and ?x = "bt mod IDSPERBLOCK B"
  note b = heap_inv_boundedD [OF inv]
  from clr_checks [OF r] obtain ap bs slot where a: "a = Some ap"
    and bs: "bitset_heap st ap = Some bs" and rng: "0 \<le> bt" "bt < bitcount bs"
    and cnt: "?i < block_count bs" and g: "get_slot st ap ?i = Inr slot"
    by auto
  note r' = r [unfolded a bitset_clr_unfold [OF bs rng cnt g]]
  show ?thesis
  proof (cases slot)
    case None
    with r' have "st' = st" by simp
    with bs rng cnt g None show ?thesis by (simp add: a test_reads_none [where bs = bs])
  next
    case (Some p)
    with r' obtain pb t where pb: "block_heap st p = Some pb"
      and t: "bitset_block_test_bit pb ?x = Inr t"
      by (auto simp: bnd_Inr_iff get_block_cases)
    show ?thesis
    proof (cases "t = 0")
      case True
      with r' Some pb t have "st' = st" by (simp add: get_block_def bnd_simps)
      with True rng cnt bs g Some pb t show ?thesis
        by (simp add: a test_reads_block [where bs = bs and q = p] bnd_simps)
    next
      case False
      with r' Some pb t obtain blk st1 q b b' where
        cow: "(if 1 < ref_count pb then bitset_block_realloc B st ap ?i else Inr (OK, Some p, st))
               = Inr (OK, blk, st1)"
        and q: "blk = Some q" "block_heap st1 q = Some b" "bitset_block_clr_bit b ?x = Inr b'"
          "st' = put_block st1 q b'"
        by (auto simp: get_block_def bnd_simps bnd_Inr_iff get_block_cases
            split: if_splits option.splits)
      have "\<exists>bs1. bitset_heap st1 ap = Some bs1 \<and> bitcount bs1 = bitcount bs
            \<and> block_count bs1 = block_count bs \<and> get_slot st1 ap ?i = Inr (Some q)"
      proof (cases "1 < ref_count pb")
        case True
        with cow realloc_stage [OF b bs, of B ?i blk st1] q show ?thesis by auto
      next
        case False
        with cow q bs g Some show ?thesis by auto
      qed
      then obtain bs1 where
        "bitset_heap st1 ap = Some bs1" "bitcount bs1 = bitcount bs"
        "block_count bs1 = block_count bs" "get_slot st1 ap ?i = Inr (Some q)"
        by auto
      with rng cnt q test_after_clr [OF q(3)] show ?thesis
        by (simp add: a test_reads_block_put [where bs = bs1] bnd_simps)
    qed
  qed
qed

lemma test_bit_ints: "ints b = ints c \<Longrightarrow> bitset_block_test_bit b x = bitset_block_test_bit c x"
  by (simp add: bitset_block_test_bit_def Let_def)

lemma write_bit_OK:
  assumes "bnd m (\<lambda>(ret, blk, s1).
             if ret \<noteq> OK then Inr (ret, s1)
             else case blk of None \<Rightarrow> Inl e
                  | Some q \<Rightarrow>
                      bnd (get_block s1 q) (\<lambda>b.
                      bnd (F b) (\<lambda>b'. Inr (OK, put_block s1 q b')))) = Inr (OK, st')"
  shows "\<exists>s1 q b b'. m = Inr (OK, Some q, s1) \<and> block_heap s1 q = Some b \<and> F b = Inr b'
           \<and> st' = put_block s1 q b'"
proof (cases m)
  case (Inl f)
  with assms show ?thesis by (simp add: bnd_simps)
next
  case (Inr x)
  obtain ret blk s1 where x: "x = (ret, blk, s1)" by (cases x)
  with assms Inr show ?thesis
    by (cases blk) (auto simp: bnd_simps bnd_Inr_iff get_block_cases split: if_splits)
qed

lemma test_bit_zero:
  assumes "bitset_block_toggle_bit \<lparr>ref_count = r, set_count = s, ints = replicate B 0\<rparr> x = Inr b'"
  shows "bitset_block_test_bit \<lparr>ref_count = r, set_count = s, ints = replicate B 0\<rparr> x = Inr 0"
  using assms
  by (auto simp: bitset_block_toggle_bit_def bitset_block_test_bit_def Let_def split: if_splits)

section \<open>A failed copy-on-write\<close>

lemma get_slot_same: "bitset_heap st' = bitset_heap st \<Longrightarrow> get_slot st' a i = get_slot st a i"
  by (simp add: get_slot_def)

lemma get_slot_put_block [simp]: "get_slot (put_block st q b) a i = get_slot st a i"
  by (simp add: get_slot_def put_block_def)



lemma write_bit_ERRMEM:
  assumes "bnd m (\<lambda>(ret, blk, s1).
             if ret \<noteq> OK then Inr (ret, s1)
             else case blk of None \<Rightarrow> Inl e
                  | Some q \<Rightarrow>
                      bnd (get_block s1 q) (\<lambda>b.
                      bnd (F b) (\<lambda>b'. Inr (OK, put_block s1 q b')))) = Inr (ERRMEM, st')"
  shows "\<exists>blk. m = Inr (ERRMEM, blk, st')"
proof (cases m)
  case (Inl f)
  with assms show ?thesis by (simp add: bnd_simps)
next
  case (Inr x)
  obtain ret blk s1 where x: "x = (ret, blk, s1)" by (cases x)
  with assms Inr show ?thesis
    by (cases blk) (auto simp: bnd_simps bnd_Inr_iff split: if_splits)
qed






subsection \<open>The in-place binary operations\<close>

lemma slot_update_frame:
  assumes bs: "bitset_heap st a = Some bs" "blocks bs = Some xs" and j: "0 \<le> j"
    and h: "bitset_heap st' = (bitset_heap st)(a \<mapsto> bs\<lparr>blocks := Some (xs[nat j := v])\<rparr>)"
    and ne: "i \<noteq> j"
  shows "get_slot st' a' i = get_slot st a' i"
proof (cases "a' = a")
  case False
  then show ?thesis by (simp add: get_slot_def h)
next
  case True
  show ?thesis
  proof (cases "0 \<le> i")
    case False
    then show ?thesis by (simp add: get_slot_def h bs True)
  next
    case i: True
    with j ne have "nat i \<noteq> nat j" by simp
    then show ?thesis by (simp add: get_slot_def h bs True)
  qed
qed

lemma set_slot_frame:
  assumes "set_slot st a j v = Inr st'" and "i \<noteq> j"
  shows "get_slot st' a' i = get_slot st a' i"
  using set_slot_cases [OF assms(1)] slot_update_frame [OF _ _ _ _ assms(2)] by blast

lemma realloc_frame:
  assumes b: "bounded st" and r: "bitset_block_realloc B st a j = Inr (ret, blk, st')" and "i \<noteq> j"
  shows "get_slot st' a' i = get_slot st a' i"
  using block_realloc_cases [OF r b] slot_update_frame [OF _ _ _ _ assms(3)] by blast

lemma cow_then_frame:
  assumes b: "bounded st" and r: "cow_then B f st a c j p = Inr (ret, st')" and "i \<noteq> int j"
  shows "get_slot st' a i = get_slot st a i"
proof -
  have "post (cow_then B f st a c j p) (\<lambda>(ret, st'). get_slot st' a i = get_slot st a i)"
    unfolding cow_then_def
    apply (intro post_intros)
     apply (auto simp: bnd_Inr_iff split: if_splits dest!: realloc_frame [OF b _ assms(3), of B a])
    done
  with r show ?thesis by (simp add: post_def)
qed

lemma incref_frame: "bitset_block_incref st q = Inr st' \<Longrightarrow> get_slot st' a i = get_slot st a i"
  using incref_cases [of st q st'] by (auto intro: get_slot_same)


lemma or_slot_frame:
  assumes b: "bounded st" and r: "or_slot B st a c j = Inr (ret, st')" and ne: "i \<noteq> int j"
  shows "get_slot st' a i = get_slot st a i"
proof -
  have "post (or_slot B st a c j) (\<lambda>(ret, st'). get_slot st' a i = get_slot st a i)"
    unfolding or_slot_def
    apply (intro post_intros)
         apply (auto simp: post_def split: sum.splits
        dest!: cow_then_frame [OF b _ ne] set_slot_frame [OF _ ne, of _ a _ _ a] incref_frame [of _ _ _ a i])
    done
  with r show ?thesis by (simp add: post_def)
qed





section \<open>Union shares blocks, writes copy them\<close>

text \<open>\<^verbatim>\<open>bitset_test_bit\<close> reads the record of the bitset and the words of the blocks it holds.\<close>

lemma test_cong:
  assumes h: "bitset_heap st2 b = bitset_heap st1 b"
    and w: "\<And>k q. get_slot st1 b k = Inr (Some q)
               \<Longrightarrow> map_option ints (block_heap st2 q) = map_option ints (block_heap st1 q)"
  shows "bitset_test_bit B st2 (Some b) j v = bitset_test_bit B st1 (Some b) j v"
proof (cases "bitset_heap st1 b")
  case None
  with h show ?thesis by (simp add: bitset_test_bit_def get_bitset_def bnd_simps)
next
  case (Some bs)
  let ?i = "j div IDSPERBLOCK B"
  have g: "get_slot st2 b ?i = get_slot st1 b ?i"
    using h by (simp add: get_slot_def)
  show ?thesis
  proof (cases "get_slot st1 b ?i")
    case (Inl e)
    with g h Some show ?thesis
      by (simp add: bitset_test_bit_def get_bitset_def bnd_simps Let_def)
  next
    case (Inr slot)
    show ?thesis
    proof (cases slot)
      case None
      with Inr g h Some show ?thesis
        by (simp add: bitset_test_bit_def get_bitset_def bnd_simps Let_def)
    next
      case (Some q)
      note wq = w [OF Inr [unfolded Some]]
      have rd: "bnd (get_block st2 q) (\<lambda>pb. bnd (bitset_block_test_bit pb x) f)
          = bnd (get_block st1 q) (\<lambda>pb. bnd (bitset_block_test_bit pb x) f)" for x f
      proof (cases "block_heap st1 q")
        case None
        with wq show ?thesis by (simp add: get_block_def)
      next
        case (Some pb)
        with wq obtain pb2 where pb2: "block_heap st2 q = Some pb2" "ints pb2 = ints pb"
          by auto
        from test_bit_ints [OF pb2(2), of x] Some pb2 show ?thesis
          by (simp add: get_block_def bnd_simps)
      qed
      from Inr Some g h \<open>bitset_heap st1 b = Some bs\<close> show ?thesis
        by (simp add: bitset_test_bit_def get_bitset_def bnd_simps Let_def rd)
    qed
  qed
qed

text \<open>A block held by two bitsets has a reference count of at least 2.\<close>

lemma shared_refs:
  assumes inv: "heap_inv st" and ne: "a \<noteq> b"
    and a: "get_slot st a i = Inr (Some q)" and b: "get_slot st b k = Inr (Some q)"
  shows "\<exists>qb. block_heap st q = Some qb \<and> 1 < ref_count qb"
proof -
  note bd = heap_inv_boundedD [OF inv]
  from get_slot_cases [OF a] obtain sa xs where
    sa: "bitset_heap st a = Some sa" "blocks sa = Some xs" "nat i < length xs" "xs ! nat i = Some q"
    by auto
  from get_slot_cases [OF b] obtain sb ys where
    sb: "bitset_heap st b = Some sb" "blocks sb = Some ys" "nat k < length ys" "ys ! nat k = Some q"
    by auto
  let ?f = "\<lambda>p. holds (bitset_heap st p) q"
  have "sum ?f {a, b} \<le> sum ?f {..<next_ptr st}"
    using bounded_bitset [OF bd sa(1)] bounded_bitset [OF bd sb(1)]
    by (intro sum_mono2) auto
  with ne holds_pos [OF sa(2,3,4)] holds_pos [OF sb(2,3,4)] sa(1) sb(1)
  have "2 \<le> refs st q" by (simp add: refs_def)
  moreover from held_block_live [OF inv sa] obtain qb where
    "block_heap st q = Some qb" "ref_count qb = int (refs st q)" by blast
  ultimately show ?thesis by auto
qed

lemma or_slot_shares:
  assumes inv: "heap_inv st" and a: "get_slot st a (int i) = Inr None"
    and b: "get_slot st b (int i) = Inr (Some q)"
  shows "\<exists>st1 qb. or_slot B st a b i = Inr (OK, st1) \<and> block_heap st q = Some qb
           \<and> get_slot st1 a (int i) = Inr (Some q) \<and> get_slot st1 b (int i) = Inr (Some q)
           \<and> block_heap st1 = (block_heap st)(q \<mapsto> qb\<lparr>ref_count := ref_count qb + 1\<rparr>)
           \<and> next_ptr st1 = next_ptr st \<and> block_allocs st1 = block_allocs st
           \<and> block_mem st1 = block_mem st"
proof -
  from get_slot_cases [OF a] obtain sa xs where
    sa: "bitset_heap st a = Some sa" "blocks sa = Some xs" "i < length xs" "xs ! i = None"
    by auto
  from get_slot_cases [OF b] obtain sb ys where
    sb: "bitset_heap st b = Some sb" "blocks sb = Some ys" "i < length ys" "ys ! i = Some q"
    by auto
  from sa sb have ne: "a \<noteq> b" by auto
  from held_block_live [OF inv sb] obtain qb where qb: "block_heap st q = Some qb" by blast
  let ?s1 = "st\<lparr>bitset_heap := (bitset_heap st)(a \<mapsto> sa\<lparr>blocks := Some (xs[i := Some q])\<rparr>)\<rparr>"
  let ?s2 = "put_block ?s1 q (qb\<lparr>ref_count := ref_count qb + 1\<rparr>)"
  have 1: "set_slot st a (int i) (Some q) = Inr ?s1"
    using sa by (simp add: set_slot_def)
  have 2: "bitset_block_incref ?s1 q = Inr ?s2"
    using qb by (simp add: bitset_block_incref_def get_block_def bnd_simps)
  have "or_slot B st a b i = Inr (OK, ?s2)"
    using a b 1 2 by (simp add: or_slot_def bnd_simps)
  moreover have "get_slot ?s2 a (int i) = Inr (Some q)" "get_slot ?s2 b (int i) = Inr (Some q)"
    using sa sb ne by (simp_all add: get_slot_def put_block_def)
  ultimately show ?thesis using qb by (simp add: put_block_def)
qed

lemma set_ERRINPUT: "bitset_set B st a bt = Inr (ERRINPUT, st') \<Longrightarrow> st' = st"
proof -
  assume r: "bitset_set B st a bt = Inr (ERRINPUT, st')"
  have "post (bitset_set B st a bt) (\<lambda>(ret, st'). ret = ERRINPUT \<longrightarrow> st' = st)"
    unfolding bitset_set_def Let_def
    apply (intro post_intros)
          apply (auto dest!: block_alloc_cases)
     apply (auto split: if_splits simp: bitset_block_realloc_def bnd_Inr_iff bitset_block_new_def
        split: prod.splits option.splits)
    done
  with r show ?thesis by (simp add: post_def)
qed

text \<open>
  Setting a bit of \<open>a\<close> in a block that \<open>a\<close> shares with \<open>b\<close>: all tests of \<open>b\<close> and the words
  of the shared block stay as they are, and a bit that was 0 is set in a new block.
\<close>

lemma set_shared:
  assumes inv: "heap_inv st1" and ne: "a \<noteq> b"
    and sa: "get_slot st1 a (bt div IDSPERBLOCK B) = Inr (Some q)"
    and sb: "get_slot st1 b k = Inr (Some q)"
    and r: "bitset_set B st1 (Some a) bt = Inr (ret, st2)"
  shows "(\<forall>j v. bitset_test_bit B st2 (Some b) j v = bitset_test_bit B st1 (Some b) j v)
       \<and> map_option ints (block_heap st2 q) = map_option ints (block_heap st1 q)
       \<and> (ret = OK \<and> bitset_test_bit B st1 (Some a) bt (Some 0) = Inr (OK, Some 0)
            \<longrightarrow> get_slot st2 a (bt div IDSPERBLOCK B) = Inr (Some (next_ptr st1))
              \<and> block_heap st1 (next_ptr st1) = None
              \<and> map_option ref_count (block_heap st2 (next_ptr st1)) = Some 1)"
proof (cases "ret = ERRINPUT")
  case True
  with r set_ERRINPUT [of B st1 "Some a" bt st2] show ?thesis by simp
next
  case False
  let ?i = "bt div IDSPERBLOCK B" and ?x = "bt mod IDSPERBLOCK B"
  note bd = heap_inv_boundedD [OF inv]
  from set_checks [OF r False] sa obtain bs where
    bs: "bitset_heap st1 a = Some bs" and rng: "0 \<le> bt" "bt < bitcount bs"
    and cnt: "?i < block_count bs"
    by auto
  note r' = r [unfolded bitset_set_unfold [OF bs rng cnt sa]]
  from shared_refs [OF inv ne sa sb] obtain pb where
    pb: "block_heap st1 q = Some pb" "1 < ref_count pb" by blast
  from r' pb obtain t where t: "bitset_block_test_bit pb ?x = Inr t"
    by (auto simp: bnd_Inr_iff get_block_cases)
  note rd = test_reads_block [OF bs rng cnt sa pb(1), of 0]
  show ?thesis
  proof (cases "t = 0")
    case False
    with r' pb t have "st2 = st1" by (simp add: get_block_def bnd_simps)
    with rd t False show ?thesis by (simp add: bnd_simps)
  next
    case True
    with r' pb t have tail:
      "bnd (bitset_block_realloc B st1 a ?i) (\<lambda>(ret, blk, s1).
          if ret \<noteq> OK then Inr (ret, s1)
          else case blk of None \<Rightarrow> Inl BadAccess
               | Some q \<Rightarrow>
                   bnd (get_block s1 q) (\<lambda>b.
                   bnd (bitset_block_set_bit b ?x) (\<lambda>b'.
                   Inr (OK, put_block s1 q b')))) = Inr (ret, st2)"
      by (simp add: get_block_def bnd_simps)
    then obtain ret1 blk s1 where re: "bitset_block_realloc B st1 a ?i = Inr (ret1, blk, s1)"
      by (cases "bitset_block_realloc B st1 a ?i") (auto simp: bnd_simps)
    from block_realloc_cases [OF re bd] bs sa pb obtain xs where
      xs: "blocks bs = Some xs"
      and alt: "ret1 = ERRMEM \<and> next_ptr s1 = next_ptr st1
              \<and> block_heap s1 = (block_heap st1)(q \<mapsto> pb\<lparr>ref_count := ref_count pb - 1\<rparr>)
              \<and> bitset_heap s1 = (bitset_heap st1)(a \<mapsto> bs\<lparr>blocks := Some (xs[nat ?i := None])\<rparr>)
            \<or> ret1 = OK \<and> blk = Some (next_ptr st1) \<and> next_ptr s1 = Suc (next_ptr st1)
              \<and> block_heap s1 = (block_heap st1)
                   (q \<mapsto> pb\<lparr>ref_count := ref_count pb - 1\<rparr>,
                    next_ptr st1 \<mapsto> \<lparr>ref_count = 1, set_count = set_count pb, ints = ints pb\<rparr>)
              \<and> bitset_heap s1 = (bitset_heap st1)(a \<mapsto> bs\<lparr>blocks := Some (xs[nat ?i := Some (next_ptr st1)])\<rparr>)"
      by (auto simp: get_slot_def)
    from bounded_block [OF bd pb(1)] have fresh: "q \<noteq> next_ptr st1" by simp
    have none: "block_heap st1 (next_ptr st1) = None"
      using bd by (simp add: bounded_def)
    have live: "q' \<noteq> next_ptr st1" if "get_slot st1 b k' = Inr (Some q')" for k' q'
    proof -
      from get_slot_cases [OF that] obtain sb ys where
        "bitset_heap st1 b = Some sb" "blocks sb = Some ys" "nat k' < length ys" "ys ! nat k' = Some q'"
        by auto
      from held_block_live [OF inv this] none show ?thesis by auto
    qed
    from alt show ?thesis
    proof (elim disjE conjE)
      assume e: "ret1 = ERRMEM"
        and bh: "block_heap s1 = (block_heap st1)(q \<mapsto> pb\<lparr>ref_count := ref_count pb - 1\<rparr>)"
        and h: "bitset_heap s1 = (bitset_heap st1)(a \<mapsto> bs\<lparr>blocks := Some (xs[nat ?i := None])\<rparr>)"
      from tail re e have st2: "st2 = s1" "ret = ERRMEM" by (simp_all add: bnd_simps)
      have "bitset_test_bit B st2 (Some b) j v = bitset_test_bit B st1 (Some b) j v" for j v
        by (rule test_cong) (use ne pb in \<open>auto simp: st2 bh h\<close>)
      with pb show ?thesis by (simp add: st2 bh)
    next
      assume e: "ret1 = OK" "blk = Some (next_ptr st1)"
        and bh: "block_heap s1 = (block_heap st1)
                   (q \<mapsto> pb\<lparr>ref_count := ref_count pb - 1\<rparr>,
                    next_ptr st1 \<mapsto> \<lparr>ref_count = 1, set_count = set_count pb, ints = ints pb\<rparr>)"
        and h: "bitset_heap s1 = (bitset_heap st1)(a \<mapsto> bs\<lparr>blocks := Some (xs[nat ?i := Some (next_ptr st1)])\<rparr>)"
      from tail re e bh obtain b' where
        b': "bitset_block_set_bit \<lparr>ref_count = 1, set_count = set_count pb, ints = ints pb\<rparr> ?x = Inr b'"
        and st2: "st2 = put_block s1 (next_ptr st1) b'" "ret = OK"
        by (auto simp: bnd_simps bnd_Inr_iff get_block_cases)
      have "bitset_test_bit B st2 (Some b) j v = bitset_test_bit B st1 (Some b) j v" for j v
        by (rule test_cong) (use ne pb live in \<open>auto simp: st2 bh h put_block_def\<close>)
      moreover have "get_slot st2 a ?i = Inr (Some (next_ptr st1))"
        using get_slot_cases [OF sa] bs xs by (simp add: st2 h get_slot_def put_block_def)
      moreover from set_bit_rc [OF b'] have "ref_count b' = 1" by simp
      ultimately show ?thesis
        using pb fresh none by (simp add: st2 bh put_block_def)
    qed
  qed
qed

lemma binary_op_loop_count:
  assumes r: "binary_op body st (Some ap) (Some bp) = Inr (ret, st')" and ret: "ret \<noteq> ERRINPUT"
  shows "\<exists>sa. bitset_heap st ap = Some sa
          \<and> slot_loop (\<lambda>s. body s ap bp) st [0..<nat (block_count sa)] = Inr (ret, st')"
proof (cases "bitset_heap st ap")
  case None
  with r show ?thesis by (simp add: binary_op_def get_bitset_def bnd_simps)
next
  case sa: (Some sa)
  show ?thesis
  proof (cases "get_bitset st (Some bp)")
    case (Inl e)
    with r sa show ?thesis by (simp add: binary_op_def get_bitset_def bnd_simps)
  next
    case sb: (Inr sb)
    show ?thesis
    proof (cases "bitcount sa = bitcount sb \<and> block_count sa = block_count sb")
      case True
      with r sa sb have
        "slot_loop (\<lambda>s. body s ap bp) st [0..<nat (block_count sa)] = Inr (ret, st')"
        by (simp add: binary_op_def get_bitset_def bnd_simps assert_def)
      with sa show ?thesis by blast
    next
      case False
      with r sa sb ret show ?thesis
        by (auto simp: binary_op_def get_bitset_def bnd_simps assert_def split: if_splits)
    qed
  qed
qed

text \<open>The loop body of \<^verbatim>\<open>bitset_or\<close> changes no bitset but \<open>a\<close>.\<close>

lemma set_slot_other: "set_slot st a j v = Inr st' \<Longrightarrow> a' \<noteq> a \<Longrightarrow> bitset_heap st' a' = bitset_heap st a'"
  using set_slot_cases [of st a j v st'] by auto

lemma realloc_other:
  "bounded st \<Longrightarrow> bitset_block_realloc B st a j = Inr (ret, blk, st') \<Longrightarrow> a' \<noteq> a
   \<Longrightarrow> bitset_heap st' a' = bitset_heap st a'"
  using block_realloc_cases [of B st a j ret blk st'] by auto

lemma incref_other: "bitset_block_incref st q = Inr st' \<Longrightarrow> bitset_heap st' = bitset_heap st"
  using incref_cases [of st q st'] by auto

lemma cow_then_other:
  assumes b: "bounded st" and r: "cow_then B f st a c j p = Inr (ret, st')" and ne: "a' \<noteq> a"
  shows "bitset_heap st' a' = bitset_heap st a'"
proof -
  have "post (cow_then B f st a c j p) (\<lambda>(ret, st'). bitset_heap st' a' = bitset_heap st a')"
    unfolding cow_then_def
    apply (intro post_intros)
     apply (auto simp: bnd_Inr_iff put_block_def split: if_splits dest!: realloc_other [OF b _ ne])
    done
  with r show ?thesis by (simp add: post_def)
qed

lemma or_slot_other:
  assumes b: "bounded st" and r: "or_slot B st a c j = Inr (ret, st')" and ne: "a' \<noteq> a"
  shows "bitset_heap st' a' = bitset_heap st a'"
proof -
  have "post (or_slot B st a c j) (\<lambda>(ret, st'). bitset_heap st' a' = bitset_heap st a')"
    unfolding or_slot_def
    apply (intro post_intros)
         apply (auto simp: post_def split: sum.splits
        dest!: cow_then_other [OF b _ ne] set_slot_other [OF _ ne] incref_other)
    done
  with r show ?thesis by (simp add: post_def)
qed

lemma or_loop_shares:
  assumes ne: "a \<noteq> b"
  shows "heap_inv st \<Longrightarrow> distinct is \<Longrightarrow> get_slot st b (int i) = Inr (Some q)
     \<Longrightarrow> get_slot st a (int i) = (if i \<in> set is then Inr None else Inr (Some q))
     \<Longrightarrow> slot_loop (\<lambda>s. or_slot B s a b) st is = Inr (OK, st')
     \<Longrightarrow> get_slot st' a (int i) = Inr (Some q) \<and> get_slot st' b (int i) = Inr (Some q)"
proof (induction "is" arbitrary: st)
  case Nil
  then show ?case by simp
next
  case (Cons j "is")
  note inv = Cons.prems(1)
  note bd = heap_inv_boundedD [OF inv]
  from Cons.prems(5) obtain s1 where body: "or_slot B st a b j = Inr (OK, s1)"
    and l: "slot_loop (\<lambda>s. or_slot B s a b) s1 is = Inr (OK, st')"
    by (cases "or_slot B st a b j") (auto split: if_splits)
  note inv1 = or_slot_inv [OF inv body]
  from or_slot_other [OF bd body, of b] ne Cons.prems(3)
  have b1: "get_slot s1 b (int i) = Inr (Some q)"
    by (simp add: get_slot_def)
  have a1: "get_slot s1 a (int i) = (if i \<in> set is then Inr None else Inr (Some q))"
  proof (cases "j = i")
    case True
    with Cons.prems(4) have "get_slot st a (int i) = Inr None" by simp
    from or_slot_shares [OF inv this Cons.prems(3), of B] body True Cons.prems(2)
    show ?thesis by auto
  next
    case False
    then have "int i \<noteq> int j" by simp
    from or_slot_frame [OF bd body this] Cons.prems(4) False show ?thesis by auto
  qed
  from Cons.IH [OF inv1 _ b1 a1 l] Cons.prems(2) show ?case by simp
qed

lemma or_shares:
  assumes inv: "heap_inv st" and a: "get_slot st a (int i) = Inr None"
    and b: "get_slot st b (int i) = Inr (Some q)"
    and r: "bitset_or B st (Some a) (Some b) = Inr (OK, st1)"
  shows "get_slot st1 a (int i) = Inr (Some q) \<and> get_slot st1 b (int i) = Inr (Some q)"
proof -
  from a b have ne: "a \<noteq> b" by auto
  from binary_op_loop_count [OF r [unfolded bitset_or_def]] obtain sa where
    sa: "bitset_heap st a = Some sa"
    and l: "slot_loop (\<lambda>s. or_slot B s a b) st [0..<nat (block_count sa)] = Inr (OK, st1)"
    by auto
  from get_slot_cases [OF a] sa obtain xs where xs: "blocks sa = Some xs" "i < length xs"
    by auto
  from shapedD [OF inv sa xs(1)] xs have i: "i \<in> set [0..<nat (block_count sa)]" by simp
  show ?thesis
    by (rule or_loop_shares [OF ne inv _ b _ l]) (use a i in simp_all)
qed

section \<open>All-zero blocks\<close>

subsection \<open>Counting the bits of a word\<close>

lemma popcountll_card: "popcountll w = int (card {n. n < 64 \<and> bit w n})"
proof -
  have "length (filter (bit w) [0..<64]) = card (set (filter (bit w) [0..<64]))"
    by (rule distinct_card [symmetric]) simp
  also have "set (filter (bit w) [0..<64]) = {n. n < 64 \<and> bit w n}" by auto
  finally show ?thesis by (simp add: popcountll_def)
qed

lemma popcountll_0: "popcountll 0 = 0"
  by (simp add: popcountll_card)

lemma popcountll_ones: "popcountll (- 1) = 64"
  by (simp add: popcountll_card)

lemma popcountll_not: "popcountll (NOT w) = 64 - popcountll w"
proof -
  let ?A = "{n. n < 64 \<and> bit w n}" and ?C = "{n. n < 64 \<and> bit (NOT w) n}"
  have "?A \<union> ?C = {..<64}" by (auto simp: bit_not_iff)
  moreover have "?A \<inter> ?C = {}" by (auto simp: bit_not_iff)
  moreover have "finite ?A" "finite ?C" by simp_all
  ultimately have "card ?A + card ?C = 64"
    by (metis card_Un_disjoint card_lessThan)
  then show ?thesis by (simp add: popcountll_card)
qed

lemma popcountll_set:
  assumes b: "b < 64" and z: "w AND push_bit b 1 = (0 :: 64 word)"
  shows "popcountll (w OR push_bit b 1) = popcountll w + 1"
proof -
  let ?A = "{n. n < 64 \<and> bit w n}"
  from z have "\<not> bit (w AND push_bit b 1) b" by simp
  with b have nb: "\<not> bit w b" by (simp add: bit_and_iff bit_push_bit_iff bit_exp_iff)
  have "{n. n < 64 \<and> bit (w OR push_bit b 1) n} = insert b ?A"
    using b by (auto simp: bit_or_iff bit_push_bit_iff bit_1_iff bit_exp_iff)
  moreover have "card (insert b ?A) = Suc (card ?A)"
    using nb by (intro card_insert_disjoint) simp_all
  ultimately show ?thesis by (simp add: popcountll_card)
qed

lemma or_mask_nonzero:
  assumes "b < 64"
  shows "w OR push_bit b 1 \<noteq> (0 :: 64 word)"
proof
  assume "w OR push_bit b 1 = 0"
  then have "(w OR push_bit b 1) AND push_bit b 1 = 0 AND push_bit b 1" by (rule arg_cong)
  with mask_set [OF assms, of w] show False by simp
qed

subsection \<open>What the block functions do to a tidy block\<close>

lemma tidy_block_cong:
  "ints c = ints b \<Longrightarrow> set_count c = set_count b \<Longrightarrow> tidy_block B c = tidy_block B b"
  by (simp add: tidy_block_def all_zero_def)

lemma tidy_block_rc [simp]: "tidy_block B (b\<lparr>ref_count := r\<rparr>) = tidy_block B b"
  by (simp add: tidy_block_def all_zero_def)

lemma sum_popcount_update:
  "n < length ws \<Longrightarrow>
   sum_list (map popcountll (ws[n := v])) = sum_list (map popcountll ws) - popcountll (ws ! n) + popcountll v"
proof (induction ws arbitrary: n)
  case Nil
  then show ?case by simp
next
  case (Cons w ws)
  then show ?case by (cases n) simp_all
qed

lemma set_bit_tidy:
  assumes s: "bitset_block_set_bit b x = Inr b'" and t: "bitset_block_test_bit b x = Inr 0"
    and len: "length (ints b) = B" and cnt: "set_count b = sum_list (map popcountll (ints b))"
  shows "tidy_block B b'"
proof -
  let ?n = "nat (x div 64)" and ?b = "nat (x mod 64)"
  from s have x: "0 \<le> x" and n: "?n < length (ints b)"
    and b': "b' = b\<lparr>ints := (ints b)[?n := (ints b ! ?n) OR push_bit ?b 1],
                     set_count := set_count b + 1\<rparr>"
    by (auto simp: bitset_block_set_bit_def Let_def split: if_splits)
  from t x n have z: "(ints b ! ?n) AND push_bit ?b 1 = 0"
    by (simp add: bitset_block_test_bit_def Let_def split: if_splits)
  have lt: "?b < 64" using x by (rule nat_mod_64)
  have "(ints b ! ?n) OR push_bit ?b 1 \<in> set (ints b')"
    using n by (simp add: b' set_update_memI)
  with or_mask_nonzero [OF lt] have nz: "\<not> all_zero b'"
    unfolding all_zero_def by blast
  have "set_count b' = sum_list (map popcountll (ints b'))"
    using n cnt popcountll_set [OF lt z] by (simp add: b' sum_popcount_update)
  with nz len show ?thesis by (simp add: tidy_block_def b')
qed

lemma zero_block_test:
  assumes "bitset_block_set_bit \<lparr>ref_count = r, set_count = s, ints = replicate B 0\<rparr> x = Inr b'"
  shows "bitset_block_test_bit \<lparr>ref_count = r, set_count = s, ints = replicate B 0\<rparr> x = Inr 0"
  using assms
  by (auto simp: bitset_block_set_bit_def bitset_block_test_bit_def Let_def split: if_splits)

lemma sum_popcount_zero: "sum_list (map popcountll (replicate n 0)) = 0"
  by (simp add: popcountll_0 sum_list_replicate)

lemma sum_popcount_ones: "sum_list (map popcountll (replicate n (- 1))) = 64 * int n"
  by (simp add: popcountll_ones sum_list_replicate)

lemma sum_popcount_not:
  "sum_list (map popcountll (map NOT ws)) = 64 * int (length ws) - sum_list (map popcountll ws)"
  by (induction ws) (simp_all add: popcountll_not)

lemma sum_popcount_full:
  "\<forall>w\<in>set ws. NOT w = 0 \<Longrightarrow> sum_list (map popcountll ws) = 64 * int (length ws)"
proof (induction ws)
  case Nil
  then show ?case by simp
next
  case (Cons w ws)
  from Cons.prems have "NOT w = 0" by simp
  then have "NOT (NOT w) = NOT 0" by (rule arg_cong)
  then have "w = - 1" by simp
  with Cons show ?case by (simp add: popcountll_ones)
qed

lemma new_block_set_tidy:
  assumes "bitset_block_set_bit \<lparr>ref_count = r, set_count = 0, ints = replicate B 0\<rparr> x = Inr b'"
  shows "tidy_block B b'"
  by (rule set_bit_tidy [OF assms zero_block_test [OF assms]])
    (simp_all add: popcountll_0 sum_list_replicate)

lemma ones_block_tidy:
  "0 < B \<Longrightarrow> tidy_block B \<lparr>ref_count = r, set_count = IDSPERBLOCK B, ints = replicate B (- 1)\<rparr>"
  by (simp add: tidy_block_def all_zero_def popcountll_ones sum_list_replicate IDSPERBLOCK_def)

lemma map_nth_full: "length xs = B \<Longrightarrow> map (\<lambda>i. f (xs ! i)) [0..<B] = map f xs"
  by (auto simp: list_eq_iff_nth_eq)

lemma block_or_tidy:
  assumes r: "bitset_block_or B x y = Inr x'" and t: "tidy_block B x"
  shows "tidy_block B x'"
proof -
  let ?ws = "map (\<lambda>i. (ints x ! i) OR (ints y ! i)) [0..<B]"
  from t have len: "length (ints x) = B" by (simp add: tidy_block_def)
  from r len have x': "x' = x\<lparr>ints := ?ws, set_count := sum_list (map popcountll ?ws)\<rparr>"
    by (auto simp: bitset_block_or_def word_loop_def bnd_Inr_iff Let_def split: if_splits)
  from t obtain w where "w \<in> set (ints x)" "w \<noteq> 0"
    by (auto simp: tidy_block_def all_zero_def)
  then obtain i where i: "i < B" "ints x ! i \<noteq> 0"
    using len by (auto simp: in_set_conv_nth)
  then have nz: "(ints x ! i) OR (ints y ! i) \<noteq> 0" by (simp add: or_eq_0_iff)
  from i have "?ws ! i \<in> set ?ws" by (intro nth_mem) simp
  with i have "(ints x ! i) OR (ints y ! i) \<in> set (ints x')" by (simp add: x')
  with nz have "\<not> all_zero x'" unfolding all_zero_def by blast
  then show ?thesis by (simp add: tidy_block_def x')
qed

lemma block_invert_tidy:
  assumes r: "bitset_block_invert B x = Inr x'" and t: "tidy_block B x"
    and nf: "set_count x \<noteq> 64 * int B"
  shows "tidy_block B x'"
proof -
  from t have len: "length (ints x) = B"
    and cnt: "set_count x = sum_list (map popcountll (ints x))"
    by (simp_all add: tidy_block_def)
  from r len have x': "x' = x\<lparr>ints := map NOT (ints x), set_count := IDSPERBLOCK B - set_count x\<rparr>"
    by (auto simp: bitset_block_invert_def bnd_Inr_iff map_nth_full split: if_splits)
  have "\<not> (\<forall>w\<in>set (ints x). NOT w = 0)"
    using sum_popcount_full [of "ints x"] nf cnt len by auto
  then have "\<not> all_zero x'" by (simp add: all_zero_def x')
  then show ?thesis
    using sum_popcount_not [of "ints x"]
    by (simp add: tidy_block_def x' cnt len IDSPERBLOCK_def comp_def)
qed

subsection \<open>The memory primitives and \<^verbatim>\<open>bitset_set\<close>\<close>

lemma tidy_same: "tidy B st \<Longrightarrow> block_heap st' = block_heap st \<Longrightarrow> tidy B st'"
  by (simp add: tidy_def)

lemma tidy_upd:
  "tidy B st \<Longrightarrow> block_heap st' = (block_heap st)(q := v)
   \<Longrightarrow> (\<And>b. v = Some b \<Longrightarrow> tidy_block B b) \<Longrightarrow> tidy B st'"
  by (simp add: tidy_def)

lemma tidy_put: "tidy B st \<Longrightarrow> tidy_block B b \<Longrightarrow> tidy B (put_block st q b)"
  by (simp add: tidy_def put_block_def)

lemma tidyD: "tidy B st \<Longrightarrow> block_heap st q = Some b \<Longrightarrow> tidy_block B b"
  by (simp add: tidy_def)

lemma tidy_bitset_heap [simp]: "tidy B (st\<lparr>bitset_heap := h\<rparr>) = tidy B st"
  by (simp add: tidy_def)

lemma tidy_block_allocs [simp]: "tidy B (st\<lparr>block_allocs := n\<rparr>) = tidy B st"
  by (simp add: tidy_def)

lemma tidy_block_mem [simp]: "tidy B (st\<lparr>block_mem := n\<rparr>) = tidy B st"
  by (simp add: tidy_def)

lemma malloc_tidy: "tidy B st \<Longrightarrow> malloc st sz = (r, st1) \<Longrightarrow> tidy B st1"
  using malloc_cases [of st sz r st1] by (auto intro: tidy_same)

lemma set_slot_tidy: "tidy B st \<Longrightarrow> set_slot st a i v = Inr st1 \<Longrightarrow> tidy B st1"
  using set_slot_cases [of st a i v st1] by (auto intro: tidy_same)

lemma incref_tidy:
  assumes t: "tidy B st" and r: "bitset_block_incref st q = Inr st1"
  shows "tidy B st1"
proof -
  from incref_cases [OF r] obtain b where b: "block_heap st q = Some b"
    and h: "block_heap st1 = (block_heap st)(q \<mapsto> b\<lparr>ref_count := ref_count b + 1\<rparr>)"
    by blast
  from tidyD [OF t b] show ?thesis by (intro tidy_upd [OF t h]) auto
qed

lemma decref_tidy:
  assumes t: "tidy B st" and r: "bitset_block_decref st q = Inr st1"
  shows "tidy B st1"
proof -
  from decref_cases [OF r] obtain b where b: "block_heap st q = Some b"
    and h: "block_heap st1 = (block_heap st)(q := if ref_count b = 1 then None
                                                    else Some (b\<lparr>ref_count := ref_count b - 1\<rparr>))"
    by blast
  from tidyD [OF t b] show ?thesis by (intro tidy_upd [OF t h]) (auto split: if_splits)
qed

lemma block_alloc_tidy:
  assumes t: "tidy B st" and r: "bitset_block_alloc B st a i = Inr (ret, blk, st1)"
  shows "if ret = OK
         then \<exists>q. blk = Some q
                \<and> block_heap st1 q = Some \<lparr>ref_count = 1, set_count = 0, ints = replicate B 0\<rparr>
                \<and> (\<forall>b. tidy_block B b \<longrightarrow> tidy B (put_block st1 q b))
         else tidy B st1"
  using block_alloc_cases [OF r] t by (auto simp: tidy_def put_block_def)

lemma realloc_tidy:
  assumes b: "bounded st" and t: "tidy B st"
    and r: "bitset_block_realloc B st a i = Inr (ret, blk, st1)"
  shows "tidy B st1"
proof -
  from block_realloc_cases [OF r b] obtain orig ob where
    ob: "block_heap st orig = Some ob"
    and h: "block_heap st1 = (block_heap st)(orig \<mapsto> ob\<lparr>ref_count := ref_count ob - 1\<rparr>)
          \<or> block_heap st1 = (block_heap st)
                 (orig \<mapsto> ob\<lparr>ref_count := ref_count ob - 1\<rparr>,
                  next_ptr st \<mapsto> \<lparr>ref_count = 1, set_count = set_count ob, ints = ints ob\<rparr>)"
    by blast
  from tidyD [OF t ob] have 1: "tidy_block B ob" .
  then have 2: "tidy_block B \<lparr>ref_count = 1, set_count = set_count ob, ints = ints ob\<rparr>"
    by (simp add: tidy_block_def all_zero_def)
  from h t 1 2 show ?thesis by (auto simp: tidy_def split: if_splits)
qed

text \<open>The block a bit is written to, after the copy of a shared block.\<close>

lemma cow_choice_tidy:
  assumes inv: "heap_inv st" and t: "tidy B st" and pb: "block_heap st p = Some pb"
    and g: "get_slot st a i = Inr (Some p)"
    and r: "(if 1 < ref_count pb then bitset_block_realloc B st a i else Inr (OK, Some p, st))
            = Inr (ret, blk, st1)"
  shows "tidy B st1
       \<and> (ret = OK \<longrightarrow> (\<exists>q b. blk = Some q \<and> block_heap st1 q = Some b \<and> ints b = ints pb
                            \<and> set_count b = set_count pb))"
proof (cases "1 < ref_count pb")
  case False
  with r pb t show ?thesis by auto
next
  case True
  note b = heap_inv_boundedD [OF inv]
  from True r have re: "bitset_block_realloc B st a i = Inr (ret, blk, st1)" by simp
  from block_realloc_cases [OF re b] g pb realloc_tidy [OF b t re] show ?thesis
    by (auto simp: get_slot_def)
qed

lemma bitset_set_tidy:
  assumes inv: "heap_inv st" and t: "tidy B st" and r: "bitset_set B st a bt = Inr (ret, st')"
  shows "tidy B st'"
proof (cases "ret = ERRINPUT")
  case True
  with r set_ERRINPUT [of B st a bt st'] t show ?thesis by simp
next
  case False
  let ?i = "bt div IDSPERBLOCK B" and ?x = "bt mod IDSPERBLOCK B"
  from set_checks [OF r False] obtain ap bs slot where a: "a = Some ap"
    and bs: "bitset_heap st ap = Some bs" and rng: "0 \<le> bt" "bt < bitcount bs"
    and cnt: "?i < block_count bs" and g: "get_slot st ap ?i = Inr slot"
    by auto
  note r' = r [unfolded a bitset_set_unfold [OF bs rng cnt g]]
  show ?thesis
  proof (cases slot)
    case None
    show ?thesis
    proof (cases ret)
      case OK
      from write_bit_OK [OF r' [unfolded None option.case OK]] obtain s1 q b b' where
        al: "bitset_block_alloc B st ap ?i = Inr (OK, Some q, s1)"
        and q: "block_heap s1 q = Some b" "bitset_block_set_bit b ?x = Inr b'"
          "st' = put_block s1 q b'"
        by blast
      from block_alloc_tidy [OF t al] q(1) have
        b: "b = \<lparr>ref_count = 1, set_count = 0, ints = replicate B 0\<rparr>"
        and put: "\<And>c. tidy_block B c \<Longrightarrow> tidy B (put_block s1 q c)"
        by auto
      from new_block_set_tidy [OF q(2) [unfolded b]] put q(3) show ?thesis by simp
    next
      case ERRMEM
      from write_bit_ERRMEM [OF r' [unfolded None option.case ERRMEM]] obtain blk where
        "bitset_block_alloc B st ap ?i = Inr (ERRMEM, blk, st')"
        by blast
      from block_alloc_tidy [OF t this] show ?thesis by simp
    qed (use False in simp)
  next
    case (Some p)
    with r' obtain pb tb where pb: "block_heap st p = Some pb"
      and tb: "bitset_block_test_bit pb ?x = Inr tb"
      by (auto simp: bnd_Inr_iff get_block_cases)
    show ?thesis
    proof (cases "tb = 0")
      case False
      with r' Some pb tb have "st' = st" by (simp add: get_block_def bnd_simps)
      with t show ?thesis by simp
    next
      case True
      from pb have gp: "get_block st p = Inr pb" by (simp add: get_block_def)
      from r' have r'':
        "bnd (if 1 < ref_count pb then bitset_block_realloc B st ap ?i else Inr (OK, Some p, st))
           (\<lambda>(ret, blk, st1).
              if ret \<noteq> OK then Inr (ret, st1)
              else case blk of None \<Rightarrow> Inl BadAccess
                   | Some q \<Rightarrow>
                       bnd (get_block st1 q) (\<lambda>b.
                       bnd (bitset_block_set_bit b ?x) (\<lambda>b'.
                       Inr (OK, put_block st1 q b')))) = Inr (ret, st')"
        by (simp add: Some gp tb True bnd_simps)
      note g' = g [unfolded Some]
      show ?thesis
      proof (cases ret)
        case OK
        from write_bit_OK [OF r'' [unfolded OK]] obtain s1 q b b' where
          cow: "(if 1 < ref_count pb then bitset_block_realloc B st ap ?i else Inr (OK, Some p, st))
                 = Inr (OK, Some q, s1)"
          and q: "block_heap s1 q = Some b" "bitset_block_set_bit b ?x = Inr b'"
            "st' = put_block s1 q b'"
          by blast
        from cow_choice_tidy [OF inv t pb g' cow] q(1) have t1: "tidy B s1"
          and same: "ints b = ints pb" "set_count b = set_count pb"
          by auto
        from tidyD [OF t pb] same have "length (ints b) = B"
          "set_count b = sum_list (map popcountll (ints b))"
          by (simp_all add: tidy_block_def)
        moreover from tb True same have "bitset_block_test_bit b ?x = Inr 0"
          by (simp add: test_bit_ints [of b pb])
        ultimately have "tidy_block B b'" by (intro set_bit_tidy [OF q(2)])
        with t1 q(3) show ?thesis by (simp add: tidy_put)
      next
        case ERRMEM
        from write_bit_ERRMEM [OF r'' [unfolded ERRMEM]] obtain blk where
          "(if 1 < ref_count pb then bitset_block_realloc B st ap ?i else Inr (OK, Some p, st))
             = Inr (ERRMEM, blk, st')"
          by blast
        from cow_choice_tidy [OF inv t pb g' this] show ?thesis by simp
      qed (use False in simp)
    qed
  qed
qed

subsection \<open>The loop bodies of \<^verbatim>\<open>bitset_or\<close> and \<^verbatim>\<open>bitset_invert\<close>\<close>

lemma post_conj: "post m P \<Longrightarrow> post m Q \<Longrightarrow> post m (\<lambda>x. P x \<and> Q x)"
  by (cases m) (simp_all add: post_def)

lemma cow_then_tidy:
  assumes inv: "heap_inv st" and t: "tidy B st"
    and F: "\<And>x y x'. f B x y = Inr x' \<Longrightarrow> tidy_block B x \<Longrightarrow> tidy_block B x'"
  shows "post (cow_then B f st a b i p) (\<lambda>(ret, st'). tidy B st')"
proof -
  note bd = heap_inv_boundedD [OF inv]
  have 1: "tidy B st1"
    if "(if c then bnd (bitset_block_realloc B st a (int i)) (\<lambda>(ret, _, st1). Inr (ret, st1))
         else Inr (OK, st)) = Inr (ret, st1)" for c ret st1
    using that t by (auto simp: bnd_Inr_iff split: if_splits intro: realloc_tidy [OF bd t])
  have 2: "tidy B (put_block st1 x xb')"
    if "(if c then bnd (bitset_block_realloc B st a (int i)) (\<lambda>(ret, _, st1). Inr (ret, st1))
         else Inr (OK, st)) = Inr (ret, st1)"
      and "get_block st1 x = Inr xb" and "f B xb yb = Inr xb'" for c ret st1 x xb yb xb'
    using tidyD [OF 1 [OF that(1)]] that(2,3) by (auto simp: get_block_cases intro: tidy_put [OF 1 [OF that(1)]] F)
  show ?thesis
    unfolding cow_then_def
    apply (intro post_intros)
     apply (auto intro: 1 2)
    done
qed

lemma or_slot_tidy:
  assumes inv: "heap_inv st" and t: "tidy B st"
  shows "post (or_slot B st a b i) (\<lambda>(ret, st'). tidy B st')"
  unfolding or_slot_def
  apply (intro post_intros)
       apply (auto intro: t incref_tidy [OF set_slot_tidy [OF t]]
      cow_then_tidy [OF inv t block_or_tidy])
  done

lemma block_new_put_tidy:
  assumes t: "tidy B st" and new: "bitset_block_new B st = (OK, Some blk, st1)"
    and nb: "tidy_block B nb"
  shows "tidy B (put_block st1 blk nb)"
  using block_new_cases [OF new] t nb by (auto simp: tidy_def put_block_def)

lemma block_new_fail_tidy:
  assumes t: "tidy B st" and new: "bitset_block_new B st = (ret, r, st1)" and "ret \<noteq> OK"
  shows "tidy B st1"
  using block_new_cases [OF new] t assms(3) by (auto simp: tidy_def)

lemma block_new_ret: "bitset_block_new B st = (ret, r, st1) \<Longrightarrow> ret = OK \<and> r \<noteq> None \<or> ret = ERRMEM \<and> r = None"
  using block_new_cases [of B st ret r st1] by auto

lemma invert_slot_tidy:
  assumes inv: "heap_inv st" and t: "tidy B st" and B: "0 < B"
  shows "post (invert_slot B st a i) (\<lambda>(ret, st'). tidy B st')"
proof -
  have 1: "post (case bitset_block_new B st of
            (OK, Some blk, st1) \<Rightarrow>
              bnd (set_slot
                     (put_block st1 blk \<lparr>ref_count = 1, set_count = IDSPERBLOCK B, ints = replicate B (- 1)\<rparr>)
                     a (int i) (Some blk)) (\<lambda>st2.
              Inr (OK, st2))
          | (ret, _, st1) \<Rightarrow> Inr (ret, st1)) (\<lambda>(ret, st'). tidy B st')"
  proof (cases "bitset_block_new B st")
    case (fields ret r st1)
    show ?thesis
    proof (cases "ret = OK")
      case True
      with block_new_ret [OF fields] obtain blk where r: "r = Some blk" by auto
      note new = fields [unfolded True r]
      from block_new_put_tidy [OF t new ones_block_tidy [OF B]] show ?thesis
        by (auto simp: new post_def bnd_Inr_iff intro: set_slot_tidy split: sum.splits)
    next
      case False
      with block_new_ret [OF fields] have "ret = ERRMEM" "r = None" by auto
      with block_new_fail_tidy [OF t fields False] fields show ?thesis
        by (simp add: post_def)
    qed
  qed
  have 2: "post (bnd (get_block st p) (\<lambda>pb.
           if set_count pb = 64 * int B
           then bnd (bitset_block_decref st p) (\<lambda>st1.
                bnd (set_slot st1 a (int i) None) (\<lambda>st2.
                Inr (OK, st2)))
           else bnd (bitset_block_invert B pb) (\<lambda>pb'. Inr (OK, put_block st p pb'))))
          (\<lambda>(ret, st'). tidy B st')" for p
    apply (intro post_intros)
     apply (auto simp: get_block_cases intro: set_slot_tidy [OF decref_tidy [OF t]]
        tidy_put [OF t] block_invert_tidy tidyD [OF t])
    done
  show ?thesis
    unfolding invert_slot_def
    by (intro post_bndI post_optionI 1 2)
qed

subsection \<open>Whole calls\<close>

lemma post_conj2:
  "post m (\<lambda>(r, s). P s) \<Longrightarrow> post m (\<lambda>(r, s). Q s) \<Longrightarrow> post m (\<lambda>(r, s). P s \<and> Q s)"
  by (cases m) (auto simp: post_def)

lemma or_slot_good:
  "heap_inv st \<and> tidy B st \<Longrightarrow> post (or_slot B st a b i) (\<lambda>(ret, st'). heap_inv st' \<and> tidy B st')"
  by (intro post_conj2 or_slot_post or_slot_tidy) simp_all

lemma invert_slot_good:
  "0 < B \<Longrightarrow> heap_inv st \<and> tidy B st
   \<Longrightarrow> post (invert_slot B st a i) (\<lambda>(ret, st'). heap_inv st' \<and> tidy B st')"
  by (intro post_conj2 invert_slot_post invert_slot_tidy) simp_all

lemma bitset_or_tidy:
  assumes inv: "heap_inv st" and t: "tidy B st" and r: "bitset_or B st a b = Inr (ret, st')"
  shows "tidy B st'"
proof -
  have loop: "post (slot_loop (\<lambda>s. or_slot B s ap bp) st is) (\<lambda>(ret, st'). heap_inv st' \<and> tidy B st')"
    for ap bp "is"
    by (rule slot_loop_post [where P = "\<lambda>s. heap_inv s \<and> tidy B s"]) (simp_all add: or_slot_good inv t)
  have "post (bitset_or B st a b) (\<lambda>(ret, st'). heap_inv st' \<and> tidy B st')"
    unfolding bitset_or_def binary_op_def
    apply (intro post_intros)
      apply (auto intro: inv t loop)
    done
  from postD [OF this r] show ?thesis by simp
qed

lemma bitset_invert_tidy:
  assumes B: "0 < B" and inv: "heap_inv st" and t: "tidy B st"
    and r: "bitset_invert B st a = Inr (ret, st')"
  shows "tidy B st'"
proof -
  have loop: "post (slot_loop (\<lambda>s. invert_slot B s ap) st is) (\<lambda>(ret, st'). heap_inv st' \<and> tidy B st')"
    for ap "is"
    by (rule slot_loop_post [where P = "\<lambda>s. heap_inv s \<and> tidy B s"])
      (simp_all add: invert_slot_good [OF B] inv t)
  have "post (bitset_invert B st a) (\<lambda>(ret, st'). heap_inv st' \<and> tidy B st')"
    unfolding bitset_invert_def
    apply (intro post_intros)
      apply (auto intro: inv t loop)
    done
  from postD [OF this r] show ?thesis by simp
qed

lemma free_loop_tidy: "tidy B st \<Longrightarrow> free_loop st a is = Inr st' \<Longrightarrow> tidy B st'"
proof (induction "is" arbitrary: st)
  case Nil
  then show ?case by simp
next
  case (Cons i "is")
  then show ?case
    by (auto split: sum.splits option.splits intro: decref_tidy)
qed

lemma incref_loop_tidy: "tidy B st \<Longrightarrow> incref_loop st a is = Inr st' \<Longrightarrow> tidy B st'"
proof (induction "is" arbitrary: st)
  case Nil
  then show ?case by simp
next
  case (Cons i "is")
  then show ?case
    by (auto split: sum.splits option.splits intro: incref_tidy)
qed

lemma bitset_free_tidy:
  assumes t: "tidy B st" and r: "bitset_free st a = Inr st'"
  shows "tidy B st'"
  using r t
  by (auto simp: bitset_free_def bnd_Inr_iff split: option.splits intro: free_loop_tidy)

lemma bitset_init_tidy:
  assumes t: "tidy B st" and r: "bitset_init B st bset bc = Inr (ret, st')"
  shows "tidy B st'"
  using r t
  by (auto simp: bitset_init_def bnd_Inr_iff Let_def split: prod.splits option.splits
      dest: malloc_tidy [OF t])

lemma bitset_alloc_tidy:
  assumes t: "tidy B st" and r: "bitset_alloc B st bc out = Inr (ret, out', st')"
  shows "tidy B st'"
proof (cases "out = Some None")
  case False
  with r t show ?thesis by (simp add: bitset_alloc_def)
next
  case True
  show ?thesis
  proof (cases "malloc st sizeof_bitset")
    case (Pair p st1)
    note t1 = malloc_tidy [OF t Pair]
    show ?thesis
    proof (cases p)
      case None
      with r True Pair t1 show ?thesis by (simp add: bitset_alloc_def)
    next
      case (Some bset)
      let ?st2 = "st1\<lparr>bitset_heap := (bitset_heap st1)(bset \<mapsto> zero_bitset),
                      block_allocs := block_allocs st1 + 1,
                      block_mem := block_mem st1 + word_of_int sizeof_bitset\<rparr>"
      have t2: "tidy B ?st2" using t1 by simp
      from r True Pair Some obtain ret3 st3 where i: "bitset_init B ?st2 bset bc = Inr (ret3, st3)"
        and rest: "(if ret3 \<noteq> OK
                    then bnd (bitset_free st3 (Some bset)) (\<lambda>st4. Inr (ret3, out, st4))
                    else Inr (ret3, Some (Some bset), st3)) = Inr (ret, out', st')"
        by (cases "bitset_init B ?st2 bset bc") (auto simp: bitset_alloc_def Let_def bnd_simps)
      note t3 = bitset_init_tidy [OF t2 i]
      from rest t3 show ?thesis
        by (auto simp: bnd_Inr_iff split: if_splits intro: bitset_free_tidy)
    qed
  qed
qed

lemma bitset_dup_tidy:
  assumes t: "tidy B st" and r: "bitset_dup st s out = Inr (ret, out', st')"
  shows "tidy B st'"
proof (cases "s = None \<or> out \<noteq> Some None")
  case True
  with r t show ?thesis by (auto simp: bitset_dup_def split: if_splits)
next
  case False
  then have s: "s \<noteq> None" and out: "out = Some None" by simp_all
  show ?thesis
  proof (cases "malloc st sizeof_bitset")
    case (Pair p st1)
    note t1 = malloc_tidy [OF t Pair]
    show ?thesis
    proof (cases p)
      case None
      with r s out Pair t1 show ?thesis by (simp add: bitset_dup_def)
    next
      case (Some bset)
      let ?st2 = "st1\<lparr>bitset_heap := (bitset_heap st1)(bset \<mapsto> zero_bitset),
                      block_allocs := block_allocs st1 + 1,
                      block_mem := block_mem st1 + word_of_int sizeof_bitset\<rparr>"
      from r s out Pair Some obtain src where src: "get_bitset ?st2 s = Inr src"
        by (cases "get_bitset ?st2 s") (auto simp: bitset_dup_def Let_def bnd_simps)
      let ?bs = "\<lparr>bitcount = bitcount src, block_count = block_count src, blocks = None\<rparr>"
      let ?sz = "sizeof_ptr * block_count ?bs"
      let ?st2' = "?st2\<lparr>bitset_heap := (bitset_heap ?st2)(bset \<mapsto> ?bs)\<rparr>"
      have t2: "tidy B ?st2'" using t1 by simp
      show ?thesis
      proof (cases "malloc ?st2' ?sz")
        case m: (Pair p3 st3)
        note t3 = malloc_tidy [OF t2 m]
        from r s out Pair Some src m have rest:
          "(case p3 of
              None \<Rightarrow> bnd (bitset_free st3 (Some bset)) (\<lambda>st4. Inr (ERRMEM, Some None, st4))
            | Some _ \<Rightarrow>
                bnd (memcpy_blocks src) (\<lambda>xs.
                bnd (incref_loop
                       (st3\<lparr>bitset_heap := (bitset_heap st3)(bset \<mapsto> ?bs\<lparr>blocks := Some xs\<rparr>),
                            block_allocs := block_allocs st3 + 1,
                            block_mem := block_mem st3 + word_of_int (?sz mod 2 ^ 64)\<rparr>)
                       bset [0..<nat (block_count ?bs)]) (\<lambda>st4.
                Inr (OK, Some (Some bset), st4)))) = Inr (ret, out', st')"
          by (simp add: bitset_dup_def Let_def bnd_simps)
        show ?thesis
        proof (cases p3)
          case None
          with rest t3 show ?thesis by (auto simp: bnd_Inr_iff intro: bitset_free_tidy)
        next
          case (Some x)
          with rest obtain xs st4 where
            l: "incref_loop
                  (st3\<lparr>bitset_heap := (bitset_heap st3)(bset \<mapsto> ?bs\<lparr>blocks := Some xs\<rparr>),
                       block_allocs := block_allocs st3 + 1,
                       block_mem := block_mem st3 + word_of_int (?sz mod 2 ^ 64)\<rparr>)
                  bset [0..<nat (block_count ?bs)] = Inr st4"
            and st': "st' = st4"
            by (auto simp: bnd_Inr_iff)
          from t3 have "tidy B (st3\<lparr>bitset_heap := (bitset_heap st3)(bset \<mapsto> ?bs\<lparr>blocks := Some xs\<rparr>),
                       block_allocs := block_allocs st3 + 1,
                       block_mem := block_mem st3 + word_of_int (?sz mod 2 ^ 64)\<rparr>)"
            by simp
          from incref_loop_tidy [OF this l] st' show ?thesis by simp
        qed
      qed
    qed
  qed
qed

lemma dup_then_tidy:
  assumes inv: "heap_inv st" and t: "tidy B st"
    and f: "\<And>s a b ret s'. heap_inv s \<Longrightarrow> inplace s a b = Inr (ret, s') \<Longrightarrow> heap_inv s'"
    and g: "\<And>s a b ret s'. heap_inv s \<Longrightarrow> tidy B s \<Longrightarrow> inplace s a b = Inr (ret, s') \<Longrightarrow> tidy B s'"
    and r: "dup_then inplace st a b out = Inr (ret, out', st')"
  shows "tidy B st'"
proof (cases "out = Some None")
  case False
  with r t show ?thesis by (simp add: dup_then_def)
next
  case True
  from r True obtain ret1 r1 st1 where d: "bitset_dup st a (Some None) = Inr (ret1, r1, st1)"
    and rest: "(if ret1 \<noteq> OK then Inr (ret1, out, st1)
                else bnd (inplace st1 (the r1) b) (\<lambda>(ret, st2).
                       if ret \<noteq> OK
                       then bnd (bitset_free st2 (the r1)) (\<lambda>st3. Inr (ret, out, st3))
                       else Inr (OK, r1, st2))) = Inr (ret, out', st')"
    by (cases "bitset_dup st a (Some None)") (auto simp: dup_then_def bnd_simps)
  note inv1 = bitset_dup_inv [OF inv d]
  note t1 = bitset_dup_tidy [OF t d]
  show ?thesis
  proof (cases "ret1 = OK")
    case False
    with rest t1 show ?thesis by simp
  next
    case True
    with rest obtain ret2 st2 where i: "inplace st1 (the r1) b = Inr (ret2, st2)"
      and rest2: "(if ret2 \<noteq> OK
                   then bnd (bitset_free st2 (the r1)) (\<lambda>st3. Inr (ret2, out, st3))
                   else Inr (OK, r1, st2)) = Inr (ret, out', st')"
      by (cases "inplace st1 (the r1) b") (auto simp: bnd_simps)
    note t2 = g [OF inv1 t1 i]
    from rest2 t2 show ?thesis
      by (auto simp: bnd_Inr_iff split: if_splits intro: bitset_free_tidy)
  qed
qed

lemma exec_tidy:
  assumes B: "0 < B" and inv: "heap_inv st" and t: "tidy B st" and c: "leaves_no_zero_block c"
    and r: "exec B st c = Inr st'"
  shows "tidy B st'"
proof (cases c)
  case (CAlloc bc out)
  with r t show ?thesis by (auto simp: bnd_Inr_iff intro: bitset_alloc_tidy)
next
  case (CFree a)
  with r t show ?thesis by (auto intro: bitset_free_tidy)
next
  case (CDup a out)
  with r t show ?thesis by (auto simp: bnd_Inr_iff intro: bitset_dup_tidy)
next
  case (CSet a bt)
  with r t inv show ?thesis by (auto simp: bnd_Inr_iff intro: bitset_set_tidy)
next
  case (CInvert a)
  with r t inv show ?thesis by (auto simp: bnd_Inr_iff intro: bitset_invert_tidy [OF B])
next
  case (CInverse a out)
  with r have "\<exists>ret out'. dup_then (\<lambda>s r _. bitset_invert B s r) st a None out = Inr (ret, out', st')"
    by (auto simp: bnd_Inr_iff bitset_inverse_dup_then [where b = None])
  then obtain ret out' where
    d: "dup_then (\<lambda>s r _. bitset_invert B s r) st a None out = Inr (ret, out', st')"
    by blast
  show ?thesis
    by (rule dup_then_tidy [OF inv t _ _ d]) (auto intro: bitset_invert_inv bitset_invert_tidy [OF B])
next
  case (COr a b)
  with r t inv show ?thesis by (auto simp: bnd_Inr_iff intro: bitset_or_tidy)
next
  case (CUnion a b out)
  with r obtain ret out' where d: "dup_then (bitset_or B) st a b out = Inr (ret, out', st')"
    by (auto simp: bnd_Inr_iff bitset_union_def)
  show ?thesis
    by (rule dup_then_tidy [OF inv t _ _ d]) (auto intro: bitset_or_inv bitset_or_tidy)
qed (use r t c in \<open>auto simp: bnd_Inr_iff\<close>)

lemma run_tidy:
  assumes B: "0 < B"
  shows "heap_inv st \<Longrightarrow> tidy B st \<Longrightarrow> \<forall>c\<in>set cs. leaves_no_zero_block c \<Longrightarrow> run B st cs = Inr st'
         \<Longrightarrow> tidy B st'"
proof (induction cs arbitrary: st)
  case Nil
  then show ?case by simp
next
  case (Cons c cs)
  show ?case
  proof (cases "exec B st c")
    case (Inl e)
    with Cons.prems show ?thesis by simp
  next
    case (Inr st1)
    with Cons.prems have "run B st1 cs = Inr st'" by simp
    moreover from Cons.prems have "leaves_no_zero_block c" by simp
    note exec_tidy [OF B Cons.prems(1,2) this Inr]
    moreover note exec_inv [OF Cons.prems(1) Inr]
    ultimately show ?thesis using Cons.prems(3) by (intro Cons.IH) simp_all
  qed
qed

lemma tidy_init: "tidy B (init_state plan)"
  by (simp add: tidy_def init_state_def)

lemma tidy_canonical:
  assumes inv: "heap_inv st" and t: "tidy B st"
  shows "canonical st"
  unfolding canonical_def
proof (intro allI impI)
  fix a i q
  assume "get_slot st a i = Inr (Some q)"
  from get_slot_cases [OF this] obtain bs xs where
    "bitset_heap st a = Some bs" "blocks bs = Some xs" "nat i < length xs" "xs ! nat i = Some q"
    by auto
  from held_block_live [OF inv this] obtain b where b: "block_heap st q = Some b" by blast
  with tidyD [OF t b] show "\<exists>blk. block_heap st q = Some blk \<and> \<not> all_zero blk"
    by (simp add: tidy_block_def)
qed

lemma replicate_2: "replicate 2 x = [x, x]"
  by (simp add: eval_nat_numeral)

text \<open>
  C3, as the specification states it, fails: after \<^verbatim>\<open>bitset_set(a, 5)\<close> and
  \<^verbatim>\<open>bitset_clr(a, 5)\<close>, which returns OK, slot 0 of \<open>a\<close> still holds its block, and both
  words of the block are 0.
\<close>

theorem clr_leaves_zero_block:
  "ret_of (bitset_clr 2 (after 2 [CAlloc 128 (Some None), CSet (Some 0) 5]) (Some 0) 5) = Inr OK
   \<and> get_slot (after 2 clear_calls) 0 0 = Inr (Some 2)
   \<and> map_option ints (block_heap (after 2 clear_calls) 2) = Some [0, 0]"
  by (simp add: model_defs clear_calls_def replicate_2)

text \<open>
  The same state, in the terms of \<open>canonical\<close>; and the all-zero blocks that
  \<^verbatim>\<open>bitset_toggle_bit\<close>, \<^verbatim>\<open>bitset_and\<close> and \<^verbatim>\<open>bitset_subtract\<close> leave.
\<close>

lemma clr_not_canonical: "\<not> canonical (after 2 clear_calls)"
proof
  assume "canonical (after 2 clear_calls)"
  moreover have "get_slot (after 2 clear_calls) 0 0 = Inr (Some 2)"
    by (simp add: model_defs clear_calls_def)
  ultimately obtain blk where "block_heap (after 2 clear_calls) 2 = Some blk" "\<not> all_zero blk"
    unfolding canonical_def by blast
  then show False by (auto simp: model_defs clear_calls_def all_zero_def replicate_2)
qed

lemma other_calls_leave_zero_blocks:
  "map_option ints (block_heap (after 2 [CAlloc 128 (Some None), CSet (Some 0) 5, CToggle (Some 0) 5]) 2)
     = Some [0, 0]"
  "map_option ints (block_heap (after 2 [CAlloc 128 (Some None), CSet (Some 0) 5,
      CAlloc 128 (Some None), CSet (Some 3) 6, CAnd (Some 0) (Some 3)]) 2) = Some [0, 0]"
  "map_option ints (block_heap (after 2 [CAlloc 128 (Some None), CSet (Some 0) 5,
      CAlloc 128 (Some None), CSet (Some 3) 5, CSubtract (Some 0) (Some 3)]) 2) = Some [0, 0]"
  by (simp_all add: model_defs upt_2 replicate_2)

text \<open>
  C3, amended. With a block size that is not 0, after every sequence of calls of
  \<^verbatim>\<open>bitset_alloc\<close>, \<^verbatim>\<open>bitset_free\<close>, \<^verbatim>\<open>bitset_dup\<close>, \<^verbatim>\<open>bitset_set\<close>, \<^verbatim>\<open>bitset_or\<close>,
  \<^verbatim>\<open>bitset_union\<close>, \<^verbatim>\<open>bitset_invert\<close>, \<^verbatim>\<open>bitset_inverse\<close> and the functions that only read,
  from the empty memory, that returns, no slot holds an all-zero block: the block of every
  present slot is live and has a word that is not 0.
\<close>

theorem zero_blocks_only_after_clearing:
  assumes "0 < B" and "run B (init_state plan) cs = Inr st"
    and "\<forall>c\<in>set cs. leaves_no_zero_block c"
  shows "canonical st"
  using tidy_canonical [OF run_inv [OF heap_inv_init assms(2)]
      run_tidy [OF assms(1) heap_inv_init tidy_init assms(3,2)]] .

theorem zero_blocks_only_after_clearing_witness:
  "run 2 (init_state []) invert_calls = Inr (after 2 invert_calls)
   \<and> canonical (after 2 invert_calls)
   \<and> get_slot (after 2 invert_calls) 0 0 = Inr (Some 2)
   \<and> map_option ints (block_heap (after 2 invert_calls) 2) = Some [32, 0]
   \<and> get_slot (after 2 [CAlloc 128 (Some None), CSet (Some 0) 5, CAlloc 128 (Some None),
                        CInvert (Some 3)]) 3 0 = Inr (Some 5)
   \<and> get_slot (after 2 invert_calls) 3 0 = Inr None"
proof -
  have r: "run 2 (init_state []) invert_calls = Inr (after 2 invert_calls)"
    by (simp add: model_defs invert_calls_def upt_2)
  have c: "\<forall>c\<in>set invert_calls. leaves_no_zero_block c"
    by (simp add: invert_calls_def)
  have "canonical (after 2 invert_calls)"
    using zero_blocks_only_after_clearing [of 2 "[]" invert_calls "after 2 invert_calls"] r c
    by simp
  moreover have "get_slot (after 2 invert_calls) 0 0 = Inr (Some 2)"
    "map_option ints (block_heap (after 2 invert_calls) 2) = Some [32, 0]"
    "get_slot (after 2 [CAlloc 128 (Some None), CSet (Some 0) 5, CAlloc 128 (Some None),
                        CInvert (Some 3)]) 3 0 = Inr (Some 5)"
    "get_slot (after 2 invert_calls) 3 0 = Inr None"
    by (simp_all add: model_defs invert_calls_def upt_2 replicate_2)
  ultimately show ?thesis using r by simp
qed

section \<open>The sizes stay as they are\<close>

subsection \<open>The memory primitives and the slot functions\<close>

lemmas dims_defs = dims_def sized_def

lemma dims_blockD: "dims B st \<Longrightarrow> block_heap st q = Some b \<Longrightarrow> length (ints b) = B"
  by (simp add: dims_defs)

lemma dims_bitsetD:
  "dims B st \<Longrightarrow> bitset_heap st p = Some bs
   \<Longrightarrow> (\<exists>xs. blocks bs = Some xs) \<and> bitcount bs \<le> block_count bs * IDSPERBLOCK B"
  by (auto simp: dims_defs)

lemma dims_block_allocs [simp]: "dims B (st\<lparr>block_allocs := n\<rparr>) = dims B st"
  by (simp add: dims_defs)

lemma dims_block_mem [simp]: "dims B (st\<lparr>block_mem := n\<rparr>) = dims B st"
  by (simp add: dims_defs)

lemma dims_same:
  "dims B st \<Longrightarrow> block_heap st' = block_heap st \<Longrightarrow> bitset_heap st' = bitset_heap st \<Longrightarrow> dims B st'"
  by (simp add: dims_defs)

lemma malloc_dims: "dims B st \<Longrightarrow> malloc st sz = (r, st1) \<Longrightarrow> dims B st1"
  using malloc_cases [of st sz r st1] by (auto intro: dims_same)

lemma set_slot_dims: "dims B st \<Longrightarrow> set_slot st a i v = Inr st1 \<Longrightarrow> dims B st1"
  using set_slot_cases [of st a i v st1] by (auto simp: dims_defs split: if_splits)

lemma incref_dims: "dims B st \<Longrightarrow> bitset_block_incref st q = Inr st1 \<Longrightarrow> dims B st1"
  using incref_cases [of st q st1] by (auto simp: dims_defs split: if_splits)

lemma decref_dims: "dims B st \<Longrightarrow> bitset_block_decref st q = Inr st1 \<Longrightarrow> dims B st1"
  using decref_cases [of st q st1] by (auto simp: dims_defs split: if_splits)

lemma put_block_dims:
  "dims B st \<Longrightarrow> get_block st q = Inr b \<Longrightarrow> length (ints b') = length (ints b)
   \<Longrightarrow> dims B (put_block st q b')"
  by (auto simp: dims_defs put_block_def get_block_cases split: if_splits)

lemma put_new_dims: "dims B st \<Longrightarrow> length (ints b') = B \<Longrightarrow> dims B (put_block st q b')"
  by (auto simp: dims_defs put_block_def split: if_splits)

lemma block_new_dims: "dims B st \<Longrightarrow> bitset_block_new B st = (ret, r, st1) \<Longrightarrow> dims B st1"
  using block_new_cases [of B st ret r st1] by (auto simp: dims_defs split: if_splits)

lemma block_alloc_dims: "dims B st \<Longrightarrow> bitset_block_alloc B st a i = Inr (ret, r, st1) \<Longrightarrow> dims B st1"
  using block_alloc_cases [of B st a i ret r st1] by (auto simp: dims_defs split: if_splits)

lemma realloc_dims:
  "bounded st \<Longrightarrow> dims B st \<Longrightarrow> bitset_block_realloc B st a i = Inr (ret, r, st1) \<Longrightarrow> dims B st1"
  using block_realloc_cases [of B st a i ret r st1] by (auto simp: dims_defs split: if_splits)

lemma set_bit_len: "bitset_block_set_bit b x = Inr b' \<Longrightarrow> length (ints b') = length (ints b)"
  by (auto simp: bitset_block_set_bit_def Let_def split: if_splits)

lemma clr_bit_len: "bitset_block_clr_bit b x = Inr b' \<Longrightarrow> length (ints b') = length (ints b)"
  by (auto simp: bitset_block_clr_bit_def Let_def split: if_splits)

lemma toggle_bit_len: "bitset_block_toggle_bit b x = Inr b' \<Longrightarrow> length (ints b') = length (ints b)"
  by (auto simp: bitset_block_toggle_bit_def Let_def split: if_splits)

lemma word_loop_len: "word_loop B f x y = Inr x' \<Longrightarrow> length (ints x') = length (ints x)"
  by (auto simp: word_loop_def Let_def split: if_splits)

lemma block_or_len: "bitset_block_or B x y = Inr x' \<Longrightarrow> length (ints x') = length (ints x)"
  by (auto simp: bitset_block_or_def bnd_Inr_iff dest: word_loop_len)

lemma block_and_len: "bitset_block_and B x y = Inr x' \<Longrightarrow> length (ints x') = length (ints x)"
  by (auto simp: bitset_block_and_def bnd_Inr_iff dest: word_loop_len)

lemma block_subtract_len: "bitset_block_subtract B x y = Inr x' \<Longrightarrow> length (ints x') = length (ints x)"
  by (auto simp: bitset_block_subtract_def bnd_Inr_iff dest: word_loop_len)

lemma block_invert_len: "bitset_block_invert B x = Inr x' \<Longrightarrow> length (ints x') = length (ints x)"
  by (auto simp: bitset_block_invert_def bnd_Inr_iff split: if_splits)

lemma cow_choice_dims:
  assumes "heap_inv st" and "dims B st"
    and "(if c then bitset_block_realloc B st a i else Inr (OK, Some p, st)) = Inr (ret, r, st1)"
  shows "dims B st1"
  using assms by (auto split: if_splits intro: realloc_dims [OF heap_inv_boundedD])

lemma bitset_set_dims:
  assumes inv: "heap_inv st" and d: "dims B st"
  shows "post (bitset_set B st a bt) (\<lambda>(ret, st'). dims B st')"
  unfolding bitset_set_def Let_def
  apply (intro post_intros)
  apply (auto intro: d put_block_dims [OF block_alloc_dims [OF d] _ set_bit_len]
      block_alloc_dims [OF d] put_block_dims [OF cow_choice_dims [OF inv d] _ set_bit_len]
      cow_choice_dims [OF inv d])
  done

lemma bitset_clr_dims:
  assumes inv: "heap_inv st" and d: "dims B st"
  shows "post (bitset_clr B st a bt) (\<lambda>(ret, st'). dims B st')"
  unfolding bitset_clr_def Let_def
  apply (intro post_intros)
  apply (auto intro: d put_block_dims [OF cow_choice_dims [OF inv d] _ clr_bit_len]
      cow_choice_dims [OF inv d])
  done

lemma toggle_choice_dims:
  assumes "heap_inv st" and "dims B st"
    and "(case slot of
            None \<Rightarrow> bitset_block_alloc B st a i
          | Some p \<Rightarrow>
              bnd (get_block st p) (\<lambda>pb.
                if ref_count pb > 1 then bitset_block_realloc B st a i
                else Inr (OK, Some p, st))) = Inr (ret, r, st1)"
  shows "dims B st1"
  using assms
  by (auto simp: bnd_Inr_iff split: option.splits if_splits
      intro: realloc_dims [OF heap_inv_boundedD] block_alloc_dims)

lemma bitset_toggle_bit_dims:
  assumes inv: "heap_inv st" and d: "dims B st"
  shows "post (bitset_toggle_bit B st a bt) (\<lambda>(ret, st'). dims B st')"
  unfolding bitset_toggle_bit_def Let_def
  apply (intro post_intros)
  apply (auto intro: d put_block_dims [OF toggle_choice_dims [OF inv d] _ toggle_bit_len]
      toggle_choice_dims [OF inv d])
  done

lemma install_dims:
  assumes "dims B st" and "bitset_block_new B st = (OK, Some blk, st1)"
    and "set_slot (put_block st1 blk nb) a i (Some blk) = Inr st2" and "length (ints nb) = B"
  shows "dims B st2"
  using set_slot_dims [OF put_new_dims [OF block_new_dims [OF assms(1,2)] assms(4)] assms(3)] .

lemma invert_slot_dims:
  assumes inv: "heap_inv st" and d: "dims B st"
  shows "post (invert_slot B st a i) (\<lambda>(ret, st'). dims B st')"
  unfolding invert_slot_def
  apply (intro post_intros)
     apply (auto split: prod.splits retcode.splits option.splits
      intro: d block_new_dims [OF d] install_dims [OF d]
        set_slot_dims [OF decref_dims [OF d]]
        put_block_dims [OF d _ block_invert_len] intro!: post_intros)
  done

lemma cow_then_dims:
  assumes inv: "heap_inv st" and d: "dims B st"
    and F: "\<And>x y x'. f B x y = Inr x' \<Longrightarrow> length (ints x') = length (ints x)"
  shows "post (cow_then B f st a b i p) (\<lambda>(ret, st'). dims B st')"
proof -
  have 1: "dims B st1"
    if "(if c then bnd (bitset_block_realloc B st a (int i)) (\<lambda>(ret, _, st1). Inr (ret, st1))
         else Inr (OK, st)) = Inr (ret, st1)" for c ret st1
    using that inv d
    by (auto simp: bnd_Inr_iff split: if_splits intro: realloc_dims [OF heap_inv_boundedD])
  show ?thesis
    unfolding cow_then_def
    apply (intro post_intros)
     apply (auto intro: 1 put_block_dims [OF 1 _ F])
    done
qed

lemma or_slot_dims:
  assumes inv: "heap_inv st" and d: "dims B st"
  shows "post (or_slot B st a b i) (\<lambda>(ret, st'). dims B st')"
  unfolding or_slot_def
  apply (intro post_intros)
       apply (auto intro: d incref_dims [OF set_slot_dims [OF d]] cow_then_dims [OF inv d block_or_len])
  done

lemma and_slot_dims:
  assumes inv: "heap_inv st" and d: "dims B st"
  shows "post (and_slot B st a b i) (\<lambda>(ret, st'). dims B st')"
  unfolding and_slot_def
  apply (intro post_intros)
       apply (auto intro: d set_slot_dims [OF decref_dims [OF d]] cow_then_dims [OF inv d block_and_len])
  done

lemma subtract_slot_dims:
  assumes inv: "heap_inv st" and d: "dims B st"
  shows "post (subtract_slot B st a b i) (\<lambda>(ret, st'). dims B st')"
  unfolding subtract_slot_def
  apply (intro post_intros)
       apply (auto intro: d cow_then_dims [OF inv d block_subtract_len])
  done

subsection \<open>Whole calls\<close>

lemma binary_op_dims:
  assumes inv: "heap_inv st" and d: "dims B st"
    and body: "\<And>s a b i. heap_inv s \<Longrightarrow> post (body s a b i) (\<lambda>(ret, st'). heap_inv st')"
    and bodyd: "\<And>s a b i. heap_inv s \<Longrightarrow> dims B s \<Longrightarrow> post (body s a b i) (\<lambda>(ret, st'). dims B st')"
  shows "post (binary_op body st a b) (\<lambda>(ret, st'). heap_inv st' \<and> dims B st')"
proof -
  have good: "post (body s a b i) (\<lambda>(ret, st'). heap_inv st' \<and> dims B st')"
    if "heap_inv s \<and> dims B s" for s a b i
    using that by (intro post_conj2 body bodyd) simp_all
  have loop: "post (slot_loop (\<lambda>s. body s ap bp) st is) (\<lambda>(ret, st'). heap_inv st' \<and> dims B st')"
    for ap bp "is"
    by (rule slot_loop_post [where P = "\<lambda>s. heap_inv s \<and> dims B s"]) (simp_all add: good inv d)
  show ?thesis
    unfolding binary_op_def
    apply (intro post_intros)
      apply (auto intro: inv d loop)
    done
qed

lemma bitset_or_dims:
  assumes inv: "heap_inv st" and d: "dims B st" and r: "bitset_or B st a b = Inr (ret, st')"
  shows "dims B st'"
proof -
  have "post (binary_op (or_slot B) st a b) (\<lambda>(ret, st'). heap_inv st' \<and> dims B st')"
    by (rule binary_op_dims [OF inv d]) (simp_all add: or_slot_post or_slot_dims)
  from postD [OF this r [unfolded bitset_or_def]] show ?thesis by simp
qed

lemma bitset_and_dims:
  assumes inv: "heap_inv st" and d: "dims B st" and r: "bitset_and B st a b = Inr (ret, st')"
  shows "dims B st'"
proof -
  have "post (binary_op (and_slot B) st a b) (\<lambda>(ret, st'). heap_inv st' \<and> dims B st')"
    by (rule binary_op_dims [OF inv d]) (simp_all add: and_slot_post and_slot_dims)
  from postD [OF this r [unfolded bitset_and_def]] show ?thesis by simp
qed

lemma bitset_subtract_dims:
  assumes inv: "heap_inv st" and d: "dims B st" and r: "bitset_subtract B st a b = Inr (ret, st')"
  shows "dims B st'"
proof -
  have "post (binary_op (subtract_slot B) st a b) (\<lambda>(ret, st'). heap_inv st' \<and> dims B st')"
    by (rule binary_op_dims [OF inv d]) (simp_all add: subtract_slot_post subtract_slot_dims)
  from postD [OF this r [unfolded bitset_subtract_def]] show ?thesis by simp
qed

lemma bitset_invert_dims:
  assumes inv: "heap_inv st" and d: "dims B st" and r: "bitset_invert B st a = Inr (ret, st')"
  shows "dims B st'"
proof -
  have good: "post (invert_slot B s ap i) (\<lambda>(ret, st'). heap_inv st' \<and> dims B st')"
    if "heap_inv s \<and> dims B s" for s ap i
    using that by (intro post_conj2 invert_slot_post invert_slot_dims) simp_all
  have loop: "post (slot_loop (\<lambda>s. invert_slot B s ap) st is) (\<lambda>(ret, st'). heap_inv st' \<and> dims B st')"
    for ap "is"
    by (rule slot_loop_post [where P = "\<lambda>s. heap_inv s \<and> dims B s"]) (simp_all add: good inv d)
  have "post (bitset_invert B st a) (\<lambda>(ret, st'). heap_inv st' \<and> dims B st')"
    unfolding bitset_invert_def
    apply (intro post_intros)
      apply (auto intro: inv d loop)
    done
  from postD [OF this r] show ?thesis by simp
qed

lemmas bitset_set_dimsD = post_invD [OF bitset_set_dims]
lemmas bitset_clr_dimsD = post_invD [OF bitset_clr_dims]
lemmas bitset_toggle_bit_dimsD = post_invD [OF bitset_toggle_bit_dims]

text \<open>\<^verbatim>\<open>bitset_free\<close> takes the bitset out of the memory and changes no word of a block.\<close>

lemma decref_sized: "sized B st \<Longrightarrow> bitset_block_decref st q = Inr st1 \<Longrightarrow> sized B st1"
  using decref_cases [of st q st1] by (auto simp: sized_def split: if_splits)

lemma incref_sized: "sized B st \<Longrightarrow> bitset_block_incref st q = Inr st1 \<Longrightarrow> sized B st1"
  using incref_cases [of st q st1] by (auto simp: sized_def split: if_splits)

lemma free_loop_sized:
  "sized B st \<Longrightarrow> free_loop st a is = Inr st' \<Longrightarrow> sized B st' \<and> bitset_heap st' = bitset_heap st"
proof (induction "is" arbitrary: st)
  case Nil
  then show ?case by simp
next
  case (Cons i "is")
  show ?case
  proof (cases "get_slot st a (int i)")
    case (Inl e)
    with Cons.prems show ?thesis by simp
  next
    case (Inr slot)
    show ?thesis
    proof (cases slot)
      case None
      with Inr Cons show ?thesis by simp
    next
      case (Some p)
      with Inr Cons.prems obtain s1 where dd: "bitset_block_decref st p = Inr s1"
        and l: "free_loop s1 a is = Inr st'"
        by (cases "bitset_block_decref st p") auto
      from Cons.IH [OF decref_sized [OF Cons.prems(1) dd] l] decref_cases [OF dd]
      show ?thesis by auto
    qed
  qed
qed

lemma incref_loop_sized:
  "sized B st \<Longrightarrow> incref_loop st a is = Inr st' \<Longrightarrow> sized B st' \<and> bitset_heap st' = bitset_heap st"
proof (induction "is" arbitrary: st)
  case Nil
  then show ?case by simp
next
  case (Cons i "is")
  show ?case
  proof (cases "get_slot st a (int i)")
    case (Inl e)
    with Cons.prems show ?thesis by simp
  next
    case (Inr slot)
    show ?thesis
    proof (cases slot)
      case None
      with Inr Cons show ?thesis by simp
    next
      case (Some p)
      with Inr Cons.prems obtain s1 where dd: "bitset_block_incref st p = Inr s1"
        and l: "incref_loop s1 a is = Inr st'"
        by (cases "bitset_block_incref st p") auto
      from Cons.IH [OF incref_sized [OF Cons.prems(1) dd] l] incref_cases [OF dd]
      show ?thesis by auto
    qed
  qed
qed

lemma bitset_free_heap:
  assumes d: "sized B st" and r: "bitset_free st (Some ap) = Inr st'"
  shows "bitset_heap st' = (bitset_heap st)(ap := None) \<and> sized B st'"
proof -
  from r obtain bs st1 where bs: "bitset_heap st ap = Some bs"
    and l: "(case blocks bs of None \<Rightarrow> Inr st
             | Some _ \<Rightarrow> free_loop st ap [0..<nat (block_count bs)]) = Inr st1"
    and st': "st' = st1\<lparr>bitset_heap := (bitset_heap st1)(ap := None)\<rparr>"
    by (auto simp: bitset_free_def bnd_Inr_iff get_bitset_cases)
  from l d have "sized B st1 \<and> bitset_heap st1 = bitset_heap st"
    by (auto split: option.splits dest: free_loop_sized)
  then show ?thesis by (auto simp: st' sized_def)
qed

lemma bitset_free_dims:
  assumes d: "dims B st" and r: "bitset_free st a = Inr st'"
  shows "dims B st'"
proof (cases a)
  case None
  with r d show ?thesis by (simp add: bitset_free_def)
next
  case (Some ap)
  from d have "sized B st" by (simp add: dims_def)
  from bitset_free_heap [OF this r [unfolded Some]] d show ?thesis
    by (auto simp: dims_def)
qed

lemma sized_simps [simp]:
  "sized B (st\<lparr>bitset_heap := h\<rparr>) = sized B st"
  "sized B (st\<lparr>block_allocs := n\<rparr>) = sized B st"
  "sized B (st\<lparr>block_mem := m\<rparr>) = sized B st"
  by (simp_all add: sized_def)

lemma malloc_sized: "sized B st \<Longrightarrow> malloc st sz = (r, st1) \<Longrightarrow> sized B st1"
  using malloc_cases [of st sz r st1] by (auto simp: sized_def)

lemma blockcount_covers: "0 < B \<Longrightarrow> bc \<le> BLOCKCOUNT B bc * IDSPERBLOCK B"
proof -
  assume "0 < B"
  then have pos: "0 < IDSPERBLOCK B" by (simp add: IDSPERBLOCK_def)
  have "(- bc) div IDSPERBLOCK B * IDSPERBLOCK B \<le> - bc"
    using pos by (metis div_mult_mod_eq le_add_same_cancel1 pos_mod_sign)
  then show ?thesis by (simp add: BLOCKCOUNT_def)
qed

lemma bitset_init_cases:
  assumes r: "bitset_init B st bset bc = Inr (ret, st')"
  shows "block_heap st' = block_heap st
       \<and> (\<exists>bl. bitset_heap st' = (bitset_heap st)
                  (bset \<mapsto> \<lparr>bitcount = bc, block_count = BLOCKCOUNT B bc, blocks = bl\<rparr>)
               \<and> (ret = OK \<longrightarrow> bl \<noteq> None))"
proof (cases "malloc st (sizeof_ptr * BLOCKCOUNT B bc)")
  case (Pair p st1)
  from malloc_cases [OF Pair] r Pair show ?thesis
    by (cases p) (auto simp: bitset_init_def bnd_Inr_iff Let_def)
qed

lemma bitset_alloc_dims:
  assumes B: "0 < B" and d: "dims B st" and r: "bitset_alloc B st bc out = Inr (ret, out', st')"
  shows "dims B st'"
proof (cases "out = Some None")
  case False
  with r d show ?thesis by (simp add: bitset_alloc_def)
next
  case True
  show ?thesis
  proof (cases "malloc st sizeof_bitset")
    case (Pair p st1)
    note d1 = malloc_dims [OF d Pair]
    from malloc_cases [OF Pair] have h1: "bitset_heap st1 = bitset_heap st" by simp
    show ?thesis
    proof (cases p)
      case None
      with r True Pair d1 show ?thesis by (simp add: bitset_alloc_def)
    next
      case (Some bset)
      let ?st2 = "st1\<lparr>bitset_heap := (bitset_heap st1)(bset \<mapsto> zero_bitset),
                      block_allocs := block_allocs st1 + 1,
                      block_mem := block_mem st1 + word_of_int sizeof_bitset\<rparr>"
      from d1 have s2: "sized B ?st2" by (simp add: dims_def)
      from r True Pair Some obtain ret3 st3 where i: "bitset_init B ?st2 bset bc = Inr (ret3, st3)"
        and rest: "(if ret3 \<noteq> OK
                    then bnd (bitset_free st3 (Some bset)) (\<lambda>st4. Inr (ret3, out, st4))
                    else Inr (ret3, Some (Some bset), st3)) = Inr (ret, out', st')"
        by (cases "bitset_init B ?st2 bset bc") (auto simp: bitset_alloc_def Let_def bnd_simps)
      from bitset_init_cases [OF i] obtain bl where
        bh3: "block_heap st3 = block_heap st1"
        and h3: "bitset_heap st3 = (bitset_heap st1)
                   (bset \<mapsto> \<lparr>bitcount = bc, block_count = BLOCKCOUNT B bc, blocks = bl\<rparr>)"
        and bl: "ret3 = OK \<longrightarrow> bl \<noteq> None"
        by auto
      from s2 bh3 have s3: "sized B st3" by (simp add: sized_def)
      show ?thesis
      proof (cases "ret3 = OK")
        case True
        with rest have "st' = st3" by simp
        with d1 s3 h3 bl True blockcount_covers [OF B, of bc] show ?thesis
          by (auto simp: dims_def)
      next
        case False
        with rest obtain st4 where f: "bitset_free st3 (Some bset) = Inr st4" and "st' = st4"
          by (auto simp: bnd_Inr_iff)
        with bitset_free_heap [OF s3 f] h3 d1 show ?thesis
          by (auto simp: dims_def)
      qed
    qed
  qed
qed

lemma memcpy_blocks_Some: "memcpy_blocks src = Inr xs \<Longrightarrow> blocks src \<noteq> None"
  by (auto simp: memcpy_blocks_def split: option.splits)

lemma bitset_dup_dims:
  assumes d: "dims B st" and r: "bitset_dup st s out = Inr (ret, out', st')"
  shows "dims B st'"
proof (cases "s = None \<or> out \<noteq> Some None")
  case True
  with r d show ?thesis by (auto simp: bitset_dup_def split: if_splits)
next
  case False
  then have s: "s \<noteq> None" and out: "out = Some None" by simp_all
  show ?thesis
  proof (cases "malloc st sizeof_bitset")
    case (Pair p st1)
    note d1 = malloc_dims [OF d Pair]
    show ?thesis
    proof (cases p)
      case None
      with r s out Pair d1 show ?thesis by (simp add: bitset_dup_def)
    next
      case (Some bset)
      let ?st2 = "st1\<lparr>bitset_heap := (bitset_heap st1)(bset \<mapsto> zero_bitset),
                      block_allocs := block_allocs st1 + 1,
                      block_mem := block_mem st1 + word_of_int sizeof_bitset\<rparr>"
      from r s out Pair Some obtain src where src: "get_bitset ?st2 s = Inr src"
        by (cases "get_bitset ?st2 s") (auto simp: bitset_dup_def Let_def bnd_simps)
      let ?bs = "\<lparr>bitcount = bitcount src, block_count = block_count src, blocks = None\<rparr>"
      let ?sz = "sizeof_ptr * block_count ?bs"
      let ?st2' = "?st2\<lparr>bitset_heap := (bitset_heap ?st2)(bset \<mapsto> ?bs)\<rparr>"
      from d1 have s2: "sized B ?st2'" by (simp add: dims_def)
      have cover: "bitcount src \<le> block_count src * IDSPERBLOCK B"
        using src d1 by (auto simp: get_bitset_cases dims_def zero_bitset_def split: if_splits)
      show ?thesis
      proof (cases "malloc ?st2' ?sz")
        case m: (Pair p3 st3)
        note s3 = malloc_sized [OF s2 m]
        from malloc_cases [OF m] have h3: "bitset_heap st3 = (bitset_heap st1)(bset \<mapsto> ?bs)"
          by simp
        from r s out Pair Some src m have rest:
          "(case p3 of
              None \<Rightarrow> bnd (bitset_free st3 (Some bset)) (\<lambda>st4. Inr (ERRMEM, Some None, st4))
            | Some _ \<Rightarrow>
                bnd (memcpy_blocks src) (\<lambda>xs.
                bnd (incref_loop
                       (st3\<lparr>bitset_heap := (bitset_heap st3)(bset \<mapsto> ?bs\<lparr>blocks := Some xs\<rparr>),
                            block_allocs := block_allocs st3 + 1,
                            block_mem := block_mem st3 + word_of_int (?sz mod 2 ^ 64)\<rparr>)
                       bset [0..<nat (block_count ?bs)]) (\<lambda>st4.
                Inr (OK, Some (Some bset), st4)))) = Inr (ret, out', st')"
          by (simp add: bitset_dup_def Let_def bnd_simps)
        show ?thesis
        proof (cases p3)
          case None
          with rest obtain st4 where f: "bitset_free st3 (Some bset) = Inr st4" and "st' = st4"
            by (auto simp: bnd_Inr_iff)
          with bitset_free_heap [OF s3 f] h3 d1 show ?thesis
            by (auto simp: dims_def)
        next
          case (Some x)
          let ?st3' = "\<lambda>xs. st3\<lparr>bitset_heap := (bitset_heap st3)(bset \<mapsto> ?bs\<lparr>blocks := Some xs\<rparr>),
                       block_allocs := block_allocs st3 + 1,
                       block_mem := block_mem st3 + word_of_int (?sz mod 2 ^ 64)\<rparr>"
          from Some rest obtain xs st4 where
            l: "incref_loop (?st3' xs) bset [0..<nat (block_count ?bs)] = Inr st4"
            and st': "st' = st4"
            by (auto simp: bnd_Inr_iff)
          from s3 have "sized B (?st3' xs)" by simp
          from incref_loop_sized [OF this l] st' have "sized B st'"
            and h': "bitset_heap st' = (bitset_heap st1)(bset \<mapsto> ?bs\<lparr>blocks := Some xs\<rparr>)"
            by (simp_all add: h3)
          with d1 cover show ?thesis by (auto simp: dims_def)
        qed
      qed
    qed
  qed
qed

lemma dup_then_dims:
  assumes inv: "heap_inv st" and t: "dims B st"
    and f: "\<And>s a b ret s'. heap_inv s \<Longrightarrow> inplace s a b = Inr (ret, s') \<Longrightarrow> heap_inv s'"
    and g: "\<And>s a b ret s'. heap_inv s \<Longrightarrow> dims B s \<Longrightarrow> inplace s a b = Inr (ret, s') \<Longrightarrow> dims B s'"
    and r: "dup_then inplace st a b out = Inr (ret, out', st')"
  shows "dims B st'"
proof (cases "out = Some None")
  case False
  with r t show ?thesis by (simp add: dup_then_def)
next
  case True
  from r True obtain ret1 r1 st1 where d: "bitset_dup st a (Some None) = Inr (ret1, r1, st1)"
    and rest: "(if ret1 \<noteq> OK then Inr (ret1, out, st1)
                else bnd (inplace st1 (the r1) b) (\<lambda>(ret, st2).
                       if ret \<noteq> OK
                       then bnd (bitset_free st2 (the r1)) (\<lambda>st3. Inr (ret, out, st3))
                       else Inr (OK, r1, st2))) = Inr (ret, out', st')"
    by (cases "bitset_dup st a (Some None)") (auto simp: dup_then_def bnd_simps)
  note inv1 = bitset_dup_inv [OF inv d]
  note t1 = bitset_dup_dims [OF t d]
  show ?thesis
  proof (cases "ret1 = OK")
    case False
    with rest t1 show ?thesis by simp
  next
    case True
    with rest obtain ret2 st2 where i: "inplace st1 (the r1) b = Inr (ret2, st2)"
      and rest2: "(if ret2 \<noteq> OK
                   then bnd (bitset_free st2 (the r1)) (\<lambda>st3. Inr (ret2, out, st3))
                   else Inr (OK, r1, st2)) = Inr (ret, out', st')"
      by (cases "inplace st1 (the r1) b") (auto simp: bnd_simps)
    note t2 = g [OF inv1 t1 i]
    from rest2 t2 show ?thesis
      by (auto simp: bnd_Inr_iff split: if_splits intro: bitset_free_dims)
  qed
qed

lemma exec_dims:
  assumes B: "0 < B" and inv: "heap_inv st" and t: "dims B st" and r: "exec B st c = Inr st'"
  shows "dims B st'"
proof (cases c)
  case (CAlloc bc out)
  with r t show ?thesis by (auto simp: bnd_Inr_iff intro: bitset_alloc_dims [OF B])
next
  case (CFree a)
  with r t show ?thesis by (auto intro: bitset_free_dims)
next
  case (CDup a out)
  with r t show ?thesis by (auto simp: bnd_Inr_iff intro: bitset_dup_dims)
next
  case (CSet a bt)
  with r t inv show ?thesis by (auto simp: bnd_Inr_iff intro: bitset_set_dimsD)
next
  case (CClr a bt)
  with r t inv show ?thesis by (auto simp: bnd_Inr_iff intro: bitset_clr_dimsD)
next
  case (CToggle a bt)
  with r t inv show ?thesis by (auto simp: bnd_Inr_iff intro: bitset_toggle_bit_dimsD)
next
  case (CInvert a)
  with r t inv show ?thesis by (auto simp: bnd_Inr_iff intro: bitset_invert_dims)
next
  case (CInverse a out)
  with r have "\<exists>ret out'. dup_then (\<lambda>s r _. bitset_invert B s r) st a None out = Inr (ret, out', st')"
    by (auto simp: bnd_Inr_iff bitset_inverse_dup_then [where b = None])
  then obtain ret out' where
    d: "dup_then (\<lambda>s r _. bitset_invert B s r) st a None out = Inr (ret, out', st')"
    by blast
  show ?thesis
    by (rule dup_then_dims [OF inv t _ _ d]) (auto intro: bitset_invert_inv bitset_invert_dims)
next
  case (COr a b)
  with r t inv show ?thesis by (auto simp: bnd_Inr_iff intro: bitset_or_dims)
next
  case (CAnd a b)
  with r t inv show ?thesis by (auto simp: bnd_Inr_iff intro: bitset_and_dims)
next
  case (CSubtract a b)
  with r t inv show ?thesis by (auto simp: bnd_Inr_iff intro: bitset_subtract_dims)
next
  case (CUnion a b out)
  with r obtain ret out' where d: "dup_then (bitset_or B) st a b out = Inr (ret, out', st')"
    by (auto simp: bnd_Inr_iff bitset_union_def)
  show ?thesis
    by (rule dup_then_dims [OF inv t _ _ d]) (auto intro: bitset_or_inv bitset_or_dims)
next
  case (CIntersect a b out)
  with r obtain ret out' where d: "dup_then (bitset_and B) st a b out = Inr (ret, out', st')"
    by (auto simp: bnd_Inr_iff bitset_intersect_def)
  show ?thesis
    by (rule dup_then_dims [OF inv t _ _ d]) (auto intro: bitset_and_inv bitset_and_dims)
next
  case (CDifference a b out)
  with r obtain ret out' where d: "dup_then (bitset_subtract B) st a b out = Inr (ret, out', st')"
    by (auto simp: bnd_Inr_iff bitset_difference_def)
  show ?thesis
    by (rule dup_then_dims [OF inv t _ _ d]) (auto intro: bitset_subtract_inv bitset_subtract_dims)
qed (use r t in \<open>auto simp: bnd_Inr_iff\<close>)

lemma run_dims:
  assumes B: "0 < B"
  shows "heap_inv st \<Longrightarrow> dims B st \<Longrightarrow> run B st cs = Inr st' \<Longrightarrow> dims B st'"
proof (induction cs arbitrary: st)
  case Nil
  then show ?case by simp
next
  case (Cons c cs)
  show ?case
  proof (cases "exec B st c")
    case (Inl e)
    with Cons.prems show ?thesis by simp
  next
    case (Inr st1)
    with Cons.prems have "run B st1 cs = Inr st'" by simp
    with exec_dims [OF B Cons.prems(1,2) Inr] exec_inv [OF Cons.prems(1) Inr] show ?thesis
      by (intro Cons.IH)
  qed
qed

lemma dims_init: "dims B (init_state plan)"
  by (simp add: dims_defs init_state_def)

section \<open>Every valid index\<close>

text \<open>
  In a memory that satisfies both invariants the three bit operations return for every
  index in \<open>[0, bitcount)\<close> of a live bitset, and return \<^verbatim>\<open>ERRMEM\<close> only when \<^verbatim>\<open>malloc\<close>
  fails.
\<close>

lemma block_bit_range:
  assumes "0 < B" and "0 \<le> bt"
  shows "0 \<le> bt mod IDSPERBLOCK B" and "nat (bt mod IDSPERBLOCK B div 64) < B"
proof -
  from assms have pos: "0 < IDSPERBLOCK B" by (simp add: IDSPERBLOCK_def)
  then show 1: "0 \<le> bt mod IDSPERBLOCK B" by simp
  from pos have "bt mod IDSPERBLOCK B < 64 * int B" by (simp add: IDSPERBLOCK_def)
  then have "bt mod IDSPERBLOCK B div 64 < int B" by simp
  with 1 show "nat (bt mod IDSPERBLOCK B div 64) < B" by (simp add: nat_less_iff)
qed

lemma slot_of_bit:
  assumes B: "0 < B" and inv: "heap_inv st" and d: "dims B st"
    and bs: "bitset_heap st ap = Some bs" and rng: "0 \<le> bt" "bt < bitcount bs"
  shows "bt div IDSPERBLOCK B < block_count bs
       \<and> (\<exists>slot. get_slot st ap (bt div IDSPERBLOCK B) = Inr slot)"
proof -
  from B have pos: "0 < IDSPERBLOCK B" by (simp add: IDSPERBLOCK_def)
  from dims_bitsetD [OF d bs] obtain xs where xs: "blocks bs = Some xs"
    and le: "bitcount bs \<le> block_count bs * IDSPERBLOCK B" by auto
  from rng le have "bt < block_count bs * IDSPERBLOCK B" by simp
  have cnt: "bt div IDSPERBLOCK B < block_count bs"
  proof (rule ccontr)
    assume "\<not> bt div IDSPERBLOCK B < block_count bs"
    then have "block_count bs * IDSPERBLOCK B \<le> bt div IDSPERBLOCK B * IDSPERBLOCK B"
      using pos by (intro mult_right_mono) simp_all
    also have "\<dots> \<le> bt"
      using pos by (metis div_mult_mod_eq le_add_same_cancel1 pos_mod_sign)
    finally show False using \<open>bt < block_count bs * IDSPERBLOCK B\<close> by simp
  qed
  from rng pos have nn: "0 \<le> bt div IDSPERBLOCK B" by (simp add: pos_imp_zdiv_nonneg_iff)
  from shapedD [OF inv bs xs] cnt nn have "nat (bt div IDSPERBLOCK B) < length xs" by simp
  with bs xs nn cnt show ?thesis by (simp add: get_slot_def)
qed

lemma set_bit_total:
  "length (ints b) = B \<Longrightarrow> 0 \<le> x \<Longrightarrow> nat (x div 64) < B \<Longrightarrow> \<exists>b'. bitset_block_set_bit b x = Inr b'"
  by (simp add: bitset_block_set_bit_def Let_def)

lemma clr_bit_total:
  "length (ints b) = B \<Longrightarrow> 0 \<le> x \<Longrightarrow> nat (x div 64) < B \<Longrightarrow> \<exists>b'. bitset_block_clr_bit b x = Inr b'"
  by (simp add: bitset_block_clr_bit_def Let_def)

lemma toggle_bit_total:
  "length (ints b) = B \<Longrightarrow> 0 \<le> x \<Longrightarrow> nat (x div 64) < B \<Longrightarrow> \<exists>b'. bitset_block_toggle_bit b x = Inr b'"
  by (simp add: bitset_block_toggle_bit_def Let_def)

lemma test_bit_total:
  "length (ints b) = B \<Longrightarrow> 0 \<le> x \<Longrightarrow> nat (x div 64) < B \<Longrightarrow> \<exists>t. bitset_block_test_bit b x = Inr t"
  by (simp add: bitset_block_test_bit_def Let_def)

lemma malloc_fst:
  "malloc_plan s = malloc_plan t \<Longrightarrow> next_ptr s = next_ptr t \<Longrightarrow> fst (malloc s sz) = fst (malloc t sz)"
  by (simp add: malloc_def split: list.splits)

lemma block_new_total:
  "\<exists>ret r st1. bitset_block_new B st = (ret, r, st1)
     \<and> (ret = OK \<or> ret = ERRMEM \<and> fst (malloc st (sizeof_block B)) = None)"
  by (cases "malloc st (sizeof_block B)") (auto simp: bitset_block_new_def split: option.splits)

lemma block_alloc_total:
  assumes g: "get_slot st a i = Inr None"
  shows "\<exists>ret r st1. bitset_block_alloc B st a i = Inr (ret, r, st1)
     \<and> (ret = OK \<longrightarrow> (\<exists>q b. r = Some q \<and> block_heap st1 q = Some b \<and> length (ints b) = B))
     \<and> (ret = OK \<or> ret = ERRMEM \<and> fst (malloc st (sizeof_block B)) = None)"
proof -
  from block_new_total [of B st] obtain ret r st1 where
    new: "bitset_block_new B st = (ret, r, st1)"
    and alt: "ret = OK \<or> ret = ERRMEM \<and> fst (malloc st (sizeof_block B)) = None"
    by blast
  from block_new_cases [OF new] have h: "bitset_heap st1 = bitset_heap st" by simp
  show ?thesis
  proof (cases "ret = OK")
    case False
    with alt new block_new_cases [OF new] show ?thesis
      by (auto simp: bitset_block_alloc_def)
  next
    case True
    with block_new_cases [OF new] have r: "r = Some (next_ptr st)" by auto
    let ?st2 = "put_block st1 (next_ptr st) \<lparr>ref_count = 1, set_count = 0, ints = replicate B 0\<rparr>"
    from g h have g2: "get_slot ?st2 a i = Inr None" by (simp add: get_slot_def put_block_def)
    from get_slot_cases [OF g2] obtain st3 where s: "set_slot ?st2 a i (Some (next_ptr st)) = Inr st3"
      by (auto simp: set_slot_def)
    from set_slot_cases [OF s] have "block_heap st3 = block_heap ?st2" by auto
    then have "block_heap st3 (next_ptr st) = Some \<lparr>ref_count = 1, set_count = 0, ints = replicate B 0\<rparr>"
      by (simp add: put_block_def)
    with new True r g2 s show ?thesis
      by (simp add: bitset_block_alloc_def Let_def bnd_simps assert_def)
  qed
qed

lemma realloc_total:
  assumes bd: "bounded st" and g: "get_slot st a i = Inr (Some p)"
    and pb: "block_heap st p = Some pb" and sh: "1 < ref_count pb"
  shows "\<exists>ret r st1. bitset_block_realloc B st a i = Inr (ret, r, st1)
     \<and> (ret = OK \<or> ret = ERRMEM \<and> fst (malloc st (sizeof_block B)) = None)"
proof -
  let ?s1 = "put_block st p (pb\<lparr>ref_count := ref_count pb - 1\<rparr>)"
  from pb sh have dec: "bitset_block_decref st p = Inr ?s1"
    by (simp add: bitset_block_decref_def get_block_def bnd_simps)
  from g have "get_slot ?s1 a i = Inr (Some p)" by simp
  from get_slot_cases [OF this] obtain s2 where s2: "set_slot ?s1 a i None = Inr s2"
    by (auto simp: set_slot_def)
  from set_slot_cases [OF s2] have e2: "block_heap s2 = block_heap ?s1" "next_ptr s2 = next_ptr st"
    "malloc_plan s2 = malloc_plan st"
    and g2: "\<exists>bs xs. bitset_heap s2 a = Some bs \<and> blocks bs = Some xs \<and> 0 \<le> i \<and> nat i < length xs"
    by (auto simp: put_block_def)
  from block_new_total [of B s2] obtain ret r s3 where
    new: "bitset_block_new B s2 = (ret, r, s3)"
    and alt: "ret = OK \<or> ret = ERRMEM \<and> fst (malloc s2 (sizeof_block B)) = None"
    by blast
  from e2 have "fst (malloc s2 (sizeof_block B)) = fst (malloc st (sizeof_block B))"
    by (intro malloc_fst) simp_all
  with alt have alt': "ret = OK \<or> ret = ERRMEM \<and> fst (malloc st (sizeof_block B)) = None" by simp
  show ?thesis
  proof (cases "ret = OK")
    case False
    with alt' new block_new_cases [OF new] g pb sh dec s2 show ?thesis
      by (auto simp: bitset_block_realloc_def bnd_simps get_block_def assert_def)
  next
    case True
    with block_new_cases [OF new] e2 have r: "r = Some (next_ptr st)"
      and h3: "bitset_heap s3 = bitset_heap s2"
      and bh3: "block_heap s3 = (block_heap s2)(next_ptr st \<mapsto> \<lparr>ref_count = 0, set_count = 0, ints = replicate B 0\<rparr>)"
      by auto
    from bounded_block [OF bd pb] have ne: "p \<noteq> next_ptr st" by simp
    with bh3 e2 have gb: "get_block s3 p = Inr (pb\<lparr>ref_count := ref_count pb - 1\<rparr>)"
      by (simp add: get_block_def put_block_def)
    from g2 h3 obtain s4 where s4: "set_slot s3 a i (Some (next_ptr st)) = Inr s4"
      by (auto simp: set_slot_def)
    from new True r g pb sh dec s2 gb s4 show ?thesis
      by (simp add: bitset_block_realloc_def bnd_simps get_block_def assert_def)
  qed
qed

lemma cow_choice_total:
  assumes inv: "heap_inv st" and d: "dims B st" and g: "get_slot st a i = Inr (Some p)"
    and pb: "block_heap st p = Some pb"
  shows "\<exists>ret r st1.
       (if 1 < ref_count pb then bitset_block_realloc B st a i else Inr (OK, Some p, st))
         = Inr (ret, r, st1)
     \<and> (ret = OK \<longrightarrow> (\<exists>q b. r = Some q \<and> block_heap st1 q = Some b \<and> length (ints b) = B))
     \<and> (ret = OK \<or> ret = ERRMEM \<and> fst (malloc st (sizeof_block B)) = None)"
proof (cases "1 < ref_count pb")
  case False
  with pb dims_blockD [OF d pb] show ?thesis by simp
next
  case True
  note bd = heap_inv_boundedD [OF inv]
  from realloc_total [OF bd g pb True, of B] obtain ret r st1 where
    re: "bitset_block_realloc B st a i = Inr (ret, r, st1)"
    and alt: "ret = OK \<or> ret = ERRMEM \<and> fst (malloc st (sizeof_block B)) = None"
    by blast
  from realloc_dims [OF bd d re] have d1: "dims B st1" .
  have "\<exists>q b. r = Some q \<and> block_heap st1 q = Some b \<and> length (ints b) = B" if "ret = OK"
    using block_realloc_cases [OF re bd] that dims_blockD [OF d] by auto
  with True re alt show ?thesis by auto
qed

lemma write_tail_total:
  assumes m: "m = Inr (ret1, r, s1)"
    and ok: "ret1 = OK \<longrightarrow> (\<exists>q b. r = Some q \<and> block_heap s1 q = Some b \<and> length (ints b) = B)"
    and alt: "ret1 = OK \<or> ret1 = ERRMEM \<and> C"
    and F: "\<And>b. length (ints b) = B \<Longrightarrow> \<exists>b'. F b = Inr b'"
  shows "\<exists>ret st'. bnd m (\<lambda>(ret, blk, s1).
             if ret \<noteq> OK then Inr (ret, s1)
             else case blk of None \<Rightarrow> Inl e
                  | Some q \<Rightarrow>
                      bnd (get_block s1 q) (\<lambda>b.
                      bnd (F b) (\<lambda>b'. Inr (OK, put_block s1 q b')))) = Inr (ret, st')
         \<and> (ret = OK \<or> ret = ERRMEM \<and> C)"
proof (cases "ret1 = OK")
  case False
  with m alt show ?thesis by (simp add: bnd_simps)
next
  case True
  with ok obtain q b where q: "r = Some q" "block_heap s1 q = Some b" "length (ints b) = B"
    by blast
  from F [OF q(3)] obtain b' where "F b = Inr b'" by blast
  with m True q show ?thesis by (simp add: bnd_simps get_block_def)
qed

lemma bitset_set_total:
  assumes B: "0 < B" and inv: "heap_inv st" and d: "dims B st"
    and bs: "bitset_heap st ap = Some bs" and rng: "0 \<le> bt" "bt < bitcount bs"
  shows "\<exists>ret st'. bitset_set B st (Some ap) bt = Inr (ret, st')
           \<and> (ret = OK \<or> ret = ERRMEM \<and> fst (malloc st (sizeof_block B)) = None)"
proof -
  let ?i = "bt div IDSPERBLOCK B" and ?x = "bt mod IDSPERBLOCK B"
  from slot_of_bit [OF B inv d bs rng] obtain slot where cnt: "?i < block_count bs"
    and g: "get_slot st ap ?i = Inr slot" by blast
  note x = block_bit_range [OF B rng(1)]
  have F: "\<exists>b'. bitset_block_set_bit b ?x = Inr b'" if "length (ints b) = B" for b
    using set_bit_total [OF that x] .
  show ?thesis
  proof (cases slot)
    case None
    from block_alloc_total [OF g [unfolded None], of B] obtain ret1 r s1 where
      m: "bitset_block_alloc B st ap ?i = Inr (ret1, r, s1)"
      and ok: "ret1 = OK \<longrightarrow> (\<exists>q b. r = Some q \<and> block_heap s1 q = Some b \<and> length (ints b) = B)"
      and alt: "ret1 = OK \<or> ret1 = ERRMEM \<and> fst (malloc st (sizeof_block B)) = None"
      by blast
    from write_tail_total [OF m ok alt F] show ?thesis
      by (simp add: bitset_set_unfold [OF bs rng cnt g] None)
  next
    case (Some p)
    from get_slot_cases [OF g [unfolded Some]] bs obtain xs where
      "blocks bs = Some xs" "nat ?i < length xs" "xs ! nat ?i = Some p" by auto
    from held_block_live [OF inv bs this] obtain pb where pb: "block_heap st p = Some pb" by blast
    from test_bit_total [OF dims_blockD [OF d pb] x] obtain t where
      t: "bitset_block_test_bit pb ?x = Inr t" by blast
    show ?thesis
    proof (cases "t = 0")
      case False
      with pb t show ?thesis
        by (simp add: bitset_set_unfold [OF bs rng cnt g] Some get_block_def bnd_simps)
    next
      case True
      from cow_choice_total [OF inv d g [unfolded Some] pb] obtain ret1 r s1 where
        m: "(if 1 < ref_count pb then bitset_block_realloc B st ap ?i else Inr (OK, Some p, st))
             = Inr (ret1, r, s1)"
        and ok: "ret1 = OK \<longrightarrow> (\<exists>q b. r = Some q \<and> block_heap s1 q = Some b \<and> length (ints b) = B)"
        and alt: "ret1 = OK \<or> ret1 = ERRMEM \<and> fst (malloc st (sizeof_block B)) = None"
        by blast
      from pb have gp: "get_block st p = Inr pb" by (simp add: get_block_def)
      from write_tail_total [OF m ok alt F] show ?thesis
        by (simp add: bitset_set_unfold [OF bs rng cnt g] Some gp t True bnd_simps)
    qed
  qed
qed

lemma bitset_clr_total:
  assumes B: "0 < B" and inv: "heap_inv st" and d: "dims B st"
    and bs: "bitset_heap st ap = Some bs" and rng: "0 \<le> bt" "bt < bitcount bs"
  shows "\<exists>ret st'. bitset_clr B st (Some ap) bt = Inr (ret, st')
           \<and> (ret = OK \<or> ret = ERRMEM \<and> fst (malloc st (sizeof_block B)) = None)"
proof -
  let ?i = "bt div IDSPERBLOCK B" and ?x = "bt mod IDSPERBLOCK B"
  from slot_of_bit [OF B inv d bs rng] obtain slot where cnt: "?i < block_count bs"
    and g: "get_slot st ap ?i = Inr slot" by blast
  note x = block_bit_range [OF B rng(1)]
  have F: "\<exists>b'. bitset_block_clr_bit b ?x = Inr b'" if "length (ints b) = B" for b
    using clr_bit_total [OF that x] .
  show ?thesis
  proof (cases slot)
    case None
    then show ?thesis by (simp add: bitset_clr_unfold [OF bs rng cnt g])
  next
    case (Some p)
    from get_slot_cases [OF g [unfolded Some]] bs obtain xs where
      "blocks bs = Some xs" "nat ?i < length xs" "xs ! nat ?i = Some p" by auto
    from held_block_live [OF inv bs this] obtain pb where pb: "block_heap st p = Some pb" by blast
    from test_bit_total [OF dims_blockD [OF d pb] x] obtain t where
      t: "bitset_block_test_bit pb ?x = Inr t" by blast
    show ?thesis
    proof (cases "t = 0")
      case True
      with pb t show ?thesis
        by (simp add: bitset_clr_unfold [OF bs rng cnt g] Some get_block_def bnd_simps)
    next
      case False
      from cow_choice_total [OF inv d g [unfolded Some] pb] obtain ret1 r s1 where
        m: "(if 1 < ref_count pb then bitset_block_realloc B st ap ?i else Inr (OK, Some p, st))
             = Inr (ret1, r, s1)"
        and ok: "ret1 = OK \<longrightarrow> (\<exists>q b. r = Some q \<and> block_heap s1 q = Some b \<and> length (ints b) = B)"
        and alt: "ret1 = OK \<or> ret1 = ERRMEM \<and> fst (malloc st (sizeof_block B)) = None"
        by blast
      from pb have gp: "get_block st p = Inr pb" by (simp add: get_block_def)
      from write_tail_total [OF m ok alt F] show ?thesis
        by (simp add: bitset_clr_unfold [OF bs rng cnt g] Some gp t False bnd_simps)
    qed
  qed
qed

lemma bitset_toggle_bit_total:
  assumes B: "0 < B" and inv: "heap_inv st" and d: "dims B st"
    and bs: "bitset_heap st ap = Some bs" and rng: "0 \<le> bt" "bt < bitcount bs"
  shows "\<exists>ret st'. bitset_toggle_bit B st (Some ap) bt = Inr (ret, st')
           \<and> (ret = OK \<or> ret = ERRMEM \<and> fst (malloc st (sizeof_block B)) = None)"
proof -
  let ?i = "bt div IDSPERBLOCK B" and ?x = "bt mod IDSPERBLOCK B"
  from slot_of_bit [OF B inv d bs rng] obtain slot where cnt: "?i < block_count bs"
    and g: "get_slot st ap ?i = Inr slot" by blast
  note x = block_bit_range [OF B rng(1)]
  have F: "\<exists>b'. bitset_block_toggle_bit b ?x = Inr b'" if "length (ints b) = B" for b
    using toggle_bit_total [OF that x] .
  have "\<exists>ret1 r s1.
       (case slot of
          None \<Rightarrow> bitset_block_alloc B st ap ?i
        | Some p \<Rightarrow>
            bnd (get_block st p) (\<lambda>pb.
              if ref_count pb > 1 then bitset_block_realloc B st ap ?i
              else Inr (OK, Some p, st))) = Inr (ret1, r, s1)
     \<and> (ret1 = OK \<longrightarrow> (\<exists>q b. r = Some q \<and> block_heap s1 q = Some b \<and> length (ints b) = B))
     \<and> (ret1 = OK \<or> ret1 = ERRMEM \<and> fst (malloc st (sizeof_block B)) = None)"
  proof (cases slot)
    case None
    from block_alloc_total [OF g [unfolded None], of B] show ?thesis by (simp add: None)
  next
    case (Some p)
    from get_slot_cases [OF g [unfolded Some]] bs obtain xs where
      "blocks bs = Some xs" "nat ?i < length xs" "xs ! nat ?i = Some p" by auto
    from held_block_live [OF inv bs this] obtain pb where pb: "block_heap st p = Some pb" by blast
    from cow_choice_total [OF inv d g [unfolded Some] pb] pb show ?thesis
      by (simp add: Some get_block_def bnd_simps)
  qed
  then obtain ret1 r s1 where
    m: "(case slot of
          None \<Rightarrow> bitset_block_alloc B st ap ?i
        | Some p \<Rightarrow>
            bnd (get_block st p) (\<lambda>pb.
              if ref_count pb > 1 then bitset_block_realloc B st ap ?i
              else Inr (OK, Some p, st))) = Inr (ret1, r, s1)"
    and ok: "ret1 = OK \<longrightarrow> (\<exists>q b. r = Some q \<and> block_heap s1 q = Some b \<and> length (ints b) = B)"
    and alt: "ret1 = OK \<or> ret1 = ERRMEM \<and> fst (malloc st (sizeof_block B)) = None"
    by blast
  from write_tail_total [OF m ok alt F] show ?thesis
    by (simp add: bitset_toggle_bit_unfold [OF bs rng cnt g])
qed

subsection \<open>A toggled bit\<close>

lemma and_mask_bit:
  assumes k: "k < 64"
  shows "(x AND push_bit k 1 = 0) = (\<not> bit (x :: 64 word) k)"
proof
  assume "x AND push_bit k 1 = 0"
  then have "\<not> bit (x AND push_bit k 1) k" by simp
  with k show "\<not> bit x k" by (simp add: bit_and_iff bit_push_bit_iff bit_exp_iff)
next
  assume "\<not> bit x k"
  then show "x AND push_bit k 1 = 0"
    by (intro bit_eqI) (auto simp: bit_and_iff bit_push_bit_iff bit_exp_iff)
qed

lemma mask_flip:
  "k < 64 \<Longrightarrow> ((w XOR push_bit k 1) AND push_bit k 1 = 0) = (w AND push_bit k 1 \<noteq> (0 :: 64 word))"
  by (simp only: and_mask_bit) (simp add: bit_xor_iff bit_push_bit_iff bit_exp_iff)

lemma toggle_flips:
  assumes "bitset_block_toggle_bit b x = Inr b'" and "bitset_block_test_bit b x = Inr t"
  shows "bitset_block_test_bit b' x = Inr (1 - t)"
proof -
  let ?n = "nat (x div 64)" and ?k = "nat (x mod 64)"
  from assms(1) have ok: "0 \<le> x" "?n < length (ints b)"
    and b': "ints b' = (ints b)[?n := (ints b ! ?n) XOR push_bit ?k 1]"
    by (auto simp only: bitset_block_toggle_bit_def Let_def split: if_splits) simp_all
  have k: "?k < 64" using ok(1) by (rule nat_mod_64)
  from assms(2) ok have t: "t = (if (ints b ! ?n) AND push_bit ?k 1 \<noteq> 0 then 1 else 0)"
    by (simp only: bitset_block_test_bit_def Let_def) simp
  have "bitset_block_test_bit b' x
        = Inr (if ((ints b ! ?n) XOR push_bit ?k 1) AND push_bit ?k 1 \<noteq> 0 then 1 else 0)"
    using ok by (simp only: bitset_block_test_bit_def Let_def b') simp
  also have "\<dots> = Inr (1 - t)"
    using mask_flip [OF k, of "ints b ! ?n"] by (simp only: t split: if_splits) simp
  finally show ?thesis .
qed

lemma toggle_round_trip:
  assumes inv: "heap_inv st" and r: "bitset_toggle_bit B st a bt = Inr (OK, st1)"
  shows "\<exists>st2 t. bitset_toggle_bit B st1 a bt = Inr (OK, st2)
           \<and> bitset_test_bit B st a bt (Some v) = Inr (OK, Some t)
           \<and> bitset_test_bit B st1 a bt (Some v) = Inr (OK, Some (1 - t))
           \<and> bitset_test_bit B st2 a bt (Some v) = Inr (OK, Some t)"
proof -
  let ?i = "bt div IDSPERBLOCK B" and ?x = "bt mod IDSPERBLOCK B"
  note bd = heap_inv_boundedD [OF inv]
  from toggle_checks [OF r] obtain ap bs slot where a: "a = Some ap"
    and bs: "bitset_heap st ap = Some bs" and rng: "0 \<le> bt" "bt < bitcount bs"
    and cnt: "?i < block_count bs" and g: "get_slot st ap ?i = Inr slot"
    by auto
  note r' = r [unfolded a bitset_toggle_bit_unfold [OF bs rng cnt g]]
  from write_bit_OK [OF r'] obtain s1 q b b' where
    stage: "(case slot of
               None \<Rightarrow> bitset_block_alloc B st ap ?i
             | Some p \<Rightarrow>
                 bnd (get_block st p) (\<lambda>pb.
                   if ref_count pb > 1 then bitset_block_realloc B st ap ?i
                   else Inr (OK, Some p, st))) = Inr (OK, Some q, s1)"
    and q: "block_heap s1 q = Some b" "bitset_block_toggle_bit b ?x = Inr b'"
      "st1 = put_block s1 q b'"
    by blast
  from toggle_twice [OF q(2)] obtain b'' where
    b'': "bitset_block_toggle_bit b' ?x = Inr b''" "ref_count b'' = ref_count b"
      "bitset_block_test_bit b'' ?x = bitset_block_test_bit b ?x"
    by blast
  from test_bit_range [of b ?x] q(2) obtain t where t: "bitset_block_test_bit b ?x = Inr t"
    by (auto simp: bitset_block_toggle_bit_def bitset_block_test_bit_def Let_def split: if_splits)
  have st: "\<exists>bs1. bitset_heap s1 ap = Some bs1 \<and> bitcount bs1 = bitcount bs
            \<and> block_count bs1 = block_count bs \<and> get_slot s1 ap ?i = Inr (Some q)
            \<and> \<not> 1 < ref_count b
            \<and> bitset_test_bit B st (Some ap) bt (Some v) = Inr (OK, Some t)"
  proof (cases slot)
    case None
    with stage have al: "bitset_block_alloc B st ap ?i = Inr (OK, Some q, s1)" by simp
    from alloc_stage [OF bs al] q test_bit_zero [of 1 0 B ?x b'] t
      test_reads_none [OF bs rng cnt g [unfolded None], of v]
    show ?thesis by auto
  next
    case (Some p)
    with stage obtain pb where pb: "block_heap st p = Some pb"
      and cow: "(if 1 < ref_count pb then bitset_block_realloc B st ap ?i else Inr (OK, Some p, st))
               = Inr (OK, Some q, s1)"
      by (auto simp: bnd_Inr_iff get_block_cases)
    note rd = test_reads_block [OF bs rng cnt g [unfolded Some] pb, of v]
    show ?thesis
    proof (cases "1 < ref_count pb")
      case True
      with cow have re: "bitset_block_realloc B st ap ?i = Inr (OK, Some q, s1)" by simp
      from realloc_stage [OF bd bs re] q g Some pb obtain bs1 where
        1: "bitset_heap s1 ap = Some bs1" "bitcount bs1 = bitcount bs"
          "block_count bs1 = block_count bs" "get_slot s1 ap ?i = Inr (Some q)"
        and 2: "b = \<lparr>ref_count = 1, set_count = set_count pb, ints = ints pb\<rparr>"
        by auto
      from 2 have "bitset_block_test_bit pb ?x = bitset_block_test_bit b ?x"
        by (intro test_bit_ints) simp
      with 1 2 rd t show ?thesis by (simp add: bnd_simps)
    next
      case False
      with cow q bs g Some pb rd t show ?thesis by (auto simp: bnd_simps)
    qed
  qed
  then obtain bs1 where
    1: "bitset_heap s1 ap = Some bs1" "bitcount bs1 = bitcount bs"
      "block_count bs1 = block_count bs" "get_slot s1 ap ?i = Inr (Some q)"
    and 2: "\<not> 1 < ref_count b"
    and 3: "bitset_test_bit B st (Some ap) bt (Some v) = Inr (OK, Some t)"
    by blast
  have bs1': "bitset_heap st1 ap = Some bs1" and g1: "get_slot st1 ap ?i = Inr (Some q)"
    and q1: "block_heap st1 q = Some b'"
    using 1 q by (simp_all add: put_block_def get_slot_def)
  from toggle_bit_rc [OF q(2)] 2 have 4: "\<not> 1 < ref_count b'" by simp
  have second: "bitset_toggle_bit B st1 (Some ap) bt = Inr (OK, put_block st1 q b'')"
    using rng cnt 1 4 q1 b''
    by (simp add: bitset_toggle_bit_unfold [OF bs1' _ _ _ g1] get_block_def bnd_simps)
  have "bitset_test_bit B (put_block st1 q b'') (Some ap) bt (Some v) = Inr (OK, Some t)"
    using rng cnt 1 b'' t
    by (simp add: test_reads_block_put [OF bs1' _ _ _ g1] bnd_simps)
  moreover have "bitset_test_bit B st1 (Some ap) bt (Some v) = Inr (OK, Some (1 - t))"
    using rng cnt 1 toggle_flips [OF q(2) t]
    by (simp add: test_reads_block [OF bs1' _ _ _ g1 q1] bnd_simps)
  ultimately show ?thesis using second 3 by (auto simp: a)
qed

lemma run_after: "run B (init_state []) cs = Inr st \<Longrightarrow> after B cs = st"
  by (simp add: after_def)

text \<open>
  C9. In every memory that a sequence of calls leaves (block size not 0), for every live
  bitset and every index \<open>bt\<close> with \<open>0 \<le> bt < bitcount\<close>: \<^verbatim>\<open>bitset_set\<close>, \<^verbatim>\<open>bitset_clr\<close> and
  \<^verbatim>\<open>bitset_toggle_bit\<close> return, with \<^verbatim>\<open>OK\<close>, or with \<^verbatim>\<open>ERRMEM\<close> when \<^verbatim>\<open>malloc\<close> of a block
  fails, and never with \<^verbatim>\<open>ERRINPUT\<close> or a fault. After \<^verbatim>\<open>bitset_set\<close> has returned \<^verbatim>\<open>OK\<close>,
  \<^verbatim>\<open>bitset_test_bit\<close> gives 1 for the bit; after \<^verbatim>\<open>bitset_clr\<close>, 0; after
  \<^verbatim>\<open>bitset_toggle_bit\<close> it gives the opposite of what it gave before, a second
  \<^verbatim>\<open>bitset_toggle_bit\<close> returns \<^verbatim>\<open>OK\<close> and then the test gives again what it gave at first.
\<close>

theorem bit_round_trip:
  assumes B: "0 < B" and run: "run B (init_state plan) cs = Inr st"
    and bs: "bitset_heap st a = Some bs" and rng: "0 \<le> bt" "bt < bitcount bs"
  shows "(\<exists>ret st1. bitset_set B st (Some a) bt = Inr (ret, st1)
            \<and> (ret = OK \<or> ret = ERRMEM \<and> fst (malloc st (sizeof_block B)) = None)
            \<and> (ret = OK \<longrightarrow> bitset_test_bit B st1 (Some a) bt (Some v) = Inr (OK, Some 1)))
       \<and> (\<exists>ret st1. bitset_clr B st (Some a) bt = Inr (ret, st1)
            \<and> (ret = OK \<or> ret = ERRMEM \<and> fst (malloc st (sizeof_block B)) = None)
            \<and> (ret = OK \<longrightarrow> bitset_test_bit B st1 (Some a) bt (Some v) = Inr (OK, Some 0)))
       \<and> (\<exists>ret st1. bitset_toggle_bit B st (Some a) bt = Inr (ret, st1)
            \<and> (ret = OK \<or> ret = ERRMEM \<and> fst (malloc st (sizeof_block B)) = None)
            \<and> (ret = OK \<longrightarrow>
                 (\<exists>st2 t. bitset_toggle_bit B st1 (Some a) bt = Inr (OK, st2)
                    \<and> bitset_test_bit B st (Some a) bt (Some v) = Inr (OK, Some t)
                    \<and> bitset_test_bit B st1 (Some a) bt (Some v) = Inr (OK, Some (1 - t))
                    \<and> bitset_test_bit B st2 (Some a) bt (Some v) = Inr (OK, Some t))))"
proof (intro conjI)
  note inv = run_inv [OF heap_inv_init run]
  note d = run_dims [OF B heap_inv_init dims_init run]
  from bitset_set_total [OF B inv d bs rng] obtain ret st1 where
    r: "bitset_set B st (Some a) bt = Inr (ret, st1)"
    and alt: "ret = OK \<or> ret = ERRMEM \<and> fst (malloc st (sizeof_block B)) = None"
    by blast
  have "bitset_test_bit B st1 (Some a) bt (Some v) = Inr (OK, Some 1)" if "ret = OK"
    using set_then_test [OF inv r [unfolded that]] .
  with r alt show "\<exists>ret st1. bitset_set B st (Some a) bt = Inr (ret, st1)
            \<and> (ret = OK \<or> ret = ERRMEM \<and> fst (malloc st (sizeof_block B)) = None)
            \<and> (ret = OK \<longrightarrow> bitset_test_bit B st1 (Some a) bt (Some v) = Inr (OK, Some 1))"
    by blast
next
  note inv = run_inv [OF heap_inv_init run]
  note d = run_dims [OF B heap_inv_init dims_init run]
  from bitset_clr_total [OF B inv d bs rng] obtain ret st1 where
    r: "bitset_clr B st (Some a) bt = Inr (ret, st1)"
    and alt: "ret = OK \<or> ret = ERRMEM \<and> fst (malloc st (sizeof_block B)) = None"
    by blast
  have "bitset_test_bit B st1 (Some a) bt (Some v) = Inr (OK, Some 0)" if "ret = OK"
    using clr_then_test [OF inv r [unfolded that]] .
  with r alt show "\<exists>ret st1. bitset_clr B st (Some a) bt = Inr (ret, st1)
            \<and> (ret = OK \<or> ret = ERRMEM \<and> fst (malloc st (sizeof_block B)) = None)
            \<and> (ret = OK \<longrightarrow> bitset_test_bit B st1 (Some a) bt (Some v) = Inr (OK, Some 0))"
    by blast
next
  note inv = run_inv [OF heap_inv_init run]
  note d = run_dims [OF B heap_inv_init dims_init run]
  from bitset_toggle_bit_total [OF B inv d bs rng] obtain ret st1 where
    r: "bitset_toggle_bit B st (Some a) bt = Inr (ret, st1)"
    and alt: "ret = OK \<or> ret = ERRMEM \<and> fst (malloc st (sizeof_block B)) = None"
    by blast
  have "\<exists>st2 t. bitset_toggle_bit B st1 (Some a) bt = Inr (OK, st2)
                    \<and> bitset_test_bit B st (Some a) bt (Some v) = Inr (OK, Some t)
                    \<and> bitset_test_bit B st1 (Some a) bt (Some v) = Inr (OK, Some (1 - t))
                    \<and> bitset_test_bit B st2 (Some a) bt (Some v) = Inr (OK, Some t)" if "ret = OK"
    using toggle_round_trip [OF inv r [unfolded that]] .
  with r alt show "\<exists>ret st1. bitset_toggle_bit B st (Some a) bt = Inr (ret, st1)
            \<and> (ret = OK \<or> ret = ERRMEM \<and> fst (malloc st (sizeof_block B)) = None)
            \<and> (ret = OK \<longrightarrow>
                 (\<exists>st2 t. bitset_toggle_bit B st1 (Some a) bt = Inr (OK, st2)
                    \<and> bitset_test_bit B st (Some a) bt (Some v) = Inr (OK, Some t)
                    \<and> bitset_test_bit B st1 (Some a) bt (Some v) = Inr (OK, Some (1 - t))
                    \<and> bitset_test_bit B st2 (Some a) bt (Some v) = Inr (OK, Some t)))"
    by blast
qed

theorem bit_round_trip_witness:
  "run 2 (init_state []) shared_calls = Inr (after 2 shared_calls)
   \<and> bitset_bitcount (after 2 shared_calls) (Some 4) = Inr (Inr 200)
   \<and> bitset_set 2 (after 2 shared_calls) (Some 4) 151
       = Inr (OK, after 2 (shared_calls @ [CSet (Some 4) 151]))
   \<and> bitset_test_bit 2 (after 2 (shared_calls @ [CSet (Some 4) 151])) (Some 4) 151 (Some 0)
       = Inr (OK, Some 1)
   \<and> bitset_clr 2 (after 2 shared_calls) (Some 4) 150
       = Inr (OK, after 2 (shared_calls @ [CClr (Some 4) 150]))
   \<and> bitset_test_bit 2 (after 2 (shared_calls @ [CClr (Some 4) 150])) (Some 4) 150 (Some 1)
       = Inr (OK, Some 0)
   \<and> bitset_test_bit 2 (after 2 shared_calls) (Some 4) 150 (Some 0) = Inr (OK, Some 1)
   \<and> bitset_test_bit 2 (after 2 (shared_calls @ [CToggle (Some 4) 150])) (Some 4) 150 (Some 0)
       = Inr (OK, Some 0)
   \<and> bitset_test_bit 2 (after 2 (shared_calls @ [CToggle (Some 4) 150, CToggle (Some 4) 150]))
       (Some 4) 150 (Some 0)
       = Inr (OK, Some 1)"
proof -
  let ?S = "after 2 shared_calls"
  let ?bs = "\<lparr>bitcount = 200, block_count = 2, blocks = Some [Some 6, Some 3]\<rparr>"
  have run: "run 2 (init_state []) shared_calls = Inr ?S"
    by (simp add: model_defs shared_calls_def upt_2)
  have bs: "bitset_heap ?S 4 = Some ?bs"
    by (simp add: model_defs shared_calls_def upt_2 replicate_2)
  have n: "bitset_bitcount ?S (Some 4) = Inr (Inr 200)"
    by (simp add: model_defs shared_calls_def upt_2)
  have 1: "bitset_set 2 ?S (Some 4) 151 = Inr (OK, after 2 (shared_calls @ [CSet (Some 4) 151]))"
    by (simp add: model_defs shared_calls_def upt_2)
  have 2: "bitset_clr 2 ?S (Some 4) 150 = Inr (OK, after 2 (shared_calls @ [CClr (Some 4) 150]))"
    by (simp add: model_defs shared_calls_def upt_2)
  have 3: "bitset_toggle_bit 2 ?S (Some 4) 150
             = Inr (OK, after 2 (shared_calls @ [CToggle (Some 4) 150]))"
    by (simp add: model_defs shared_calls_def upt_2)
  have 4: "bitset_toggle_bit 2 (after 2 (shared_calls @ [CToggle (Some 4) 150])) (Some 4) 150
             = Inr (OK, after 2 (shared_calls @ [CToggle (Some 4) 150, CToggle (Some 4) 150]))"
    by (simp add: model_defs shared_calls_def upt_2)
  have 5: "bitset_test_bit 2 ?S (Some 4) 150 (Some 0) = Inr (OK, Some 1)"
    by (simp add: model_defs shared_calls_def upt_2)
  have T: "(\<exists>ret st1. bitset_set 2 ?S (Some 4) bt = Inr (ret, st1)
            \<and> (ret = OK \<or> ret = ERRMEM \<and> fst (malloc ?S (sizeof_block 2)) = None)
            \<and> (ret = OK \<longrightarrow> bitset_test_bit 2 st1 (Some 4) bt (Some v) = Inr (OK, Some 1)))
       \<and> (\<exists>ret st1. bitset_clr 2 ?S (Some 4) bt = Inr (ret, st1)
            \<and> (ret = OK \<or> ret = ERRMEM \<and> fst (malloc ?S (sizeof_block 2)) = None)
            \<and> (ret = OK \<longrightarrow> bitset_test_bit 2 st1 (Some 4) bt (Some v) = Inr (OK, Some 0)))
       \<and> (\<exists>ret st1. bitset_toggle_bit 2 ?S (Some 4) bt = Inr (ret, st1)
            \<and> (ret = OK \<or> ret = ERRMEM \<and> fst (malloc ?S (sizeof_block 2)) = None)
            \<and> (ret = OK \<longrightarrow>
                 (\<exists>st2 t. bitset_toggle_bit 2 st1 (Some 4) bt = Inr (OK, st2)
                    \<and> bitset_test_bit 2 ?S (Some 4) bt (Some v) = Inr (OK, Some t)
                    \<and> bitset_test_bit 2 st1 (Some 4) bt (Some v) = Inr (OK, Some (1 - t))
                    \<and> bitset_test_bit 2 st2 (Some 4) bt (Some v) = Inr (OK, Some t))))"
    if "0 \<le> bt" "bt < 200" for bt v
    using bit_round_trip [of 2 "[]" shared_calls ?S 4 ?bs bt v] run bs that by simp
  from T [of 151 0] 1 have a:
    "bitset_test_bit 2 (after 2 (shared_calls @ [CSet (Some 4) 151])) (Some 4) 151 (Some 0)
       = Inr (OK, Some 1)"
    by auto
  from T [of 150 1] 2 have b:
    "bitset_test_bit 2 (after 2 (shared_calls @ [CClr (Some 4) 150])) (Some 4) 150 (Some 1)
       = Inr (OK, Some 0)"
    by auto
  from T [of 150 0] 3 obtain st2 t where
    "bitset_toggle_bit 2 (after 2 (shared_calls @ [CToggle (Some 4) 150])) (Some 4) 150 = Inr (OK, st2)"
    "bitset_test_bit 2 ?S (Some 4) 150 (Some 0) = Inr (OK, Some t)"
    "bitset_test_bit 2 (after 2 (shared_calls @ [CToggle (Some 4) 150])) (Some 4) 150 (Some 0)
       = Inr (OK, Some (1 - t))"
    "bitset_test_bit 2 st2 (Some 4) 150 (Some 0) = Inr (OK, Some t)"
    by auto
  with 4 5 have c:
    "bitset_test_bit 2 (after 2 (shared_calls @ [CToggle (Some 4) 150])) (Some 4) 150 (Some 0)
       = Inr (OK, Some 0)"
    "bitset_test_bit 2
       (after 2 (shared_calls @ [CToggle (Some 4) 150, CToggle (Some 4) 150])) (Some 4) 150 (Some 0)
     = Inr (OK, Some 1)"
    by simp_all
  from run n 1 2 5 a b c show ?thesis by simp
qed

section \<open>The clone keeps the bits\<close>

lemma bit_position:
  assumes "0 \<le> x" and "0 \<le> y" and "x \<noteq> (y :: int)"
  shows "nat (x div 64) \<noteq> nat (y div 64) \<or> nat (x mod 64) \<noteq> nat (y mod 64)"
proof (rule ccontr)
  assume "\<not> ?thesis"
  with assms have "x div 64 = y div 64" "x mod 64 = y mod 64"
    by (simp_all add: nat_eq_iff pos_imp_zdiv_nonneg_iff)
  then have "x = y" by (metis div_mult_mod_eq)
  with assms show False by simp
qed

lemma or_mask_other:
  assumes "k < 64" and "k' < 64" and "k' \<noteq> k"
  shows "((w OR push_bit k 1) AND push_bit k' 1 = 0) = (w AND push_bit k' 1 = (0 :: 64 word))"
  using assms by (simp only: and_mask_bit) (simp add: bit_or_iff bit_push_bit_iff bit_exp_iff)

lemma set_bit_other:
  assumes s: "bitset_block_set_bit b x = Inr b'" and ne: "y \<noteq> x"
  shows "bitset_block_test_bit b' y = bitset_block_test_bit b y"
proof (cases "0 \<le> y \<and> nat (y div 64) < length (ints b)")
  case False
  with set_bit_len [OF s] show ?thesis by (auto simp: bitset_block_test_bit_def Let_def)
next
  case True
  let ?n = "nat (x div 64)" and ?k = "nat (x mod 64)"
  let ?n' = "nat (y div 64)" and ?k' = "nat (y mod 64)"
  from s have x: "0 \<le> x" "?n < length (ints b)"
    and b': "ints b' = (ints b)[?n := (ints b ! ?n) OR push_bit ?k 1]"
    by (auto simp only: bitset_block_set_bit_def Let_def split: if_splits) simp_all
  from True have y: "0 \<le> y" "?n' < length (ints b)" by simp_all
  have k: "?k < 64" "?k' < 64" using x y by (simp_all add: nat_mod_64)
  have w: "(ints b' ! ?n' AND push_bit ?k' 1 = 0) = (ints b ! ?n' AND push_bit ?k' 1 = 0)"
  proof (cases "?n' = ?n")
    case False
    then show ?thesis by (simp only: b' nth_list_update_neq [OF False [symmetric]])
  next
    case same: True
    with bit_position [OF x(1) y(1)] ne have "?k' \<noteq> ?k" by auto
    from or_mask_other [OF k this] x same show ?thesis by (simp only: b' nth_list_update_eq)
  qed
  have "bitset_block_test_bit b' y = Inr (if ints b' ! ?n' AND push_bit ?k' 1 \<noteq> 0 then 1 else 0)"
    using y by (simp only: bitset_block_test_bit_def Let_def b' length_list_update) simp
  also have "\<dots> = Inr (if ints b ! ?n' AND push_bit ?k' 1 \<noteq> 0 then 1 else 0)"
    by (simp only: w)
  also have "\<dots> = bitset_block_test_bit b y"
    using y by (simp only: bitset_block_test_bit_def Let_def) simp
  finally show ?thesis .
qed

lemma block_index:
  assumes "j \<noteq> bt" and "j div I = bt div I"
  shows "j mod I \<noteq> bt mod (I :: int)"
  using assms by (metis div_mult_mod_eq)

text \<open>
  The bits of a bitset after a slot has got another block: every bit outside the slot is as
  it was when the blocks of the other slots kept their words.
\<close>

lemma test_after_slot_change:
  assumes inv: "heap_inv st1" and bs: "bitset_heap st1 a = Some bs" and xs: "blocks bs = Some xs"
    and h: "bitset_heap st2 a = Some (bs\<lparr>blocks := Some (xs[nat i := Some n])\<rparr>)"
    and i: "0 \<le> i" "nat i < length xs" and old: "xs ! nat i = Some q"
    and pb: "block_heap st1 q = Some pb" and nb: "block_heap st2 n = Some nb"
    and keep: "\<And>p. p \<noteq> n \<Longrightarrow> map_option ints (block_heap st2 p) = map_option ints (block_heap st1 p)"
    and fresh: "block_heap st1 n = None"
    and slot: "\<And>y. y \<noteq> x \<Longrightarrow> bitset_block_test_bit nb y = bitset_block_test_bit pb y"
    and j: "j div IDSPERBLOCK B \<noteq> i \<or> j mod IDSPERBLOCK B \<noteq> x"
  shows "bitset_test_bit B st2 (Some a) j v = bitset_test_bit B st1 (Some a) j v"
proof (cases "j < 0 \<or> bitcount bs \<le> j \<or> v = None")
  case True
  then show ?thesis
    by (auto simp: bitset_test_bit_def get_bitset_def bs h bnd_simps)
next
  case False
  let ?k = "j div IDSPERBLOCK B" and ?y = "j mod IDSPERBLOCK B"
  from False obtain v0 where v: "v = Some v0" and rng: "0 \<le> j" "j < bitcount bs" by auto
  from rng have nn: "0 \<le> ?k" by (auto simp: IDSPERBLOCK_def div_int_pos_iff)
  show ?thesis
  proof (cases "?k < block_count bs \<and> nat ?k < length xs")
    case out: False
    with v rng nn show ?thesis
      by (auto simp: bitset_test_bit_def get_bitset_def get_slot_def bs h xs bnd_simps assert_def Let_def)
  next
    case True
    have head1: "bitset_test_bit B st1 (Some a) j v
          = (case xs ! nat ?k of None \<Rightarrow> Inr (OK, Some 0)
             | Some p \<Rightarrow> bnd (get_block st1 p) (\<lambda>pb.
                 bnd (bitset_block_test_bit pb ?y) (\<lambda>t. Inr (OK, Some t))))"
      using v rng True nn
      by (simp add: bitset_test_bit_def get_bitset_def get_slot_def bs xs bnd_simps assert_def Let_def)
    have head2: "bitset_test_bit B st2 (Some a) j v
          = (case xs[nat i := Some n] ! nat ?k of None \<Rightarrow> Inr (OK, Some 0)
             | Some p \<Rightarrow> bnd (get_block st2 p) (\<lambda>pb.
                 bnd (bitset_block_test_bit pb ?y) (\<lambda>t. Inr (OK, Some t))))"
      using v rng True nn
      by (simp add: bitset_test_bit_def get_bitset_def get_slot_def h bnd_simps assert_def Let_def)
    show ?thesis
    proof (cases "?k = i")
      case same: True
      with j have "?y \<noteq> x" by simp
      from slot [OF this] same i old pb nb show ?thesis
        by (simp add: head1 head2 get_block_def bnd_simps)
    next
      case other: False
      with nn i have ne: "nat i \<noteq> nat ?k" by (simp add: nat_eq_iff)
      show ?thesis
      proof (cases "xs ! nat ?k")
        case None
        with ne show ?thesis by (simp add: head1 head2)
      next
        case (Some p)
        from True have "nat ?k < length xs" by simp
        from held_block_live [OF inv bs xs this Some] obtain b where b: "block_heap st1 p = Some b"
          by blast
        with fresh have "p \<noteq> n" by auto
        from keep [OF this] b obtain b2 where b2: "block_heap st2 p = Some b2" "ints b2 = ints b"
          by auto
        from test_bit_ints [OF b2(2)] Some ne b b2 show ?thesis
          by (simp add: head1 head2 get_block_def bnd_simps)
      qed
    qed
  qed
qed

lemma set_shared_clone:
  assumes inv: "heap_inv st1" and ne: "a \<noteq> b"
    and sa: "get_slot st1 a (bt div IDSPERBLOCK B) = Inr (Some q)"
    and sb: "get_slot st1 b k = Inr (Some q)"
    and r: "bitset_set B st1 (Some a) bt = Inr (OK, st2)"
  shows "(\<forall>j v. j \<noteq> bt \<longrightarrow> bitset_test_bit B st2 (Some a) j v = bitset_test_bit B st1 (Some a) j v)
       \<and> (bitset_test_bit B st1 (Some a) bt (Some 0) = Inr (OK, Some 0)
            \<longrightarrow> (\<exists>qb nb. block_heap st1 q = Some qb
                   \<and> block_heap st2 q = Some (qb\<lparr>ref_count := ref_count qb - 1\<rparr>)
                   \<and> block_heap st2 (next_ptr st1) = Some nb
                   \<and> bitset_block_set_bit \<lparr>ref_count = 1, set_count = set_count qb, ints = ints qb\<rparr>
                        (bt mod IDSPERBLOCK B) = Inr nb))"
proof -
  let ?i = "bt div IDSPERBLOCK B" and ?x = "bt mod IDSPERBLOCK B"
  note bd = heap_inv_boundedD [OF inv]
  from set_checks [OF r] sa obtain bs where
    bs: "bitset_heap st1 a = Some bs" and rng: "0 \<le> bt" "bt < bitcount bs"
    and cnt: "?i < block_count bs"
    by auto
  note r' = r [unfolded bitset_set_unfold [OF bs rng cnt sa]]
  from shared_refs [OF inv ne sa sb] obtain pb where
    pb: "block_heap st1 q = Some pb" "1 < ref_count pb" by blast
  from r' pb obtain t where t: "bitset_block_test_bit pb ?x = Inr t"
    by (auto simp: bnd_Inr_iff get_block_cases)
  note rd = test_reads_block [OF bs rng cnt sa pb(1), of 0]
  show ?thesis
  proof (cases "t = 0")
    case False
    with r' pb t have "st2 = st1" by (simp add: get_block_def bnd_simps)
    with rd t False show ?thesis by (simp add: bnd_simps)
  next
    case True
    with r' pb t have tail:
      "bnd (bitset_block_realloc B st1 a ?i) (\<lambda>(ret, blk, s1).
          if ret \<noteq> OK then Inr (ret, s1)
          else case blk of None \<Rightarrow> Inl BadAccess
               | Some q \<Rightarrow>
                   bnd (get_block s1 q) (\<lambda>b.
                   bnd (bitset_block_set_bit b ?x) (\<lambda>b'.
                   Inr (OK, put_block s1 q b')))) = Inr (OK, st2)"
      by (simp add: get_block_def bnd_simps)
    from write_bit_OK [OF tail] obtain s1 n b0 b' where
      re: "bitset_block_realloc B st1 a ?i = Inr (OK, Some n, s1)"
      and n: "block_heap s1 n = Some b0" "bitset_block_set_bit b0 ?x = Inr b'"
        "st2 = put_block s1 n b'"
      by blast
    from block_realloc_cases [OF re bd] bs sa pb obtain xs where
      xs: "blocks bs = Some xs" and i: "0 \<le> ?i" "nat ?i < length xs" "xs ! nat ?i = Some q"
      and nn: "n = next_ptr st1"
      and bh: "block_heap s1 = (block_heap st1)
                   (q \<mapsto> pb\<lparr>ref_count := ref_count pb - 1\<rparr>,
                    next_ptr st1 \<mapsto> \<lparr>ref_count = 1, set_count = set_count pb, ints = ints pb\<rparr>)"
      and h: "bitset_heap s1 = (bitset_heap st1)(a \<mapsto> bs\<lparr>blocks := Some (xs[nat ?i := Some (next_ptr st1)])\<rparr>)"
      by (auto simp: get_slot_def)
    from bounded_block [OF bd pb(1)] have fresh: "q \<noteq> next_ptr st1" by simp
    have none: "block_heap st1 (next_ptr st1) = None"
      using bd by (simp add: bounded_def)
    from n(1) bh nn have b0: "b0 = \<lparr>ref_count = 1, set_count = set_count pb, ints = ints pb\<rparr>"
      by simp
    have h2: "bitset_heap st2 a = Some (bs\<lparr>blocks := Some (xs[nat ?i := Some (next_ptr st1)])\<rparr>)"
      by (simp add: n(3) h put_block_def)
    have nb: "block_heap st2 (next_ptr st1) = Some b'"
      by (simp add: n(3) nn put_block_def)
    have keep: "map_option ints (block_heap st2 p) = map_option ints (block_heap st1 p)"
      if "p \<noteq> next_ptr st1" for p
      using that pb by (simp add: n(3) nn bh put_block_def)
    have slot: "bitset_block_test_bit b' y = bitset_block_test_bit pb y" if "y \<noteq> ?x" for y
      using set_bit_other [OF n(2) that] test_bit_ints [of b0 pb y] by (simp add: b0)
    have others: "bitset_test_bit B st2 (Some a) j v = bitset_test_bit B st1 (Some a) j v"
      if "j \<noteq> bt" for j v
    proof (rule test_after_slot_change [OF inv bs xs h2 i pb(1) nb keep none slot])
      show "j div IDSPERBLOCK B \<noteq> ?i \<or> j mod IDSPERBLOCK B \<noteq> ?x"
        using block_index [OF that] by blast
    qed
    have "block_heap st2 q = Some (pb\<lparr>ref_count := ref_count pb - 1\<rparr>)"
      using fresh by (simp add: n(3) nn bh put_block_def)
    with others pb nb n(2) show ?thesis by (auto simp: b0)
  qed
qed

text \<open>
  C8. When the slot \<open>i\<close> of \<open>a\<close> is absent and that of \<open>b\<close> holds the block \<open>q\<close>, the step of
  \<^verbatim>\<open>bitset_or\<close> for this slot returns OK, puts the very pointer \<open>q\<close> into the slot of \<open>a\<close> and
  adds one to the reference count of \<open>q\<close>; nothing is allocated and no word is copied. After
  the whole \<^verbatim>\<open>bitset_or\<close> has returned OK the slot of \<open>a\<close> still holds \<open>q\<close>, and a following
  \<^verbatim>\<open>bitset_set\<close> on \<open>a\<close> of a bit of this slot leaves every answer of \<^verbatim>\<open>bitset_test_bit\<close> on
  \<open>b\<close> and the words of \<open>q\<close> as they were. When it returns OK, the bit tests 1 in \<open>a\<close> and
  every other bit of \<open>a\<close> tests as before, the bits it shared with \<open>b\<close> among them. When the
  bit was clear, the slot of \<open>a\<close> then holds a block that did not exist before, with
  reference count 1, whose words and count are those of \<open>q\<close> with the bit set by
  \<^verbatim>\<open>bitset_block_set_bit\<close>, and \<open>q\<close> has one reference less.
\<close>

theorem or_shares_block_then_set_clones:
  assumes inv: "heap_inv st" and a: "get_slot st a (int i) = Inr None"
    and b: "get_slot st b (int i) = Inr (Some q)"
  shows "(\<exists>st1 qb. or_slot B st a b i = Inr (OK, st1) \<and> block_heap st q = Some qb
            \<and> get_slot st1 a (int i) = Inr (Some q)
            \<and> block_heap st1 = (block_heap st)(q \<mapsto> qb\<lparr>ref_count := ref_count qb + 1\<rparr>)
            \<and> next_ptr st1 = next_ptr st \<and> block_allocs st1 = block_allocs st)
       \<and> (\<forall>st1 bt ret st2.
             bitset_or B st (Some a) (Some b) = Inr (OK, st1) \<and> bt div IDSPERBLOCK B = int i
             \<and> bitset_set B st1 (Some a) bt = Inr (ret, st2)
            \<longrightarrow> get_slot st1 a (int i) = Inr (Some q)
              \<and> (\<forall>j v. bitset_test_bit B st2 (Some b) j v = bitset_test_bit B st1 (Some b) j v)
              \<and> map_option ints (block_heap st2 q) = map_option ints (block_heap st1 q)
              \<and> (ret = OK
                   \<longrightarrow> bitset_test_bit B st2 (Some a) bt (Some 0) = Inr (OK, Some 1)
                     \<and> (\<forall>j v. j \<noteq> bt \<longrightarrow>
                          bitset_test_bit B st2 (Some a) j v = bitset_test_bit B st1 (Some a) j v))
              \<and> (ret = OK \<and> bitset_test_bit B st1 (Some a) bt (Some 0) = Inr (OK, Some 0)
                   \<longrightarrow> get_slot st2 a (int i) = Inr (Some (next_ptr st1))
                     \<and> block_heap st1 (next_ptr st1) = None
                     \<and> map_option ref_count (block_heap st2 (next_ptr st1)) = Some 1
                     \<and> (\<exists>qb nb. block_heap st1 q = Some qb
                          \<and> block_heap st2 q = Some (qb\<lparr>ref_count := ref_count qb - 1\<rparr>)
                          \<and> block_heap st2 (next_ptr st1) = Some nb
                          \<and> bitset_block_set_bit
                               \<lparr>ref_count = 1, set_count = set_count qb, ints = ints qb\<rparr>
                               (bt mod IDSPERBLOCK B) = Inr nb)))"
proof (intro conjI allI impI)
  from or_slot_shares [OF inv a b, of B]
  show "\<exists>st1 qb. or_slot B st a b i = Inr (OK, st1) \<and> block_heap st q = Some qb
            \<and> get_slot st1 a (int i) = Inr (Some q)
            \<and> block_heap st1 = (block_heap st)(q \<mapsto> qb\<lparr>ref_count := ref_count qb + 1\<rparr>)
            \<and> next_ptr st1 = next_ptr st \<and> block_allocs st1 = block_allocs st"
    by blast
next
  fix st1 bt ret st2
  assume hyp: "bitset_or B st (Some a) (Some b) = Inr (OK, st1) \<and> bt div IDSPERBLOCK B = int i
             \<and> bitset_set B st1 (Some a) bt = Inr (ret, st2)"
  from a b have ne: "a \<noteq> b" by auto
  from hyp have or: "bitset_or B st (Some a) (Some b) = Inr (OK, st1)"
    and bt: "bt div IDSPERBLOCK B = int i"
    and set: "bitset_set B st1 (Some a) bt = Inr (ret, st2)"
    by simp_all
  note inv1 = bitset_or_inv [OF inv or]
  from or_shares [OF inv a b or] have sa: "get_slot st1 a (bt div IDSPERBLOCK B) = Inr (Some q)"
    and sb: "get_slot st1 b (int i) = Inr (Some q)"
    by (simp_all add: bt)
  note S = set_shared [OF inv1 ne sa sb set]
  from sa show "get_slot st1 a (int i) = Inr (Some q)" by (simp add: bt)
  from S show "map_option ints (block_heap st2 q) = map_option ints (block_heap st1 q)" by blast
  {
    fix j v
    from S show "bitset_test_bit B st2 (Some b) j v = bitset_test_bit B st1 (Some b) j v" by blast
  }
  {
    assume ok: "ret = OK"
    from set_then_test [OF inv1 set [unfolded ok]]
    show "bitset_test_bit B st2 (Some a) bt (Some 0) = Inr (OK, Some 1)" .
    fix j v
    assume "j \<noteq> bt"
    with set_shared_clone [OF inv1 ne sa sb set [unfolded ok]]
    show "bitset_test_bit B st2 (Some a) j v = bitset_test_bit B st1 (Some a) j v" by blast
  }
  assume c: "ret = OK \<and> bitset_test_bit B st1 (Some a) bt (Some 0) = Inr (OK, Some 0)"
  with S show "get_slot st2 a (int i) = Inr (Some (next_ptr st1))"
    "block_heap st1 (next_ptr st1) = None"
    "map_option ref_count (block_heap st2 (next_ptr st1)) = Some 1"
    by (simp_all add: bt)
  from c have ok: "ret = OK" by simp
  from set_shared_clone [OF inv1 ne sa sb set [unfolded ok]] c
  show "\<exists>qb nb. block_heap st1 q = Some qb
          \<and> block_heap st2 q = Some (qb\<lparr>ref_count := ref_count qb - 1\<rparr>)
          \<and> block_heap st2 (next_ptr st1) = Some nb
          \<and> bitset_block_set_bit
               \<lparr>ref_count = 1, set_count = set_count qb, ints = ints qb\<rparr>
               (bt mod IDSPERBLOCK B) = Inr nb"
    by blast
qed

theorem or_shares_block_then_set_clones_witness:
  "or_slot 1 (after 1 union_calls) 3 0 0 = Inr (OK, after 1 (union_calls @ [COr (Some 3) (Some 0)]))
   \<and> get_slot (after 1 (union_calls @ [COr (Some 3) (Some 0)])) 3 0 = Inr (Some 2)
   \<and> map_option ref_count (block_heap (after 1 union_calls) 2) = Some 1
   \<and> map_option ref_count (block_heap (after 1 (union_calls @ [COr (Some 3) (Some 0)])) 2) = Some 2
   \<and> next_ptr (after 1 (union_calls @ [COr (Some 3) (Some 0)])) = next_ptr (after 1 union_calls)
   \<and> bitset_set 1 (after 1 (union_calls @ [COr (Some 3) (Some 0)])) (Some 3) 10
     = Inr (OK, after 1 (union_calls @ [COr (Some 3) (Some 0), CSet (Some 3) 10]))
   \<and> get_slot (after 1 (union_calls @ [COr (Some 3) (Some 0), CSet (Some 3) 10])) 3 0 = Inr (Some 5)
   \<and> block_heap (after 1 (union_calls @ [COr (Some 3) (Some 0), CSet (Some 3) 10])) 5
     = Some \<lparr>ref_count = 1, set_count = 2, ints = [1032]\<rparr>
   \<and> block_heap (after 1 (union_calls @ [COr (Some 3) (Some 0), CSet (Some 3) 10])) 2
     = Some \<lparr>ref_count = 1, set_count = 1, ints = [8]\<rparr>
   \<and> bitset_test_bit 1 (after 1 (union_calls @ [COr (Some 3) (Some 0), CSet (Some 3) 10])) (Some 0) 10 (Some 0)
     = Inr (OK, Some 0)
   \<and> bitset_test_bit 1 (after 1 (union_calls @ [COr (Some 3) (Some 0), CSet (Some 3) 10])) (Some 3) 10 (Some 0)
     = Inr (OK, Some 1)
   \<and> bitset_test_bit 1 (after 1 (union_calls @ [COr (Some 3) (Some 0), CSet (Some 3) 10])) (Some 3) 3 (Some 0)
     = Inr (OK, Some 1)"
proof -
  let ?W = "after 1 union_calls"
  let ?U = "after 1 (union_calls @ [COr (Some 3) (Some 0)])"
  let ?V = "after 1 (union_calls @ [COr (Some 3) (Some 0), CSet (Some 3) 10])"
  have a: "get_slot ?W 3 (int 0) = Inr None" and b: "get_slot ?W 0 (int 0) = Inr (Some 2)"
    by (simp_all add: model_defs union_calls_def)
  have slot: "or_slot 1 ?W 3 0 0 = Inr (OK, ?U)"
    by (simp add: model_defs union_calls_def)
  have or: "bitset_or 1 ?W (Some 3) (Some 0) = Inr (OK, ?U)"
    by (simp add: model_defs union_calls_def)
  have set: "bitset_set 1 ?U (Some 3) 10 = Inr (OK, ?V)"
    by (simp add: model_defs union_calls_def)
  have t0: "bitset_test_bit 1 ?U (Some 3) 10 (Some 0) = Inr (OK, Some 0)"
    and t1: "bitset_test_bit 1 ?U (Some 0) 10 (Some 0) = Inr (OK, Some 0)"
    and t3: "bitset_test_bit 1 ?U (Some 3) 3 (Some 0) = Inr (OK, Some 1)"
    and n: "next_ptr ?U = 5" "next_ptr ?W = 5"
    and rcs: "map_option ref_count (block_heap ?W 2) = Some 1"
    and blk: "block_heap ?U 2 = Some \<lparr>ref_count = 2, set_count = 1, ints = [8]\<rparr>"
    and sb: "bitset_block_set_bit \<lparr>ref_count = 1, set_count = 1, ints = [8]\<rparr> (10 mod IDSPERBLOCK 1)
             = Inr \<lparr>ref_count = 1, set_count = 2, ints = [1032]\<rparr>"
    by (simp_all add: model_defs union_calls_def)
  note T = or_shares_block_then_set_clones [OF heap_inv_after a b, of 1]
  from T slot have 1: "get_slot ?U 3 0 = Inr (Some 2)"
    "map_option ref_count (block_heap ?U 2) = Some 2" "next_ptr ?U = next_ptr ?W"
    using rcs by auto
  from T have "bitset_or 1 ?W (Some 3) (Some 0) = Inr (OK, ?U) \<and> 10 div IDSPERBLOCK 1 = int 0
             \<and> bitset_set 1 ?U (Some 3) 10 = Inr (OK, ?V)
            \<longrightarrow> get_slot ?U 3 (int 0) = Inr (Some 2)
              \<and> (\<forall>j v. bitset_test_bit 1 ?V (Some 0) j v = bitset_test_bit 1 ?U (Some 0) j v)
              \<and> map_option ints (block_heap ?V 2) = map_option ints (block_heap ?U 2)
              \<and> (OK = OK
                   \<longrightarrow> bitset_test_bit 1 ?V (Some 3) 10 (Some 0) = Inr (OK, Some 1)
                     \<and> (\<forall>j v. j \<noteq> 10 \<longrightarrow>
                          bitset_test_bit 1 ?V (Some 3) j v = bitset_test_bit 1 ?U (Some 3) j v))
              \<and> (OK = OK \<and> bitset_test_bit 1 ?U (Some 3) 10 (Some 0) = Inr (OK, Some 0)
                   \<longrightarrow> get_slot ?V 3 (int 0) = Inr (Some (next_ptr ?U))
                     \<and> block_heap ?U (next_ptr ?U) = None
                     \<and> map_option ref_count (block_heap ?V (next_ptr ?U)) = Some 1
                     \<and> (\<exists>qb nb. block_heap ?U 2 = Some qb
                          \<and> block_heap ?V 2 = Some (qb\<lparr>ref_count := ref_count qb - 1\<rparr>)
                          \<and> block_heap ?V (next_ptr ?U) = Some nb
                          \<and> bitset_block_set_bit
                               \<lparr>ref_count = 1, set_count = set_count qb, ints = ints qb\<rparr>
                               (10 mod IDSPERBLOCK 1) = Inr nb))"
    by blast
  with or set t0 have 2: "bitset_test_bit 1 ?V (Some 0) 10 (Some 0) = bitset_test_bit 1 ?U (Some 0) 10 (Some 0)"
    and 3: "get_slot ?V 3 (int 0) = Inr (Some (next_ptr ?U))"
    and 4: "bitset_test_bit 1 ?V (Some 3) 10 (Some 0) = Inr (OK, Some 1)"
    and 5: "bitset_test_bit 1 ?V (Some 3) 3 (Some 0) = bitset_test_bit 1 ?U (Some 3) 3 (Some 0)"
    and 6: "\<exists>qb nb. block_heap ?U 2 = Some qb
                          \<and> block_heap ?V 2 = Some (qb\<lparr>ref_count := ref_count qb - 1\<rparr>)
                          \<and> block_heap ?V (next_ptr ?U) = Some nb
                          \<and> bitset_block_set_bit
                               \<lparr>ref_count = 1, set_count = set_count qb, ints = ints qb\<rparr>
                               (10 mod IDSPERBLOCK 1) = Inr nb"
    by (simp_all add: IDSPERBLOCK_def)
  from 6 blk sb n have 7: "block_heap ?V 2 = Some \<lparr>ref_count = 1, set_count = 1, ints = [8]\<rparr>"
    "block_heap ?V 5 = Some \<lparr>ref_count = 1, set_count = 2, ints = [1032]\<rparr>"
    by auto
  from slot 1 rcs set 2 3 4 5 7 t1 t3 n show ?thesis by simp
qed

section \<open>The slot whose clone failed\<close>









lemma bitset_heap_put_block [simp]: "bitset_heap (put_block st q b) = bitset_heap st"
  by (simp add: put_block_def)

















end
